(* ===== verification/Sylar_Prelude.thy ===== *)
theory Sylar_Prelude
  imports Main "HOL-Library.List_Lexorder" "HOL-Library.Char_ord" "HOL-Library.Word"
begin

text \<open>
  What the components share: the ways a C++ call can fail, sequencing of calls that can fail,
  the character and string functions of the C and C++ standard libraries that the sources use
  (\<open>isalpha\<close>, \<open>tolower\<close>, \<open>std::string::substr\<close>, \<open>find_first_not_of\<close>, printing of
  integers by \<open>operator<<\<close>), and \<open>std::map\<close> as an association list sorted by key, so that
  iteration order is the one the code sees.
\<close>

section \<open>Failures\<close>

text \<open>
  The first four constructors are C++ exceptions that can be caught; \<open>Foreign_Exception\<close> is one that
  is not derived from \<open>std::exception\<close>. \<open>Assert_Failed\<close> is a failed \<open>SYLAR_ASSERT\<close>, which
  aborts the process, and \<open>Undefined\<close> stands for undefined behaviour (here: a null pointer that
  is dereferenced). \<open>No_Return\<close> is the result of a call that has used up the fuel of its model.
  No \<open>catch\<close> sees the last three.
\<close>

datatype error =
    Invalid_Argument string
  | Logic_Error string
  | Lib_Exception string
  | Foreign_Exception
  | Assert_Failed string
  | Undefined string
  | No_Return

fun is_std_exception :: "error \<Rightarrow> bool" where
  "is_std_exception (Invalid_Argument _) = True"
| "is_std_exception (Logic_Error _) = True"
| "is_std_exception (Lib_Exception _) = True"
| "is_std_exception _ = False"

fun is_exception :: "error \<Rightarrow> bool" where
  "is_exception (Assert_Failed _) = False"
| "is_exception (Undefined _) = False"
| "is_exception No_Return = False"
| "is_exception _ = True"

fun what :: "error \<Rightarrow> string" where
  "what (Invalid_Argument s) = s"
| "what (Logic_Error s) = s"
| "what (Lib_Exception s) = s"
| "what _ = []"

type_synonym 'a result = "error + 'a"

fun bind_r :: "'a result \<Rightarrow> ('a \<Rightarrow> 'b result) \<Rightarrow> 'b result" where
  "bind_r (Inl e) f = Inl e"
| "bind_r (Inr x) f = f x"

lemma bind_r_eq_Inr [simp]: "bind_r m f = Inr y \<longleftrightarrow> (\<exists>x. m = Inr x \<and> f x = Inr y)"
  by (cases m) auto

lemma bind_r_eq_Inl: "bind_r m f = Inl e \<longleftrightarrow> m = Inl e \<or> (\<exists>x. m = Inr x \<and> f x = Inl e)"
  by (cases m) auto

lemma bind_r_assoc: "bind_r (bind_r m f) g = bind_r m (\<lambda>x. bind_r (f x) g)"
  by (cases m) auto

text \<open>A loop over a list whose body can fail and threads a state.\<close>

fun fold_r :: "('x \<Rightarrow> 's \<Rightarrow> 's result) \<Rightarrow> 'x list \<Rightarrow> 's \<Rightarrow> 's result" where
  "fold_r f [] s = Inr s"
| "fold_r f (x # xs) s = bind_r (f x s) (fold_r f xs)"

lemma fold_r_append: "fold_r f (xs @ ys) s = bind_r (fold_r f xs s) (fold_r f ys)"
proof (induction xs arbitrary: s)
  case (Cons x xs)
  then show ?case by (cases "f x s") simp_all
qed simp

lemma fold_r_map: "fold_r f (map g xs) = fold_r (\<lambda>x. f (g x)) xs"
proof
  show "fold_r f (map g xs) s = fold_r (\<lambda>x. f (g x)) xs s" for s
  proof (induction xs arbitrary: s)
    case (Cons x xs)
    then show ?case by (cases "f (g x) s") simp_all
  qed simp
qed

text \<open>An invariant of the body is an invariant of the loop.\<close>

lemma fold_r_invariant:
  assumes "fold_r f xs s = Inr s'" and "P s"
    and "\<And>x s s'. x \<in> set xs \<Longrightarrow> P s \<Longrightarrow> f x s = Inr s' \<Longrightarrow> P s'"
  shows "P s'"
  using assms
proof (induction xs arbitrary: s)
  case Nil
  then show ?case by simp
next
  case (Cons x xs)
  from Cons.prems(1) obtain t where t: "f x s = Inr t" "fold_r f xs t = Inr s'" by auto
  from Cons.prems(2,3) t(1) have "P t" by (meson list.set_intros(1))
  with t(2) show ?case using Cons.IH Cons.prems(3) by (meson list.set_intros(2))
qed

lemma fold_r_total:
  assumes "P s" and "\<And>x s. x \<in> set xs \<Longrightarrow> P s \<Longrightarrow> \<exists>s'. f x s = Inr s' \<and> P s'"
  shows "\<exists>s'. fold_r f xs s = Inr s' \<and> P s'"
  using assms
proof (induction xs arbitrary: s)
  case Nil
  then show ?case by simp
next
  case (Cons x xs)
  then obtain t where "f x s = Inr t" "P t" by (meson list.set_intros(1))
  with Cons.IH [of t] Cons.prems(2) show ?case by auto
qed

section \<open>Characters and strings\<close>

definition isalpha :: "char \<Rightarrow> bool" where
  "isalpha c = ((CHR ''a'' \<le> c \<and> c \<le> CHR ''z'') \<or> (CHR ''A'' \<le> c \<and> c \<le> CHR ''Z''))"

definition tolower :: "char \<Rightarrow> char" where
  "tolower c = (if CHR ''A'' \<le> c \<and> c \<le> CHR ''Z'' then char_of (of_char c + (32::nat)) else c)"

text \<open>\<open>s.substr(pos, n)\<close> for \<open>pos \<le> s.size()\<close>, the only way the sources call it.\<close>

definition substr :: "'a list \<Rightarrow> nat \<Rightarrow> nat \<Rightarrow> 'a list" where
  "substr s pos n = take n (drop pos s)"

text \<open>\<open>s.find_first_not_of(cs) != npos\<close>.\<close>

definition has_char_not_of :: "string \<Rightarrow> string \<Rightarrow> bool" where
  "has_char_not_of cs s = list_ex (\<lambda>c. \<not> List.member cs c) s"

lemma has_char_not_of_iff: "has_char_not_of cs s \<longleftrightarrow> \<not> set s \<subseteq> set cs"
  by (auto simp: has_char_not_of_def list_ex_iff List.member_iff)

lemma tolower_id: "\<not> (CHR ''A'' \<le> c \<and> c \<le> CHR ''Z'') \<Longrightarrow> tolower c = c"
  by (auto simp: tolower_def)

text \<open>Integers written to a stream are written in decimal.\<close>

definition digit_char :: "nat \<Rightarrow> char" where
  "digit_char d = char_of (48 + d)"

fun dec_of_nat :: "nat \<Rightarrow> string" where
  "dec_of_nat n = (if n < 10 then [digit_char n] else dec_of_nat (n div 10) @ [digit_char (n mod 10)])"

declare dec_of_nat.simps [simp del]

definition dec_of_int :: "int \<Rightarrow> string" where
  "dec_of_int i = (if i < 0 then CHR ''-'' # dec_of_nat (nat (- i)) else dec_of_nat (nat i))"

lemma dec_of_nat_nonempty [simp]: "dec_of_nat n \<noteq> []"
  by (subst dec_of_nat.simps) simp

section \<open>Sorted association lists: \<open>std::map\<close>\<close>

type_synonym ('k, 'v) smap = "('k \<times> 'v) list"

fun smap_put :: "'k::linorder \<Rightarrow> 'v \<Rightarrow> ('k, 'v) smap \<Rightarrow> ('k, 'v) smap" where
  "smap_put k v [] = [(k, v)]"
| "smap_put k v ((k', v') # m) =
     (if k < k' then (k, v) # (k', v') # m
      else if k = k' then (k, v) # m
      else (k', v') # smap_put k v m)"

definition smap_find :: "'k \<Rightarrow> ('k, 'v) smap \<Rightarrow> 'v option" where
  "smap_find k m = map_of m k"

definition smap_erase :: "'k \<Rightarrow> ('k, 'v) smap \<Rightarrow> ('k, 'v) smap" where
  "smap_erase k m = filter (\<lambda>e. fst e \<noteq> k) m"

definition smap_ok :: "('k::linorder, 'v) smap \<Rightarrow> bool" where
  "smap_ok m = sorted_wrt (<) (map fst m)"

lemma smap_ok_Nil [simp]: "smap_ok []"
  by (simp add: smap_ok_def)

lemma smap_find_Nil [simp]: "smap_find k [] = None"
  by (simp add: smap_find_def)

lemma smap_find_put [simp]: "smap_find j (smap_put k v m) = (if j = k then Some v else smap_find j m)"
  by (induction k v m rule: smap_put.induct) (auto simp: smap_find_def)

lemma keys_smap_put [simp]: "fst ` set (smap_put k v m) = insert k (fst ` set m)"
  by (induction k v m rule: smap_put.induct) auto

lemma smap_ok_put [simp]: "smap_ok m \<Longrightarrow> smap_ok (smap_put k v m)"
proof (induction k v m rule: smap_put.induct)
  case (2 k v k' v' m)
  have "fst ` set (smap_put k v m) = insert k (fst ` set m)" by simp
  with 2 show ?case by (auto simp: smap_ok_def)
qed (simp add: smap_ok_def)

lemma smap_find_erase [simp]: "smap_find j (smap_erase k m) = (if j = k then None else smap_find j m)"
  by (induction m) (auto simp: smap_find_def smap_erase_def)

lemma smap_ok_erase [simp]: "smap_ok m \<Longrightarrow> smap_ok (smap_erase k m)"
  by (simp add: smap_ok_def smap_erase_def sorted_wrt_filter sorted_wrt_map)

lemma smap_find_eq_None [simp]: "smap_find k m = None \<longleftrightarrow> k \<notin> fst ` set m"
  by (simp add: smap_find_def map_of_eq_None_iff)

lemma smap_find_in_set: "smap_find k m = Some v \<Longrightarrow> (k, v) \<in> set m"
  by (simp add: smap_find_def map_of_SomeD)

lemma smap_ok_distinct: "smap_ok m \<Longrightarrow> distinct (map fst m)"
  by (simp add: smap_ok_def strict_sorted_iff)

lemma smap_find_iff: "smap_ok m \<Longrightarrow> smap_find k m = Some v \<longleftrightarrow> (k, v) \<in> set m"
  by (simp add: smap_find_def smap_ok_distinct)

end
