(* ===== verification/Log_Format.thy ===== *)
theory Log_Format
  imports Sylar_Prelude
begin

text \<open>
  Log levels, log events, format items and the pattern parser of \<open>LogFormatter\<close>
  (\<open>src/log.h\<close>, \<open>src/log.cpp\<close>). The parser keeps the source's indices and loops; the lemmas
  relate it to a list of tokens, the patterns a user means to write.
\<close>

section \<open>Levels\<close>

text \<open>
  The enumerators of \<open>LogLevel::Level\<close>, and the one value outside them that the program makes,
  \<open>(LogLevel::Level)100\<close>, which the configuration listener gives to deleted loggers.
\<close>

datatype level = UNKNOW | DEBUG | INFO | WARN | ERROR | FATAL | LEVEL_100

fun level_val :: "level \<Rightarrow> 32 word" where
  "level_val UNKNOW = 0"
| "level_val DEBUG = 1"
| "level_val INFO = 2"
| "level_val WARN = 3"
| "level_val ERROR = 4"
| "level_val FATAL = 5"
| "level_val LEVEL_100 = 100"

lemma level_val_inject [simp]: "level_val a = level_val b \<longleftrightarrow> a = b"
  by (cases a; cases b) simp_all

instantiation level :: linorder
begin

definition less_eq_level :: "level \<Rightarrow> level \<Rightarrow> bool" where
  "less_eq_level a b \<longleftrightarrow> level_val a \<le> level_val b"

definition less_level :: "level \<Rightarrow> level \<Rightarrow> bool" where
  "less_level a b \<longleftrightarrow> level_val a < level_val b"

instance
  by standard (auto simp: less_eq_level_def less_level_def order.strict_iff_not)

end

lemma UNKNOW_le [simp]: "UNKNOW \<le> l"
  by (simp add: less_eq_level_def)

lemma le_LEVEL_100 [simp]: "l \<le> LEVEL_100"
  by (cases l) (simp_all add: less_eq_level_def)

lemma LEVEL_100_le_iff [simp]: "LEVEL_100 \<le> l \<longleftrightarrow> l = LEVEL_100"
  by (metis le_LEVEL_100 order.antisym order.refl)

definition LogLevel_ToString :: "level \<Rightarrow> string" where
  "LogLevel_ToString l =
     (case l of
        DEBUG \<Rightarrow> ''DEBUG''
      | INFO \<Rightarrow> ''INFO''
      | WARN \<Rightarrow> ''WARN''
      | ERROR \<Rightarrow> ''ERROR''
      | FATAL \<Rightarrow> ''FATAL''
      | _ \<Rightarrow> ''UNKNOW'')"

definition LogLevel_FromString :: "string \<Rightarrow> level" where
  "LogLevel_FromString str =
     (if str = ''debug'' then DEBUG
      else if str = ''info'' then INFO
      else if str = ''warn'' then WARN
      else if str = ''error'' then ERROR
      else if str = ''fatal'' then FATAL
      else if str = ''DEBUG'' then DEBUG
      else if str = ''INFO'' then INFO
      else if str = ''WARN'' then WARN
      else if str = ''ERROR'' then ERROR
      else if str = ''FATAL'' then FATAL
      else UNKNOW)"

section \<open>Events\<close>

text \<open>
  \<open>m_logger\<close> is the address of the event's logger; \<open>m_ss\<close> is the text written to the event's
  stream so far.
\<close>

record log_event =
  ev_file :: string
  ev_line :: "32 word"
  ev_elapse :: "32 word"
  ev_threadId :: "32 word"
  ev_threadName :: string
  ev_fiberId :: "32 word"
  ev_time :: "64 word"
  ev_ss :: string
  ev_logger :: nat
  ev_level :: level

definition LogEvent_ctor ::
  "string \<Rightarrow> 32 word \<Rightarrow> 32 word \<Rightarrow> 32 word \<Rightarrow> string \<Rightarrow> 32 word \<Rightarrow> 64 word \<Rightarrow> nat \<Rightarrow> level \<Rightarrow> log_event" where
  "LogEvent_ctor file line elapse thread_id thread_name fiber_id time logger lv =
     \<lparr>ev_file = file, ev_line = line, ev_elapse = elapse, ev_threadId = thread_id,
      ev_threadName = thread_name, ev_fiberId = fiber_id, ev_time = time, ev_ss = [],
      ev_logger = logger, ev_level = lv\<rparr>"

text \<open>
  \<open>LogEvent::format\<close>: the formatted text is appended when \<open>vasprintf\<close> succeeds and dropped when it
  returns \<open>-1\<close>. The argument is the result of \<open>vasprintf\<close> on the format and its arguments.
\<close>

definition LogEvent_format :: "string option \<Rightarrow> log_event \<Rightarrow> log_event" where
  "LogEvent_format buf e = (case buf of None \<Rightarrow> e | Some s \<Rightarrow> e\<lparr>ev_ss := ev_ss e @ s\<rparr>)"

section \<open>Format items\<close>

text \<open>
  \<open>env_strftime f t\<close> is what the 64-byte buffer holds after \<open>localtime_r\<close> and \<open>strftime\<close> on
  the format \<open>f\<close> and the time \<open>t\<close> (it depends on the machine's time zone), and
  \<open>env_logger_name\<close> reads a logger's name.
\<close>

record fmt_env =
  env_strftime :: "string \<Rightarrow> 64 word \<Rightarrow> string"
  env_logger_name :: "nat \<Rightarrow> string"

datatype format_item =
    MessageFormatItem
  | LevelFormatItem
  | ElapseFormatItem
  | NameFormatItem
  | ThreadIdFormatItem
  | ThreadNameFormatItem
  | FiberIdFormatItem
  | TimeFormatItem string
  | FilenameFormatItem
  | LineFormatItem
  | NewLineFormatItem
  | StringFormatItem string
  | TabFormatItem

definition TimeFormatItem_ctor :: "string \<Rightarrow> format_item" where
  "TimeFormatItem_ctor format =
     TimeFormatItem (if format = [] then ''%Y-%m-%d %H:%M:%S'' else format)"

fun FormatItem_format :: "fmt_env \<Rightarrow> format_item \<Rightarrow> level \<Rightarrow> log_event \<Rightarrow> string" where
  "FormatItem_format env MessageFormatItem lv e = ev_ss e"
| "FormatItem_format env LevelFormatItem lv e = LogLevel_ToString lv"
| "FormatItem_format env ElapseFormatItem lv e = dec_of_nat (unat (ev_elapse e))"
| "FormatItem_format env NameFormatItem lv e = env_logger_name env (ev_logger e)"
| "FormatItem_format env ThreadIdFormatItem lv e = dec_of_nat (unat (ev_threadId e))"
| "FormatItem_format env ThreadNameFormatItem lv e = ev_threadName e"
| "FormatItem_format env FiberIdFormatItem lv e = dec_of_nat (unat (ev_fiberId e))"
| "FormatItem_format env (TimeFormatItem f) lv e = env_strftime env f (ev_time e)"
| "FormatItem_format env FilenameFormatItem lv e = ev_file e"
| "FormatItem_format env LineFormatItem lv e = dec_of_int (sint (ev_line e))"
| "FormatItem_format env NewLineFormatItem lv e = [CHR 0x0A]"
| "FormatItem_format env (StringFormatItem s) lv e = s"
| "FormatItem_format env TabFormatItem lv e = [CHR 0x09]"

section \<open>The pattern parser\<close>

text \<open>
  The \<open>while\<close> loop of \<open>LogFormatter::init\<close> after a \<open>%\<close> at index \<open>i\<close>: \<open>n\<close> runs over the
  pattern, \<open>st\<close> is \<open>fmt_status\<close>, \<open>fb\<close> is \<open>fmt_begin\<close>. The result is \<open>(n, fmt_status, str, fmt)\<close>.
\<close>

function init_scan ::
  "string \<Rightarrow> nat \<Rightarrow> nat \<Rightarrow> nat \<Rightarrow> nat \<Rightarrow> string \<Rightarrow> string \<Rightarrow> nat \<times> nat \<times> string \<times> string" where
  "init_scan p i n st fb str fmt =
     (if n < length p then
        (if st = 0 \<and> \<not> isalpha (p ! n) \<and> p ! n \<noteq> CHR ''{'' \<and> p ! n \<noteq> CHR ''}''
         then (n, st, substr p (i + 1) (n - i - 1), fmt)
         else if st = 0 \<and> p ! n = CHR ''{''
         then init_scan p i (n + 1) 1 n (substr p (i + 1) (n - i - 1)) fmt
         else if st = 1 \<and> p ! n = CHR ''}''
         then (n + 1, 0, str, substr p (fb + 1) (n - fb - 1))
         else init_scan p i (n + 1) st fb
                (if n + 1 = length p \<and> str = [] then drop (i + 1) p else str) fmt)
      else (n, st, str, fmt))"
  by pat_completeness auto
termination
  by (relation "measure (\<lambda>(p, i, n, st, fb, str, fmt). length p - n)") auto

declare init_scan.simps [simp del]

lemma init_scan_ge: "n \<le> fst (init_scan p i n st fb str fmt)"
proof (induction p i n st fb str fmt rule: init_scan.induct)
  case (1 p i n st fb str fmt)
  then show ?case
    by (subst init_scan.simps) (auto dest: Suc_leD)
qed

lemma init_scan_ge_eq: "(m, r) = init_scan p i n st fb str fmt \<Longrightarrow> n \<le> m"
  using init_scan_ge [of n p i st fb str fmt] by (metis fst_conv)

text \<open>
  The \<open>for\<close> loop: the pending text \<open>nstr\<close>, the vector of \<open>(str, fmt, type)\<close>, \<open>m_error\<close>, and
  the text written to \<open>std::cout\<close>. The assignment \<open>i = n - 1\<close> and the loop's \<open>++i\<close> continue at \<open>n\<close>.
\<close>

type_synonym parsed = "(string \<times> string \<times> nat) list"

definition cout_pattern_error :: "string \<Rightarrow> nat \<Rightarrow> string" where
  "cout_pattern_error p i = ''pattern parse error: '' @ p @ '' - '' @ drop i p @ [CHR 0x0A]"

function init_loop ::
  "string \<Rightarrow> nat \<Rightarrow> string \<Rightarrow> parsed \<Rightarrow> bool \<Rightarrow> string \<Rightarrow> string \<times> parsed \<times> bool \<times> string" where
  "init_loop p i nstr vec err out =
     (if i < length p then
        (if p ! i \<noteq> CHR ''%'' then init_loop p (i + 1) (nstr @ [p ! i]) vec err out
         else if i + 1 < length p \<and> p ! (i + 1) = CHR ''%''
         then init_loop p (i + 1) (nstr @ ''%'') vec err out
         else
           (case init_scan p i (i + 1) 0 0 [] [] of (n, st, str, fmt) \<Rightarrow>
              if st = 0 then
                init_loop p n [] ((if nstr \<noteq> [] then vec @ [(nstr, [], 0)] else vec) @ [(str, fmt, 1)]) err out
              else
                init_loop p (i + 1) nstr (vec @ [(''<<pattern_error>>'', fmt, 0)]) True
                  (out @ cout_pattern_error p i)))
      else (nstr, vec, err, out))"
  by pat_completeness auto
termination
proof (relation "measure (\<lambda>(p, i, nstr, vec, err, out). length p - i)", goal_cases)
  case (4 p i nstr vec err out x n y st)
  then show ?case by (auto simp del: One_nat_def dest!: init_scan_ge_eq)
qed auto

declare init_loop.simps [simp del]

text \<open>The table \<open>s_format_items\<close> and the loop that turns the vector into items.\<close>

definition s_format_items :: "(string \<times> (string \<Rightarrow> format_item)) list" where
  "s_format_items =
     [(''m'', \<lambda>fmt. MessageFormatItem),
      (''p'', \<lambda>fmt. LevelFormatItem),
      (''r'', \<lambda>fmt. ElapseFormatItem),
      (''c'', \<lambda>fmt. NameFormatItem),
      (''t'', \<lambda>fmt. ThreadIdFormatItem),
      (''N'', \<lambda>fmt. ThreadNameFormatItem),
      (''F'', \<lambda>fmt. FiberIdFormatItem),
      (''d'', \<lambda>fmt. TimeFormatItem_ctor fmt),
      (''f'', \<lambda>fmt. FilenameFormatItem),
      (''l'', \<lambda>fmt. LineFormatItem),
      (''n'', \<lambda>fmt. NewLineFormatItem),
      (''T'', \<lambda>fmt. TabFormatItem)]"

fun make_items :: "parsed \<Rightarrow> format_item list \<times> bool \<Rightarrow> format_item list \<times> bool" where
  "make_items [] (items, err) = (items, err)"
| "make_items ((str, fmt, type) # vec) (items, err) =
     (if type = 0 then make_items vec (items @ [StringFormatItem str], err)
      else
        (case map_of s_format_items str of
           None \<Rightarrow> make_items vec (items @ [StringFormatItem (''<<error_format %'' @ str @ ''>>'')], True)
         | Some mk \<Rightarrow> make_items vec (items @ [mk fmt], err)))"

record log_formatter =
  fm_pattern :: string
  fm_items :: "format_item list"
  fm_error :: bool

definition LogFormatter_init :: "log_formatter \<Rightarrow> log_formatter" where
  "LogFormatter_init f =
     (case init_loop (fm_pattern f) 0 [] [] (fm_error f) [] of (nstr, vec, err, out) \<Rightarrow>
        (case make_items (if nstr \<noteq> [] then vec @ [(nstr, [], 0)] else vec) (fm_items f, err) of
           (items, err') \<Rightarrow> f\<lparr>fm_items := items, fm_error := err'\<rparr>))"

definition LogFormatter_ctor :: "string \<Rightarrow> log_formatter" where
  "LogFormatter_ctor pattern =
     LogFormatter_init \<lparr>fm_pattern = pattern, fm_items = [], fm_error = False\<rparr>"

text \<open>What the constructor writes to \<open>std::cout\<close>.\<close>

definition LogFormatter_cout :: "string \<Rightarrow> string" where
  "LogFormatter_cout pattern = snd (snd (snd (init_loop pattern 0 [] [] False [])))"

definition LogFormatter_format :: "fmt_env \<Rightarrow> log_formatter \<Rightarrow> level \<Rightarrow> log_event \<Rightarrow> string" where
  "LogFormatter_format env f lv e = concat (map (\<lambda>i. FormatItem_format env i lv e) (fm_items f))"

end
