(* ===== verification/Log_Pattern.thy ===== *)
theory Log_Pattern
  imports Log_Format
begin

text \<open>
  The abstract side of \<open>LogFormatter\<close>: a pattern as a list of tokens, how it is printed, which
  items it stands for and what it renders to. The lemmas show that the index loops of
  \<open>LogFormatter::init\<close> parse a printed token list back.
\<close>

section \<open>Tokens\<close>

text \<open>
  \<open>Lit s\<close> is text without a percent sign; \<open>Item k None\<close> is \<open>%k\<close> and \<open>Item k (Some f)\<close> is
  \<open>%k{f}\<close>, with \<open>k\<close> made of letters.
\<close>

datatype pat_tok = Lit string | Item string "string option"

fun print_tok :: "pat_tok \<Rightarrow> string" where
  "print_tok (Lit s) = s"
| "print_tok (Item k None) = CHR ''%'' # k"
| "print_tok (Item k (Some f)) = CHR ''%'' # k @ ''{'' @ f @ ''}''"

definition print_toks :: "pat_tok list \<Rightarrow> string" where
  "print_toks ts = concat (map print_tok ts)"

lemma print_toks_simps [simp]:
  "print_toks [] = []"
  "print_toks (t # ts) = print_tok t @ print_toks ts"
  by (simp_all add: print_toks_def)

text \<open>A \<open>%k\<close> without braces ends at the first character that is not a letter or a brace.\<close>

definition ends_key :: "string \<Rightarrow> bool" where
  "ends_key s \<longleftrightarrow>
     (case s of [] \<Rightarrow> True | c # _ \<Rightarrow> \<not> isalpha c \<and> c \<noteq> CHR ''{'' \<and> c \<noteq> CHR ''}'')"

fun wf_toks :: "pat_tok list \<Rightarrow> string \<Rightarrow> bool" where
  "wf_toks [] rest = True"
| "wf_toks (Lit s # ts) rest = (CHR ''%'' \<notin> set s \<and> wf_toks ts rest)"
| "wf_toks (Item k None # ts) rest =
     (k \<noteq> [] \<and> list_all isalpha k \<and> ends_key (print_toks ts @ rest) \<and> wf_toks ts rest)"
| "wf_toks (Item k (Some f) # ts) rest =
     (k \<noteq> [] \<and> list_all isalpha k \<and> CHR ''}'' \<notin> set f \<and> wf_toks ts rest)"

text \<open>What the parser's pending text and vector become over a token.\<close>

fun flush :: "string \<Rightarrow> parsed \<Rightarrow> parsed" where
  "flush nstr vec = (if nstr \<noteq> [] then vec @ [(nstr, [], 0)] else vec)"

declare flush.simps [simp del]

fun absorb :: "string \<times> parsed \<Rightarrow> pat_tok \<Rightarrow> string \<times> parsed" where
  "absorb (nstr, vec) (Lit s) = (nstr @ s, vec)"
| "absorb (nstr, vec) (Item k f) = ([], flush nstr vec @ [(k, case f of None \<Rightarrow> [] | Some x \<Rightarrow> x, 1)])"

section \<open>The inner loop\<close>

lemma isalpha_not_special [simp]:
  "\<not> isalpha CHR ''%''" "\<not> isalpha CHR ''{''" "\<not> isalpha CHR ''}''"
  by (simp_all add: isalpha_def)

lemma init_scan_letter:
  assumes "n + 1 < length p" and "isalpha (p ! n)"
  shows "init_scan p i n 0 fb [] fmt = init_scan p i (n + 1) 0 fb [] fmt"
  using assms by (subst init_scan.simps) auto

lemma init_scan_letters:
  assumes "n + j < length p" and "\<And>x. n \<le> x \<Longrightarrow> x < n + j \<Longrightarrow> isalpha (p ! x)"
  shows "init_scan p i n 0 fb [] fmt = init_scan p i (n + j) 0 fb [] fmt"
  using assms
proof (induction j arbitrary: n)
  case (Suc j)
  have "init_scan p i n 0 fb [] fmt = init_scan p i (n + 1) 0 fb [] fmt"
    using Suc.prems by (intro init_scan_letter) auto
  also have "\<dots> = init_scan p i (n + 1 + j) 0 fb [] fmt"
    using Suc.prems by (intro Suc.IH) auto
  finally show ?case by simp
qed simp

text \<open>A key that runs to the end of the pattern.\<close>

lemma init_scan_to_end:
  assumes "n < length p" and "\<And>x. n \<le> x \<Longrightarrow> x < length p \<Longrightarrow> isalpha (p ! x)"
  shows "init_scan p i n 0 fb [] fmt = (length p, 0, drop (i + 1) p, fmt)"
proof -
  define m where "m = length p - 1"
  have m: "m < length p" "m + 1 = length p" "n \<le> m" "isalpha (p ! m)" using assms by (auto simp: m_def)
  have "init_scan p i n 0 fb [] fmt = init_scan p i (n + (m - n)) 0 fb [] fmt"
    using assms m by (intro init_scan_letters) auto
  also have "\<dots> = init_scan p i m 0 fb [] fmt" using m by simp
  also have "\<dots> = init_scan p i (length p) 0 fb (drop (i + 1) p) fmt"
    using m by (subst init_scan.simps) auto
  also have "\<dots> = (length p, 0, drop (i + 1) p, fmt)" by (subst init_scan.simps) simp
  finally show ?thesis .
qed

text \<open>A key that ends at a character that cannot belong to it.\<close>

lemma init_scan_stop:
  assumes "m < length p" and "\<not> isalpha (p ! m)" and "p ! m \<noteq> CHR ''{''" and "p ! m \<noteq> CHR ''}''"
  shows "init_scan p i m 0 fb str fmt = (m, 0, substr p (i + 1) (m - i - 1), fmt)"
  using assms by (subst init_scan.simps) simp

lemma init_scan_open:
  assumes "m < length p" and "p ! m = CHR ''{''"
  shows "init_scan p i m 0 fb str fmt = init_scan p i (m + 1) 1 m (substr p (i + 1) (m - i - 1)) fmt"
  using assms by (subst init_scan.simps) simp

text \<open>Inside braces: up to the closing brace, or to the end when there is none.\<close>

lemma init_scan_close:
  assumes "n + j < length p" and "p ! (n + j) = CHR ''}''"
    and "\<And>x. n \<le> x \<Longrightarrow> x < n + j \<Longrightarrow> p ! x \<noteq> CHR ''}''"
  shows "init_scan p i n 1 fb str fmt = (n + j + 1, 0, str, substr p (fb + 1) (n + j - fb - 1))"
  using assms
proof (induction j arbitrary: n)
  case 0
  then show ?case by (subst init_scan.simps) simp
next
  case (Suc j)
  have "init_scan p i n 1 fb str fmt = init_scan p i (n + 1) 1 fb str fmt"
    using Suc.prems by (subst init_scan.simps) auto
  also have "\<dots> = (n + 1 + j + 1, 0, str, substr p (fb + 1) (n + 1 + j - fb - 1))"
    using Suc.prems by (intro Suc.IH) auto
  finally show ?case by simp
qed

lemma init_scan_unterminated:
  assumes "\<And>x. n \<le> x \<Longrightarrow> x < length p \<Longrightarrow> p ! x \<noteq> CHR ''}''"
  shows "fst (snd (init_scan p i n 1 fb str fmt)) = 1 \<and> snd (snd (snd (init_scan p i n 1 fb str fmt))) = fmt"
  using assms
proof (induction "length p - n" arbitrary: n str)
  case 0
  then show ?case by (subst (1 2) init_scan.simps) simp
next
  case (Suc d)
  define str' where "str' = (if n + 1 = length p \<and> str = [] then drop (i + 1) p else str)"
  have *: "init_scan p i n 1 fb str fmt = init_scan p i (n + 1) 1 fb str' fmt"
    using Suc.hyps(2) Suc.prems by (subst init_scan.simps) (auto simp: str'_def)
  show ?case
    unfolding * using Suc.hyps(2) Suc.prems by (intro Suc.hyps(1)) auto
qed

section \<open>One token of the outer loop\<close>

lemma key_char:
  assumes "length pre < x" and "x \<le> length pre + length k" and "list_all isalpha k"
  shows "isalpha ((pre @ c # k @ rest) ! x)"
proof -
  have "(pre @ c # k @ rest) ! x = k ! (x - length pre - 1)"
    using assms by (auto simp: nth_append nth_Cons')
  then show ?thesis using assms by (auto simp: list_all_length)
qed

lemma substr_key: "substr (pre @ c # k @ rest) (length pre + 1) (length k) = k"
  by (simp add: substr_def)

lemma init_scan_plain:
  assumes "k \<noteq> []" and "list_all isalpha k" and "ends_key rest"
  shows "init_scan (pre @ CHR ''%'' # k @ rest) (length pre) (length pre + 1) 0 0 [] [] =
           (length pre + 1 + length k, 0, k, [])"
proof (cases rest)
  case Nil
  have *: "isalpha ((pre @ CHR ''%'' # k @ rest) ! x)"
    if "length pre + 1 \<le> x" "x < length (pre @ CHR ''%'' # k @ rest)" for x
    using that Nil assms(2) by (intro key_char) auto
  have "init_scan (pre @ CHR ''%'' # k @ rest) (length pre) (length pre + 1) 0 0 [] [] =
          (length (pre @ CHR ''%'' # k @ rest), 0, drop (length pre + 1) (pre @ CHR ''%'' # k @ rest), [])"
    using assms(1) * by (intro init_scan_to_end) auto
  then show ?thesis using Nil by simp
next
  case (Cons c rest')
  let ?p = "pre @ CHR ''%'' # k @ rest"
  have c: "?p ! (length pre + 1 + length k) = c" using Cons by (auto simp: nth_append nth_Cons')
  have "init_scan ?p (length pre) (length pre + 1) 0 0 [] [] =
          init_scan ?p (length pre) (length pre + 1 + length k) 0 0 [] []"
    using Cons assms(2) by (intro init_scan_letters key_char) auto
  also have "\<dots> = (length pre + 1 + length k, 0, substr ?p (length pre + 1) (length k), [])"
    using assms(3) c Cons by (subst init_scan_stop) (auto simp: ends_key_def)
  finally show ?thesis by (simp only: substr_key)
qed

lemma init_scan_brace:
  assumes "k \<noteq> []" and "list_all isalpha k"
  shows "init_scan (pre @ CHR ''%'' # k @ CHR ''{'' # rs) (length pre) (length pre + 1) 0 0 [] [] =
           init_scan (pre @ CHR ''%'' # k @ CHR ''{'' # rs) (length pre) (length pre + length k + 2) 1
             (length pre + length k + 1) k []"
proof -
  let ?p = "pre @ CHR ''%'' # k @ CHR ''{'' # rs"
  have c: "?p ! (length pre + 1 + length k) = CHR ''{''" by (auto simp: nth_append nth_Cons')
  have "init_scan ?p (length pre) (length pre + 1) 0 0 [] [] =
          init_scan ?p (length pre) (length pre + 1 + length k) 0 0 [] []"
    using assms(2) by (intro init_scan_letters key_char) auto
  also have "\<dots> = init_scan ?p (length pre) (length pre + 1 + length k + 1) 1 (length pre + 1 + length k)
                    (substr ?p (length pre + 1) (length k)) []"
    using c by (subst init_scan_open) auto
  finally show ?thesis by (simp add: substr_def)
qed

lemma init_scan_formatted:
  assumes "k \<noteq> []" and "list_all isalpha k" and "CHR ''}'' \<notin> set f"
  shows "init_scan (pre @ CHR ''%'' # k @ CHR ''{'' # f @ CHR ''}'' # rest) (length pre) (length pre + 1) 0 0 [] [] =
           (length pre + length k + length f + 3, 0, k, f)"
proof -
  let ?p = "pre @ CHR ''%'' # k @ CHR ''{'' # f @ CHR ''}'' # rest"
  let ?n = "length pre + length k + 2"
  have split: "?p = (pre @ CHR ''%'' # k @ [CHR ''{'']) @ f @ CHR ''}'' # rest" by simp
  have inside: "?p ! x = f ! (x - ?n)" if "?n \<le> x" "x < ?n + length f" for x
    using that unfolding split by (subst nth_append_right) (auto simp: nth_append)
  have close: "?p ! (?n + length f) = CHR ''}''"
    unfolding split by (subst nth_append_right) (auto simp: nth_append)
  have "init_scan ?p (length pre) ?n 1 (length pre + length k + 1) k [] =
          (?n + length f + 1, 0, k, substr ?p (length pre + length k + 2) (length f))"
    using assms(3) close inside
    by (subst init_scan_close [where j = "length f"]) (auto simp: in_set_conv_nth)
  then show ?thesis using init_scan_brace [OF assms(1,2), of pre] by (simp add: substr_def)
qed

lemma init_loop_lit:
  assumes "CHR ''%'' \<notin> set s"
  shows "init_loop (pre @ s @ rest) (length pre) nstr vec err out =
           init_loop (pre @ s @ rest) (length (pre @ s)) (nstr @ s) vec err out"
  using assms
proof (induction s arbitrary: pre nstr)
  case (Cons c s)
  have "init_loop (pre @ (c # s) @ rest) (length pre) nstr vec err out =
          init_loop ((pre @ [c]) @ s @ rest) (length (pre @ [c])) (nstr @ [c]) vec err out"
    using Cons.prems by (subst init_loop.simps) auto
  also have "\<dots> = init_loop ((pre @ [c]) @ s @ rest) (length ((pre @ [c]) @ s)) ((nstr @ [c]) @ s) vec err out"
    using Cons.prems by (intro Cons.IH) auto
  finally show ?case by simp
qed simp

text \<open>A percent sign whose key scan ends outside braces makes one entry of type 1.\<close>

lemma init_loop_percent:
  assumes "i < length p" and "p ! i = CHR ''%''"
    and "i + 1 < length p \<Longrightarrow> p ! (i + 1) \<noteq> CHR ''%''"
    and "init_scan p i (i + 1) 0 0 [] [] = (n, 0, k, f)"
  shows "init_loop p i nstr vec err out = init_loop p n [] (flush nstr vec @ [(k, f, 1)]) err out"
  using assms by (subst init_loop.simps) (auto simp: flush.simps)

lemma wf_toks_Item_next:
  assumes "list_all isalpha k" and "k \<noteq> []"
  shows "(pre @ c # k @ rest) ! (length pre + 1) \<noteq> CHR ''%''"
proof -
  have "isalpha ((pre @ c # k @ rest) ! (length pre + 1))"
    using assms by (intro key_char) (auto simp: Suc_le_eq)
  then show ?thesis by (metis isalpha_not_special(1))
qed

lemma init_loop_tok:
  assumes "wf_toks [t] rest"
  shows "init_loop (pre @ print_tok t @ rest) (length pre) nstr vec err out =
           init_loop (pre @ print_tok t @ rest) (length (pre @ print_tok t))
             (fst (absorb (nstr, vec) t)) (snd (absorb (nstr, vec) t)) err out"
proof (cases t)
  case (Lit s)
  then show ?thesis using assms init_loop_lit [of s pre rest] by simp
next
  case (Item k fo)
  then have k: "k \<noteq> []" "list_all isalpha k" using assms by (cases fo; simp)+
  show ?thesis
  proof (cases fo)
    case None
    have "ends_key rest" using assms Item None by simp
    from init_scan_plain [OF k this, of pre] show ?thesis
      using Item None wf_toks_Item_next [OF k(2,1), of pre "CHR ''%''" rest]
      by (subst init_loop_percent [where n = "length pre + 1 + length k" and k = k and f = "[]"])
         (auto simp: nth_append)
  next
    case (Some f)
    have f: "CHR ''}'' \<notin> set f" using assms Item Some by simp
    from init_scan_formatted [OF k f, of pre rest] show ?thesis
      using Item Some wf_toks_Item_next [OF k(2,1), of pre "CHR ''%''" "CHR ''{'' # f @ CHR ''}'' # rest"]
      by (subst init_loop_percent [where n = "length pre + length k + length f + 3" and k = k and f = f])
         (auto simp: nth_append eval_nat_numeral add.assoc)
  qed
qed

section \<open>Whole patterns\<close>

lemma wf_toks_Cons: "wf_toks (t # ts) rest \<longleftrightarrow> wf_toks [t] (print_toks ts @ rest) \<and> wf_toks ts rest"
proof (cases t)
  case (Item k fo)
  then show ?thesis by (cases fo) auto
qed auto

lemma init_loop_toks:
  assumes "wf_toks ts rest"
  shows "init_loop (pre @ print_toks ts @ rest) (length pre) nstr vec err out =
           init_loop (pre @ print_toks ts @ rest) (length (pre @ print_toks ts))
             (fst (foldl absorb (nstr, vec) ts)) (snd (foldl absorb (nstr, vec) ts)) err out"
  using assms
proof (induction ts arbitrary: pre nstr vec)
  case (Cons t ts)
  let ?p = "pre @ print_tok t @ print_toks ts @ rest"
  obtain nstr' vec' where a: "absorb (nstr, vec) t = (nstr', vec')" by (cases "absorb (nstr, vec) t")
  from Cons.prems have wf: "wf_toks [t] (print_toks ts @ rest)" "wf_toks ts rest"
    using wf_toks_Cons by blast+
  have "init_loop ?p (length pre) nstr vec err out = init_loop ?p (length (pre @ print_tok t)) nstr' vec' err out"
    using init_loop_tok [OF wf(1), of pre] a by simp
  also have "\<dots> = init_loop ?p (length ((pre @ print_tok t) @ print_toks ts))
      (fst (foldl absorb (nstr', vec') ts)) (snd (foldl absorb (nstr', vec') ts)) err out"
    using Cons.IH [OF wf(2), of "pre @ print_tok t" nstr' vec'] by simp
  finally show ?case using a by simp
qed simp

lemma init_loop_end: "init_loop p (length p) nstr vec err out = (nstr, vec, err, out)"
  by (subst init_loop.simps) simp

text \<open>Token lists in the form a parser returns: no empty text and no two texts in a row.\<close>

fun starts_lit :: "pat_tok list \<Rightarrow> bool" where
  "starts_lit (Lit s # ts) = True"
| "starts_lit _ = False"

fun normal_toks :: "pat_tok list \<Rightarrow> bool" where
  "normal_toks [] = True"
| "normal_toks (Lit s # ts) = (s \<noteq> [] \<and> \<not> starts_lit ts \<and> normal_toks ts)"
| "normal_toks (Item k f # ts) = normal_toks ts"

fun entry_of :: "pat_tok \<Rightarrow> string \<times> string \<times> nat" where
  "entry_of (Lit s) = (s, [], 0)"
| "entry_of (Item k f) = (k, case f of None \<Rightarrow> [] | Some x \<Rightarrow> x, 1)"

lemma flush_absorb:
  assumes "normal_toks ts"
  shows "(case foldl absorb ([], vec) ts of (nstr', vec') \<Rightarrow> flush nstr' vec') = vec @ map entry_of ts"
  using assms
proof (induction ts arbitrary: vec rule: normal_toks.induct)
  case (2 s ts)
  have "foldl absorb (s, vec) ts = foldl absorb ([], vec @ [(s, [], 0)]) ts" if nonempty: "ts \<noteq> []"
  proof -
    obtain k f us where "ts = Item k f # us"
      using nonempty 2(2) by (cases ts rule: starts_lit.cases) auto
    then show ?thesis using 2(2) by (simp add: flush.simps)
  qed
  then show ?case using 2(1) [of "vec @ [(s, [], 0)]"] 2(2) by (cases "ts = []") (auto simp: flush.simps)
qed (auto simp: flush.simps)

fun known_key :: "pat_tok \<Rightarrow> bool" where
  "known_key (Lit s) = True"
| "known_key (Item k f) = (map_of s_format_items k \<noteq> None)"

fun item_of :: "pat_tok \<Rightarrow> format_item" where
  "item_of (Lit s) = StringFormatItem s"
| "item_of (Item k f) =
     (case map_of s_format_items k of
        None \<Rightarrow> StringFormatItem (''<<error_format %'' @ k @ ''>>'')
      | Some mk \<Rightarrow> mk (case f of None \<Rightarrow> [] | Some x \<Rightarrow> x))"

lemma make_items_append:
  "make_items (v @ w) s = make_items w (make_items v s)"
proof (induction v s rule: make_items.induct)
  case (2 str fmt type vec items err)
  then show ?case by (auto split: option.split)
qed simp

lemma make_items_toks:
  "make_items (map entry_of ts) (items, err) =
     (items @ map item_of ts, err \<or> \<not> list_all known_key ts)"
proof (induction ts arbitrary: items err)
  case (Cons t ts)
  then show ?case by (cases t) (auto split: option.splits)
qed simp

text \<open>Parsing a printed token list gives its items.\<close>

lemma LogFormatter_parse:
  assumes "wf_toks ts []" and "normal_toks ts"
  shows "LogFormatter_ctor (print_toks ts) =
           \<lparr>fm_pattern = print_toks ts, fm_items = map item_of ts, fm_error = (\<not> list_all known_key ts)\<rparr>"
proof -
  obtain nstr vec where a: "foldl absorb ([], []) ts = (nstr, vec)" by (cases "foldl absorb ([], []) ts")
  have "init_loop (print_toks ts) 0 [] [] False [] = (nstr, vec, False, [])"
    using init_loop_toks [OF assms(1), of "[]" "[]" "[]" False "[]"] a by (simp add: init_loop_end)
  moreover have "(if nstr \<noteq> [] then vec @ [(nstr, [], 0)] else vec) = map entry_of ts"
    using flush_absorb [OF assms(2), of "[]"] a by (simp add: flush.simps)
  ultimately show ?thesis
    by (simp add: LogFormatter_ctor_def LogFormatter_init_def make_items_toks)
qed

text \<open>What a token renders to, said without the items.\<close>

definition render_tok :: "fmt_env \<Rightarrow> level \<Rightarrow> log_event \<Rightarrow> pat_tok \<Rightarrow> string" where
  "render_tok env lv e t =
     (case t of
        Lit s \<Rightarrow> s
      | Item k f \<Rightarrow>
          (if k = ''m'' then ev_ss e
           else if k = ''p'' then LogLevel_ToString lv
           else if k = ''r'' then dec_of_nat (unat (ev_elapse e))
           else if k = ''c'' then env_logger_name env (ev_logger e)
           else if k = ''t'' then dec_of_nat (unat (ev_threadId e))
           else if k = ''N'' then ev_threadName e
           else if k = ''F'' then dec_of_nat (unat (ev_fiberId e))
           else if k = ''d'' then
             env_strftime env
               (if f = None \<or> f = Some [] then ''%Y-%m-%d %H:%M:%S'' else the f) (ev_time e)
           else if k = ''f'' then ev_file e
           else if k = ''l'' then dec_of_int (sint (ev_line e))
           else if k = ''n'' then [CHR 0x0A]
           else if k = ''T'' then [CHR 0x09]
           else ''<<error_format %'' @ k @ ''>>''))"

lemma item_of_render: "FormatItem_format env (item_of t) lv e = render_tok env lv e t"
  by (cases t) (auto simp: render_tok_def s_format_items_def TimeFormatItem_ctor_def split: option.split)

lemma LogFormatter_format_parse:
  assumes "wf_toks ts []" and "normal_toks ts"
  shows "LogFormatter_format env (LogFormatter_ctor (print_toks ts)) lv e =
           concat (map (render_tok env lv e) ts)"
  by (simp add: LogFormatter_parse [OF assms] LogFormatter_format_def item_of_render comp_def)

section \<open>Malformed patterns\<close>

text \<open>Once \<open>m_error\<close> is set it stays set.\<close>

lemma init_loop_error_mono: "err \<Longrightarrow> fst (snd (snd (init_loop p i nstr vec err out)))"
proof (induction p i nstr vec err out rule: init_loop.induct)
  case (1 p i nstr vec err out)
  then show ?case by (subst init_loop.simps) (auto split: prod.split)
qed

lemma make_items_error_mono: "err \<Longrightarrow> snd (make_items vec (items, err))"
  by (induction vec "(items, err)" arbitrary: items err rule: make_items.induct)
     (auto split: option.split)

lemma LogFormatter_error_if_parse_error:
  assumes "fst (snd (snd (init_loop p 0 [] [] False [])))"
  shows "fm_error (LogFormatter_ctor p)"
proof -
  obtain nstr vec out where "init_loop p 0 [] [] False [] = (nstr, vec, True, out)"
    using assms by (metis prod.collapse)
  then show ?thesis
    using make_items_error_mono [of True "if nstr \<noteq> [] then vec @ [(nstr, [], 0)] else vec" "[]"]
    by (auto simp: LogFormatter_ctor_def LogFormatter_init_def split_beta split: if_splits)
qed

text \<open>A brace that is never closed is a parse error, wherever it stands.\<close>

lemma init_loop_unterminated:
  assumes "k \<noteq> []" and "list_all isalpha k" and "CHR ''}'' \<notin> set f"
  shows "fst (snd (snd (init_loop (pre @ CHR ''%'' # k @ CHR ''{'' # f) (length pre) nstr vec err out)))"
proof -
  let ?p = "pre @ CHR ''%'' # k @ CHR ''{'' # f"
  have tail: "?p ! x \<noteq> CHR ''}''" if "length pre + length k + 2 \<le> x" "x < length ?p" for x
  proof -
    have split: "?p = (pre @ CHR ''%'' # k @ [CHR ''{'']) @ f" by simp
    have "?p ! x = f ! (x - (length pre + length k + 2))"
      unfolding split using that(1) by (subst nth_append_right) auto
    moreover have "x - (length pre + length k + 2) < length f" using that by auto
    ultimately show ?thesis using assms(3) nth_mem by metis
  qed
  obtain n st str fmt where s: "init_scan ?p (length pre) (length pre + 1) 0 0 [] [] = (n, st, str, fmt)"
    by (metis prod_cases4)
  have "st = 1"
    using init_scan_unterminated [of "length pre + length k + 2" ?p "length pre" "length pre + length k + 1" k "[]"]
      tail init_scan_brace [OF assms(1,2), of pre f] s by (metis fst_conv snd_conv)
  then show ?thesis
    using s wf_toks_Item_next [OF assms(2,1), of pre "CHR ''%''" "CHR ''{'' # f"]
    by (subst init_loop.simps) (auto simp: init_loop_error_mono)
qed

lemma LogFormatter_unterminated:
  assumes "wf_toks ts (CHR ''%'' # k @ CHR ''{'' # f)"
    and "k \<noteq> []" and "list_all isalpha k" and "CHR ''}'' \<notin> set f"
  shows "fm_error (LogFormatter_ctor (print_toks ts @ CHR ''%'' # k @ CHR ''{'' # f))"
  using init_loop_toks [OF assms(1), of "[]" "[]" "[]" False "[]"] init_loop_unterminated [OF assms(2-4)]
  by (intro LogFormatter_error_if_parse_error) simp

text \<open>A percent sign doubled to escape it: the second one still starts an item.\<close>

lemma init_loop_double_percent:
  "init_loop (CHR ''%'' # CHR ''%'' # s) 0 nstr vec err out =
     init_loop (CHR ''%'' # CHR ''%'' # s) 1 (nstr @ ''%'') vec err out"
  by (subst init_loop.simps) simp

lemma LogFormatter_double_percent:
  assumes "k \<noteq> []" and "list_all isalpha k"
  shows "fm_items (LogFormatter_ctor (''%%'' @ k)) = [StringFormatItem ''%'', item_of (Item k None)]"
proof -
  have "wf_toks [Item k None] []" using assms by (simp add: ends_key_def)
  from init_loop_tok [OF this, of "''%''" "''%''" "[]" False "[]"]
  have "init_loop (''%%'' @ k) 0 [] [] False [] = ([], [(''%'', [], 0), (k, [], 1)], False, [])"
    using init_loop_end [of "''%%'' @ k"] by (simp add: init_loop_double_percent flush.simps)
  then show ?thesis
    by (simp add: LogFormatter_ctor_def LogFormatter_init_def split: option.split)
qed

section \<open>Properties\<close>

text \<open>C1: Parsing inverts printing. A pattern written as a list of tokens (text without percent
  signs, \<open>%k\<close>, \<open>%k{f}\<close>) is parsed by \<open>LogFormatter::init\<close> into exactly the items of its tokens, in
  order, and the formatter is in error exactly when some key is not in \<open>s_format_items\<close>.\<close>

theorem pattern_roundtrip:
  assumes "wf_toks ts []" and "normal_toks ts"
  shows "LogFormatter_ctor (print_toks ts) =
           \<lparr>fm_pattern = print_toks ts, fm_items = map item_of ts, fm_error = (\<not> list_all known_key ts)\<rparr>"
  by (rule LogFormatter_parse [OF assms])

theorem pattern_roundtrip_witness:
  "fm_items (LogFormatter_ctor ''%d{%H:%M}%T[%p] %m%n'') =
     [TimeFormatItem ''%H:%M'', TabFormatItem, StringFormatItem ''['', LevelFormatItem,
      StringFormatItem ''] '', MessageFormatItem, NewLineFormatItem] \<and>
   \<not> fm_error (LogFormatter_ctor ''%d{%H:%M}%T[%p] %m%n'')"
proof -
  let ?ts = "[Item ''d'' (Some ''%H:%M''), Item ''T'' None, Lit ''['', Item ''p'' None, Lit ''] '',
              Item ''m'' None, Item ''n'' None]"
  have "wf_toks ?ts []" and "normal_toks ?ts" by code_simp+
  from pattern_roundtrip [OF this] show ?thesis
    by (simp add: s_format_items_def TimeFormatItem_ctor_def)
qed

text \<open>C2: What a log line looks like. The text that a formatter built from a token list makes of an
  event is the concatenation of what each token stands for: literal text, message, level, elapsed
  time, logger name, thread id and name, fiber id, time in the given format (or the default one),
  file name, line, newline, tab; an unknown key renders as an error marker.\<close>

theorem pattern_rendering:
  assumes "wf_toks ts []" and "normal_toks ts"
  shows "LogFormatter_format env (LogFormatter_ctor (print_toks ts)) lv e =
           concat (map (render_tok env lv e) ts)"
  by (rule LogFormatter_format_parse [OF assms])

theorem pattern_rendering_witness:
  "LogFormatter_format \<lparr>env_strftime = (\<lambda>f t. ''12:00''), env_logger_name = (\<lambda>a. ''root'')\<rparr>
     (LogFormatter_ctor ''<%f:%l> %c %m%n'') WARN
     (LogEvent_format (Some ''hello'') (LogEvent_ctor ''a.cpp'' 42 0 7 ''main'' 0 0 0 WARN)) =
   ''<a.cpp:42> root hello'' @ [CHR 0x0A]"
proof -
  let ?ts = "[Lit ''<'', Item ''f'' None, Lit '':'', Item ''l'' None, Lit ''> '', Item ''c'' None, Lit '' '',
              Item ''m'' None, Item ''n'' None]"
  have wf: "wf_toks ?ts []" "normal_toks ?ts" by code_simp+
  have "dec_of_int (sint (42 :: 32 word)) = ''42''" by code_simp
  then show ?thesis
    using pattern_rendering [OF wf] by (simp add: render_tok_def LogEvent_format_def LogEvent_ctor_def)
qed

text \<open>A format whose opening brace is never closed is rejected: whatever well-formed tokens come
  before \<open>%k{f\<close>, the formatter is in error.\<close>

theorem pattern_unterminated_is_error:
  assumes "wf_toks ts (CHR ''%'' # k @ CHR ''{'' # f)"
    and "k \<noteq> []" and "list_all isalpha k" and "CHR ''}'' \<notin> set f"
  shows "fm_error (LogFormatter_ctor (print_toks ts @ CHR ''%'' # k @ CHR ''{'' # f))"
  by (rule LogFormatter_unterminated [OF assms])

theorem pattern_unterminated_is_error_witness: "fm_error (LogFormatter_ctor ''at %p %d{%H'')"
proof -
  have "wf_toks [Lit ''at '', Item ''p'' None, Lit '' ''] (CHR ''%'' # ''d'' @ CHR ''{'' # ''%H'')"
    and "list_all isalpha ''d''"
    by code_simp+
  from pattern_unterminated_is_error [OF this(1) _ this(2)] show ?thesis by simp
qed

text \<open>A doubled percent sign does not escape the percent sign: the parser keeps one percent sign
  as text and then reads the second one as the start of an item, so \<open>%%k\<close> is a percent sign
  followed by the item \<open>%k\<close>, not the text \<open>%k\<close>.\<close>

theorem double_percent_starts_item:
  assumes "k \<noteq> []" and "list_all isalpha k"
  shows "fm_items (LogFormatter_ctor (''%%'' @ k)) = [StringFormatItem ''%'', item_of (Item k None)]"
  by (rule LogFormatter_double_percent [OF assms])

theorem double_percent_starts_item_witness:
  "fm_items (LogFormatter_ctor ''%%m'') = [StringFormatItem ''%'', MessageFormatItem]"
proof -
  have "list_all isalpha ''m''" by code_simp
  from double_percent_starts_item [OF _ this] show ?thesis by (simp add: s_format_items_def)
qed

text \<open>Level names. Printing a level and reading the name back gives the level, for every level of
  the enumeration; the value 100 given to deleted loggers prints as \<open>UNKNOW\<close> and is read as
  \<open>UNKNOW\<close>; no string reads as it.\<close>

theorem level_names:
  "LogLevel_FromString (LogLevel_ToString l) = (if l = LEVEL_100 then UNKNOW else l) \<and>
   LogLevel_FromString s \<noteq> LEVEL_100"
  by (cases l) (simp_all add: LogLevel_FromString_def LogLevel_ToString_def)

end
