(* ===== verification/Log_Core.thy ===== *)
theory Log_Core
  imports Log_Format
begin

text \<open>
  Appenders, loggers and the logger manager of \<open>src/log.h\<close> and \<open>src/log.cpp\<close> over an explicit
  store: shared pointers are addresses, so that one appender can be shared by several loggers and
  the manager and its callers see the same logger. Formatters are not changed after construction
  and are values. Here each operation is one step; \<open>Log_Threads\<close> splits logging into the steps of threads.
\<close>

section \<open>Files\<close>

text \<open>
  The part of \<open>std::ofstream\<close> the code uses: whether a file is open, and the fail state that
  \<open>operator bool\<close> and \<open>operator!\<close> read. \<open>close\<close> on a stream that is not open and \<open>open\<close> on one
  that is open fail; a successful \<open>open\<close> clears the state.
\<close>

record file_stream =
  fs_open :: bool
  fs_fail :: bool

definition fs_close :: "file_stream \<Rightarrow> file_stream" where
  "fs_close f = (if fs_open f then f\<lparr>fs_open := False\<rparr> else f\<lparr>fs_fail := True\<rparr>)"

definition fs_do_open :: "bool \<Rightarrow> file_stream \<Rightarrow> file_stream" where
  "fs_do_open can_open f =
     (if fs_open f then f\<lparr>fs_fail := True\<rparr>
      else if can_open then \<lparr>fs_open = True, fs_fail = False\<rparr>
      else f\<lparr>fs_fail := True\<rparr>)"

section \<open>The store\<close>

datatype sink =
    Stdout_Sink
  | File_Sink string file_stream "64 word"

record appender =
  ap_level :: level
  ap_has_formatter :: bool
  ap_formatter :: "log_formatter option"
  ap_sink :: sink

record logger =
  lg_name :: string
  lg_level :: level
  lg_appenders :: "nat list"
  lg_formatter :: "log_formatter option"
  lg_root :: "nat option"

text \<open>
  \<open>lw_loggers_map\<close> and \<open>lw_root\<close> are the members of the \<open>LoggerManager\<close> singleton. The last
  fields are the environment: which files can be opened and written at the moment, the clock
  \<open>time(0)\<close>, and the rendering of times.
\<close>

record log_world =
  lw_appenders :: "nat \<Rightarrow> appender option"
  lw_next_appender :: nat
  lw_loggers :: "nat \<Rightarrow> logger option"
  lw_next_logger :: nat
  lw_loggers_map :: "(string, nat) smap"
  lw_root :: nat
  lw_cout :: string
  lw_files :: "string \<Rightarrow> string"
  lw_can_open :: "string \<Rightarrow> bool"
  lw_can_write :: "string \<Rightarrow> bool"
  lw_now :: "64 word"
  lw_strftime :: "string \<Rightarrow> 64 word \<Rightarrow> string"

definition deref_logger :: "log_world \<Rightarrow> nat \<Rightarrow> logger result" where
  "deref_logger w a =
     (case lw_loggers w a of None \<Rightarrow> Inl (Undefined ''null Logger'') | Some l \<Rightarrow> Inr l)"

definition deref_appender :: "log_world \<Rightarrow> nat \<Rightarrow> appender result" where
  "deref_appender w a =
     (case lw_appenders w a of None \<Rightarrow> Inl (Undefined ''null LogAppender'') | Some p \<Rightarrow> Inr p)"

definition deref_formatter :: "log_formatter option \<Rightarrow> log_formatter result" where
  "deref_formatter f = (case f of None \<Rightarrow> Inl (Undefined ''null LogFormatter'') | Some g \<Rightarrow> Inr g)"

definition put_logger :: "nat \<Rightarrow> logger \<Rightarrow> log_world \<Rightarrow> log_world" where
  "put_logger a l w = w\<lparr>lw_loggers := (lw_loggers w)(a := Some l)\<rparr>"

definition put_appender :: "nat \<Rightarrow> appender \<Rightarrow> log_world \<Rightarrow> log_world" where
  "put_appender a p w = w\<lparr>lw_appenders := (lw_appenders w)(a := Some p)\<rparr>"

definition write_cout :: "string \<Rightarrow> log_world \<Rightarrow> log_world" where
  "write_cout s w = w\<lparr>lw_cout := lw_cout w @ s\<rparr>"

definition world_env :: "log_world \<Rightarrow> fmt_env" where
  "world_env w =
     \<lparr>env_strftime = lw_strftime w,
      env_logger_name = (\<lambda>a. case lw_loggers w a of None \<Rightarrow> [] | Some l \<Rightarrow> lg_name l)\<rparr>"

section \<open>Appenders\<close>

definition LogAppender_getFormatter :: "nat \<Rightarrow> log_world \<Rightarrow> log_formatter option result" where
  "LogAppender_getFormatter a w = bind_r (deref_appender w a) (\<lambda>p. Inr (ap_formatter p))"

definition LogAppender_setFormatter :: "nat \<Rightarrow> log_formatter option \<Rightarrow> log_world \<Rightarrow> log_world result" where
  "LogAppender_setFormatter a fm w =
     bind_r (deref_appender w a) (\<lambda>p.
       Inr (put_appender a (p\<lparr>ap_formatter := fm, ap_has_formatter := (fm \<noteq> None)\<rparr>) w))"

definition LogAppender_setLevel :: "nat \<Rightarrow> level \<Rightarrow> log_world \<Rightarrow> log_world result" where
  "LogAppender_setLevel a lv w =
     bind_r (deref_appender w a) (\<lambda>p. Inr (put_appender a (p\<lparr>ap_level := lv\<rparr>) w))"

definition new_appender :: "sink \<Rightarrow> log_world \<Rightarrow> nat \<times> log_world" where
  "new_appender s w =
     (lw_next_appender w,
      put_appender (lw_next_appender w)
        \<lparr>ap_level = DEBUG, ap_has_formatter = False, ap_formatter = None, ap_sink = s\<rparr>
        (w\<lparr>lw_next_appender := Suc (lw_next_appender w)\<rparr>))"

definition StdoutLogAppender_ctor :: "log_world \<Rightarrow> nat \<times> log_world" where
  "StdoutLogAppender_ctor w = new_appender Stdout_Sink w"

definition StdoutLogAppender_log :: "appender \<Rightarrow> level \<Rightarrow> log_event \<Rightarrow> log_world \<Rightarrow> log_world result" where
  "StdoutLogAppender_log p lv e w =
     (if lv \<ge> ap_level p then
        bind_r (deref_formatter (ap_formatter p)) (\<lambda>fm.
          Inr (write_cout (LogFormatter_format (world_env w) fm lv e) w))
      else Inr w)"

definition FileLogAppender_reopen_stream :: "bool \<Rightarrow> file_stream \<Rightarrow> file_stream" where
  "FileLogAppender_reopen_stream can_open f =
     (let f1 = (if \<not> fs_fail f then fs_close f else f) in fs_do_open can_open f1)"

definition FileLogAppender_reopen :: "nat \<Rightarrow> log_world \<Rightarrow> (bool \<times> log_world) result" where
  "FileLogAppender_reopen a w =
     bind_r (deref_appender w a) (\<lambda>p.
       case ap_sink p of
         Stdout_Sink \<Rightarrow> Inl (Undefined ''not a FileLogAppender'')
       | File_Sink name f t \<Rightarrow>
           (let f' = FileLogAppender_reopen_stream (lw_can_open w name) f
            in Inr (\<not> fs_fail f', put_appender a (p\<lparr>ap_sink := File_Sink name f' t\<rparr>) w)))"

text \<open>\<open>m_last_time\<close> is not initialised by the constructor: its first value is the argument \<open>junk\<close>.\<close>

definition FileLogAppender_ctor :: "64 word \<Rightarrow> string \<Rightarrow> log_world \<Rightarrow> (nat \<times> log_world) result" where
  "FileLogAppender_ctor junk filename w =
     (case new_appender (File_Sink filename \<lparr>fs_open = False, fs_fail = False\<rparr> junk) w of
        (a, w1) \<Rightarrow> bind_r (FileLogAppender_reopen a w1) (\<lambda>(ok, w2). Inr (a, w2)))"

text \<open>\<open>m_filestream << s\<close>.\<close>

definition file_write :: "string \<Rightarrow> string \<Rightarrow> file_stream \<Rightarrow> log_world \<Rightarrow> file_stream \<times> log_world" where
  "file_write name s f w =
     (if fs_fail f then (f, w)
      else if fs_open f \<and> lw_can_write w name
      then (f, w\<lparr>lw_files := (lw_files w)(name := lw_files w name @ s)\<rparr>)
      else (f\<lparr>fs_fail := True\<rparr>, w))"

definition FileLogAppender_log :: "nat \<Rightarrow> level \<Rightarrow> log_event \<Rightarrow> log_world \<Rightarrow> log_world result" where
  "FileLogAppender_log a lv e w =
     bind_r (deref_appender w a) (\<lambda>p.
       if lv \<ge> ap_level p then
         (case ap_sink p of
            Stdout_Sink \<Rightarrow> Inl (Undefined ''not a FileLogAppender'')
          | File_Sink name f t0 \<Rightarrow>
              (let now = lw_now w;
                   f1 = (if now \<noteq> t0 then FileLogAppender_reopen_stream (lw_can_open w name) f else f)
               in bind_r (deref_formatter (ap_formatter p)) (\<lambda>fm.
                    (case file_write name (LogFormatter_format (world_env w) fm lv e) f1 w of
                       (f2, w2) \<Rightarrow> Inr (put_appender a (p\<lparr>ap_sink := File_Sink name f2 now\<rparr>) w2)))))
       else Inr w)"

text \<open>The virtual call \<open>appender->log(level, event)\<close>.\<close>

definition LogAppender_log :: "level \<Rightarrow> log_event \<Rightarrow> nat \<Rightarrow> log_world \<Rightarrow> log_world result" where
  "LogAppender_log lv e a w =
     bind_r (deref_appender w a) (\<lambda>p.
       case ap_sink p of
         Stdout_Sink \<Rightarrow> StdoutLogAppender_log p lv e w
       | File_Sink name f t0 \<Rightarrow> FileLogAppender_log a lv e w)"

section \<open>Loggers\<close>

definition default_pattern :: string where
  "default_pattern = ''%d{%Y-%m-%d %H:%M:%S}%T%t%T%N%T%F%T[%p]%T[%c]%T<%f:%l>%T%m%n''"

definition Logger_ctor :: "string \<Rightarrow> log_world \<Rightarrow> nat \<times> log_world" where
  "Logger_ctor name w =
     (lw_next_logger w,
      put_logger (lw_next_logger w)
        \<lparr>lg_name = name, lg_level = DEBUG, lg_appenders = [],
         lg_formatter = Some (LogFormatter_ctor default_pattern), lg_root = None\<rparr>
        (w\<lparr>lw_next_logger := Suc (lw_next_logger w)\<rparr>))"

text \<open>The fuel bounds the chain of \<open>m_root\<close> pointers followed.\<close>

fun Logger_log :: "nat \<Rightarrow> nat \<Rightarrow> level \<Rightarrow> log_event \<Rightarrow> log_world \<Rightarrow> log_world result" where
  "Logger_log 0 a lv e w = Inl No_Return"
| "Logger_log (Suc k) a lv e w =
     bind_r (deref_logger w a) (\<lambda>l.
       if lv \<ge> lg_level l then
         (if lg_appenders l \<noteq> [] then fold_r (LogAppender_log lv e) (lg_appenders l) w
          else (case lg_root l of
                  Some r \<Rightarrow> Logger_log k r lv e w
                | None \<Rightarrow> Inr w))
       else Inr w)"

definition Logger_debug :: "nat \<Rightarrow> nat \<Rightarrow> log_event \<Rightarrow> log_world \<Rightarrow> log_world result" where
  "Logger_debug k a = Logger_log k a DEBUG"

definition Logger_info :: "nat \<Rightarrow> nat \<Rightarrow> log_event \<Rightarrow> log_world \<Rightarrow> log_world result" where
  "Logger_info k a = Logger_log k a INFO"

definition Logger_warn :: "nat \<Rightarrow> nat \<Rightarrow> log_event \<Rightarrow> log_world \<Rightarrow> log_world result" where
  "Logger_warn k a = Logger_log k a WARN"

definition Logger_error :: "nat \<Rightarrow> nat \<Rightarrow> log_event \<Rightarrow> log_world \<Rightarrow> log_world result" where
  "Logger_error k a = Logger_log k a ERROR"

definition Logger_fatal :: "nat \<Rightarrow> nat \<Rightarrow> log_event \<Rightarrow> log_world \<Rightarrow> log_world result" where
  "Logger_fatal k a = Logger_log k a FATAL"

definition Logger_addAppender :: "nat \<Rightarrow> nat \<Rightarrow> log_world \<Rightarrow> log_world result" where
  "Logger_addAppender a p w =
     bind_r (deref_logger w a) (\<lambda>l.
       bind_r (LogAppender_getFormatter p w) (\<lambda>fm.
         bind_r (deref_appender w p) (\<lambda>ap.
           let w1 = (if fm = None then put_appender p (ap\<lparr>ap_formatter := lg_formatter l\<rparr>) w else w)
           in Inr (put_logger a (l\<lparr>lg_appenders := lg_appenders l @ [p]\<rparr>) w1))))"

definition Logger_delAppender :: "nat \<Rightarrow> nat \<Rightarrow> log_world \<Rightarrow> log_world result" where
  "Logger_delAppender a p w =
     bind_r (deref_logger w a) (\<lambda>l. Inr (put_logger a (l\<lparr>lg_appenders := remove1 p (lg_appenders l)\<rparr>) w))"

definition Logger_clearAppenders :: "nat \<Rightarrow> log_world \<Rightarrow> log_world result" where
  "Logger_clearAppenders a w =
     bind_r (deref_logger w a) (\<lambda>l. Inr (put_logger a (l\<lparr>lg_appenders := []\<rparr>) w))"

definition Logger_setLevel :: "nat \<Rightarrow> level \<Rightarrow> log_world \<Rightarrow> log_world result" where
  "Logger_setLevel a lv w =
     bind_r (deref_logger w a) (\<lambda>l. Inr (put_logger a (l\<lparr>lg_level := lv\<rparr>) w))"

text \<open>The loop of \<open>Logger::setFormatter\<close> over the appenders.\<close>

definition inherit_formatter :: "log_formatter option \<Rightarrow> nat \<Rightarrow> log_world \<Rightarrow> log_world result" where
  "inherit_formatter fm p w =
     bind_r (deref_appender w p) (\<lambda>ap.
       if \<not> ap_has_formatter ap then Inr (put_appender p (ap\<lparr>ap_formatter := fm\<rparr>) w) else Inr w)"

definition Logger_setFormatter :: "nat \<Rightarrow> log_formatter option \<Rightarrow> log_world \<Rightarrow> log_world result" where
  "Logger_setFormatter a fm w =
     bind_r (deref_logger w a) (\<lambda>l.
       fold_r (inherit_formatter fm) (lg_appenders l) (put_logger a (l\<lparr>lg_formatter := fm\<rparr>) w))"

definition Logger_setFormatter_pattern :: "nat \<Rightarrow> string \<Rightarrow> log_world \<Rightarrow> log_world result" where
  "Logger_setFormatter_pattern a pattern w =
     bind_r (deref_logger w a) (\<lambda>l.
       let fm = LogFormatter_ctor pattern;
           w1 = write_cout (LogFormatter_cout pattern) w
       in if fm_error fm
          then Inr (write_cout (''Logger setFormatter name='' @ lg_name l @ '' value='' @ pattern @
                      '' invalid foramtter'' @ [CHR 0x0A]) w1)
          else Logger_setFormatter a (Some fm) w1)"

section \<open>The manager\<close>

definition LoggerManager_ctor :: "log_world \<Rightarrow> log_world result" where
  "LoggerManager_ctor w =
     (case Logger_ctor ''root'' w of
        (r, w1) \<Rightarrow>
          (case StdoutLogAppender_ctor w1 of
             (p, w2) \<Rightarrow>
               bind_r (Logger_addAppender r p w2) (\<lambda>w3.
                 bind_r (deref_logger w3 r) (\<lambda>l.
                   Inr (w3\<lparr>lw_root := r, lw_loggers_map := smap_put (lg_name l) r (lw_loggers_map w3)\<rparr>)))))"

definition LoggerManager_getLogger :: "string \<Rightarrow> log_world \<Rightarrow> nat \<times> log_world" where
  "LoggerManager_getLogger name w =
     (case smap_find name (lw_loggers_map w) of
        Some a \<Rightarrow> (a, w)
      | None \<Rightarrow>
          (case Logger_ctor name w of
             (a, w1) \<Rightarrow>
               (a, (case lw_loggers w1 a of
                      Some l \<Rightarrow> put_logger a (l\<lparr>lg_root := Some (lw_root w)\<rparr>) w1
                    | None \<Rightarrow> w1)\<lparr>lw_loggers_map := smap_put name a (lw_loggers_map w)\<rparr>)))"

section \<open>The logging macros\<close>

text \<open>
  \<open>SYLAR_LOG_LEVEL(logger, level) << content\<close> at a place of the program: the guard, the event, the
  text streamed to it, and the destructor of \<open>LogEventWrap\<close>, which logs the event at its own level.
\<close>

record log_site =
  site_file :: string
  site_line :: "32 word"
  site_threadId :: "32 word"
  site_threadName :: string
  site_fiberId :: "32 word"

definition site_event :: "log_site \<Rightarrow> nat \<Rightarrow> level \<Rightarrow> log_world \<Rightarrow> log_event" where
  "site_event st a lv w =
     LogEvent_ctor (site_file st) (site_line st) 0 (site_threadId st) (site_threadName st)
       (site_fiberId st) (lw_now w) a lv"

definition LogEventWrap_dtor :: "nat \<Rightarrow> log_event \<Rightarrow> log_world \<Rightarrow> log_world result" where
  "LogEventWrap_dtor k e w = Logger_log k (ev_logger e) (ev_level e) e w"

definition SYLAR_LOG_LEVEL ::
  "nat \<Rightarrow> log_site \<Rightarrow> nat \<Rightarrow> level \<Rightarrow> string \<Rightarrow> log_world \<Rightarrow> log_world result" where
  "SYLAR_LOG_LEVEL k st a lv content w =
     bind_r (deref_logger w a) (\<lambda>l.
       if lg_level l \<le> lv
       then LogEventWrap_dtor k ((site_event st a lv w)\<lparr>ev_ss := content\<rparr>) w
       else Inr w)"

definition SYLAR_LOG_FMT_LEVEL ::
  "nat \<Rightarrow> log_site \<Rightarrow> nat \<Rightarrow> level \<Rightarrow> string option \<Rightarrow> log_world \<Rightarrow> log_world result" where
  "SYLAR_LOG_FMT_LEVEL k st a lv buf w =
     bind_r (deref_logger w a) (\<lambda>l.
       if lg_level l \<le> lv
       then LogEventWrap_dtor k (LogEvent_format buf (site_event st a lv w)) w
       else Inr w)"

end
