(* ===== verification/Log_Dispatch.thy ===== *)
theory Log_Dispatch
  imports Log_Core
begin

text \<open>
  What logging does and what it leaves alone: the frame of a logging call, the text that reaches
  \<open>std::cout\<close> and the files, the well-formedness invariant of the store of loggers and
  appenders, and its preservation by every operation.
\<close>

named_theorems log_simps
lemmas [log_simps] = deref_logger_def deref_appender_def deref_formatter_def put_logger_def
  put_appender_def write_cout_def

section \<open>The frame of a logging call\<close>

text \<open>What no logging call changes of an appender: everything but the stream and \<open>m_last_time\<close>.\<close>

fun sink_file :: "sink \<Rightarrow> string option" where
  "sink_file Stdout_Sink = None"
| "sink_file (File_Sink name f t) = Some name"

definition ap_static :: "appender \<Rightarrow> level \<times> bool \<times> log_formatter option \<times> string option" where
  "ap_static p = (ap_level p, ap_has_formatter p, ap_formatter p, sink_file (ap_sink p))"

definition log_frame :: "log_world \<Rightarrow> log_world \<Rightarrow> bool" where
  "log_frame w w' \<longleftrightarrow>
     lw_loggers w' = lw_loggers w \<and> lw_next_logger w' = lw_next_logger w \<and>
     lw_next_appender w' = lw_next_appender w \<and> lw_loggers_map w' = lw_loggers_map w \<and>
     lw_root w' = lw_root w \<and> lw_can_open w' = lw_can_open w \<and> lw_can_write w' = lw_can_write w \<and>
     lw_now w' = lw_now w \<and> lw_strftime w' = lw_strftime w \<and>
     (\<forall>a. map_option ap_static (lw_appenders w' a) = map_option ap_static (lw_appenders w a))"

lemma log_frame_refl [simp]: "log_frame w w"
  by (simp add: log_frame_def)

lemma log_frame_trans: "log_frame w w' \<Longrightarrow> log_frame w' w'' \<Longrightarrow> log_frame w w''"
  by (simp add: log_frame_def)

lemma log_frame_env: "log_frame w w' \<Longrightarrow> world_env w' = world_env w"
  by (simp add: log_frame_def world_env_def)

lemma log_frame_appender:
  assumes "log_frame w w'" and "lw_appenders w a = Some p"
  obtains p' where "lw_appenders w' a = Some p'" "ap_level p' = ap_level p"
    "ap_has_formatter p' = ap_has_formatter p" "ap_formatter p' = ap_formatter p"
    "sink_file (ap_sink p') = sink_file (ap_sink p)"
proof -
  have "map_option ap_static (lw_appenders w' a) = Some (ap_static p)"
    using assms by (simp add: log_frame_def)
  then show ?thesis using that by (auto simp: ap_static_def)
qed

lemma sink_file_None [simp]: "sink_file s = None \<longleftrightarrow> s = Stdout_Sink"
  by (cases s) auto

lemma FileLogAppender_log_frame:
  assumes "FileLogAppender_log a lv e w = Inr w'"
  shows "log_frame w w'"
  using assms
  by (auto simp: FileLogAppender_log_def log_simps file_write_def log_frame_def ap_static_def Let_def
           split: option.splits if_splits sink.splits prod.splits)

lemma LogAppender_log_frame: "LogAppender_log lv e a w = Inr w' \<Longrightarrow> log_frame w w'"
  by (auto simp: LogAppender_log_def StdoutLogAppender_log_def log_simps log_frame_def ap_static_def
           dest: FileLogAppender_log_frame split: option.splits if_splits sink.splits)

lemma appenders_log_frame:
  "fold_r (LogAppender_log lv e) ps w = Inr w' \<Longrightarrow> log_frame w w'"
  by (rule fold_r_invariant [where P = "log_frame w"])
     (auto intro: log_frame_trans LogAppender_log_frame)

lemma Logger_log_frame: "Logger_log k a lv e w = Inr w' \<Longrightarrow> log_frame w w'"
  by (induction k a lv e w rule: Logger_log.induct)
     (auto simp: log_simps dest: appenders_log_frame split: option.splits if_splits)

section \<open>The text that is written\<close>

text \<open>What one appender contributes to \<open>std::cout\<close> and to a file.\<close>

definition cout_of :: "log_world \<Rightarrow> level \<Rightarrow> log_event \<Rightarrow> nat \<Rightarrow> string" where
  "cout_of w lv e a =
     (case lw_appenders w a of
        Some p \<Rightarrow>
          (if ap_sink p = Stdout_Sink \<and> ap_level p \<le> lv
           then (case ap_formatter p of Some fm \<Rightarrow> LogFormatter_format (world_env w) fm lv e | None \<Rightarrow> [])
           else [])
      | None \<Rightarrow> [])"

definition file_of :: "log_world \<Rightarrow> level \<Rightarrow> log_event \<Rightarrow> string \<Rightarrow> nat \<Rightarrow> string" where
  "file_of w lv e name a =
     (case lw_appenders w a of
        Some p \<Rightarrow>
          (if sink_file (ap_sink p) = Some name \<and> ap_level p \<le> lv
           then (case ap_formatter p of Some fm \<Rightarrow> LogFormatter_format (world_env w) fm lv e | None \<Rightarrow> [])
           else [])
      | None \<Rightarrow> [])"

lemma log_frame_ap_static:
  "log_frame w w' \<Longrightarrow> map_option ap_static (lw_appenders w' a) = map_option ap_static (lw_appenders w a)"
  by (simp add: log_frame_def)

lemma cout_of_frame:
  assumes "log_frame w w'"
  shows "cout_of w' lv e a = cout_of w lv e a"
  using log_frame_ap_static [OF assms, of a] log_frame_env [OF assms]
  by (auto simp: cout_of_def ap_static_def simp flip: sink_file_None split: option.splits)

lemma file_of_frame:
  assumes "log_frame w w'"
  shows "file_of w' lv e name a = file_of w lv e name a"
  using log_frame_ap_static [OF assms, of a] log_frame_env [OF assms]
  by (auto simp: file_of_def ap_static_def split: option.splits)

lemma LogAppender_log_cout:
  assumes "LogAppender_log lv e a w = Inr w'"
  shows "lw_cout w' = lw_cout w @ cout_of w lv e a"
  using assms
  by (auto simp: LogAppender_log_def StdoutLogAppender_log_def FileLogAppender_log_def log_simps
             file_write_def cout_of_def Let_def
           split: option.splits if_splits sink.splits prod.splits)

lemma appenders_log_cout:
  "fold_r (LogAppender_log lv e) ps w = Inr w' \<Longrightarrow>
   lw_cout w' = lw_cout w @ concat (map (cout_of w lv e) ps)"
proof (induction ps arbitrary: w)
  case (Cons p ps)
  then obtain v where v: "LogAppender_log lv e p w = Inr v" "fold_r (LogAppender_log lv e) ps v = Inr w'"
    by auto
  have "cout_of v lv e = cout_of w lv e"
    using cout_of_frame [OF LogAppender_log_frame [OF v(1)]] by (simp add: fun_eq_iff)
  then show ?case using Cons.IH [OF v(2)] LogAppender_log_cout [OF v(1)] by simp
qed simp

text \<open>
  A file appender that can write: its file can be opened and written, the stream is not both open
  and failed, and it is open and good when the clock has not moved since the last reopening.
\<close>

definition stream_ready :: "log_world \<Rightarrow> appender \<Rightarrow> bool" where
  "stream_ready w p =
     (case ap_sink p of
        Stdout_Sink \<Rightarrow> True
      | File_Sink name f t \<Rightarrow>
          lw_can_open w name \<and> lw_can_write w name \<and> \<not> (fs_open f \<and> fs_fail f) \<and>
          (t = lw_now w \<longrightarrow> fs_open f \<and> \<not> fs_fail f))"

lemma stream_ready_frame [simp]:
  "stream_ready (w\<lparr>lw_cout := c\<rparr>) p = stream_ready w p"
  "stream_ready (w\<lparr>lw_files := g\<rparr>) p = stream_ready w p"
  "stream_ready (w\<lparr>lw_appenders := h\<rparr>) p = stream_ready w p"
  by (auto simp: stream_ready_def split: sink.split)

definition streams_ready :: "log_world \<Rightarrow> bool" where
  "streams_ready w \<longleftrightarrow> (\<forall>a p. lw_appenders w a = Some p \<longrightarrow> stream_ready w p)"

lemma streams_ready_put:
  "streams_ready w \<Longrightarrow> stream_ready w p \<Longrightarrow> streams_ready (put_appender a p w)"
  by (auto simp: streams_ready_def put_appender_def)

lemma streams_ready_files [simp]: "streams_ready (w\<lparr>lw_files := g\<rparr>) = streams_ready w"
  by (simp add: streams_ready_def)

lemma reopen_good:
  "\<not> (fs_open f \<and> fs_fail f) \<Longrightarrow> FileLogAppender_reopen_stream True f = \<lparr>fs_open = True, fs_fail = False\<rparr>"
  by (auto simp: FileLogAppender_reopen_stream_def fs_close_def fs_do_open_def)

lemma FileLogAppender_log_ready:
  assumes "lw_appenders w a = Some p" and "ap_sink p = File_Sink name f t" and "stream_ready w p"
    and "ap_formatter p = Some fm" and "ap_level p \<le> lv"
  shows "FileLogAppender_log a lv e w =
           Inr (put_appender a (p\<lparr>ap_sink := File_Sink name \<lparr>fs_open = True, fs_fail = False\<rparr> (lw_now w)\<rparr>)
             (w\<lparr>lw_files := (lw_files w)(name := lw_files w name @ LogFormatter_format (world_env w) fm lv e)\<rparr>))"
proof -
  have "(if lw_now w \<noteq> t then FileLogAppender_reopen_stream (lw_can_open w name) f else f) =
          \<lparr>fs_open = True, fs_fail = False\<rparr>"
    using assms(2,3) by (auto simp: stream_ready_def reopen_good intro!: file_stream.equality)
  then show ?thesis
    using assms by (simp add: FileLogAppender_log_def log_simps file_write_def stream_ready_def)
qed

text \<open>The three ways a call of an appender can return.\<close>

lemma LogAppender_log_cases:
  assumes "LogAppender_log lv e a w = Inr w'"
  obtains (below) p where "lw_appenders w a = Some p" "\<not> ap_level p \<le> lv" "w' = w"
  | (to_cout) p fm where "lw_appenders w a = Some p" "ap_level p \<le> lv" "ap_sink p = Stdout_Sink"
      "ap_formatter p = Some fm" "w' = write_cout (LogFormatter_format (world_env w) fm lv e) w"
  | (to_file) p fm name f t where "lw_appenders w a = Some p" "ap_level p \<le> lv" "ap_sink p = File_Sink name f t"
      "ap_formatter p = Some fm" "FileLogAppender_log a lv e w = Inr w'"
  using assms
  by (auto simp: LogAppender_log_def StdoutLogAppender_log_def FileLogAppender_log_def deref_appender_def
             deref_formatter_def Let_def
           split: option.splits if_splits sink.splits)

lemma LogAppender_log_file:
  assumes "LogAppender_log lv e a w = Inr w'" and "streams_ready w"
  shows "lw_files w' = (\<lambda>name. lw_files w name @ file_of w lv e name a) \<and> streams_ready w'"
  using assms(1)
proof (cases rule: LogAppender_log_cases)
  case (below p)
  then show ?thesis using assms(2) by (simp add: file_of_def fun_eq_iff)
next
  case (to_cout p fm)
  then show ?thesis
    using assms(2) by (simp add: file_of_def write_cout_def streams_ready_def)
next
  case (to_file p fm name f t)
  have ready: "stream_ready w p" using assms(2) to_file(1) by (simp add: streams_ready_def)
  note w' = FileLogAppender_log_ready [OF to_file(1,3) ready to_file(4,2), of e]
  have "stream_ready w (p\<lparr>ap_sink := File_Sink name \<lparr>fs_open = True, fs_fail = False\<rparr> (lw_now w)\<rparr>)"
    using ready to_file(3) by (simp add: stream_ready_def)
  then have "streams_ready w'"
    using to_file(5) w' assms(2) by (auto intro!: streams_ready_put)
  then show ?thesis
    using to_file w' by (auto simp: fun_eq_iff file_of_def put_appender_def)
qed

lemma appenders_log_file:
  "fold_r (LogAppender_log lv e) ps w = Inr w' \<Longrightarrow> streams_ready w \<Longrightarrow>
   lw_files w' = (\<lambda>name. lw_files w name @ concat (map (file_of w lv e name) ps)) \<and> streams_ready w'"
proof (induction ps arbitrary: w)
  case (Cons p ps)
  then obtain v where v: "LogAppender_log lv e p w = Inr v" "fold_r (LogAppender_log lv e) ps v = Inr w'"
    by auto
  have "file_of v lv e = file_of w lv e"
    using file_of_frame [OF LogAppender_log_frame [OF v(1)]] by (simp add: fun_eq_iff)
  then show ?case
    using Cons.IH [OF v(2)] LogAppender_log_file [OF v(1) Cons.prems(2)] by simp
qed simp

text \<open>A stream that is open and failed stays so, and nothing more is written through it.\<close>

lemma reopen_stuck:
  "fs_open f \<Longrightarrow> fs_fail f \<Longrightarrow> FileLogAppender_reopen_stream can f = f"
  by (simp add: FileLogAppender_reopen_stream_def fs_do_open_def)

lemma FileLogAppender_log_stuck:
  assumes "lw_appenders w a = Some p" and "ap_sink p = File_Sink name f t"
    and "fs_open f" and "fs_fail f" and "LogAppender_log lv e a w = Inr w'"
  shows "lw_files w' = lw_files w \<and> (\<exists>t'. lw_appenders w' a = Some (p\<lparr>ap_sink := File_Sink name f t'\<rparr>))"
  using assms(5)
proof (cases rule: LogAppender_log_cases)
  case (below q)
  then have "lw_appenders w' a = Some (p\<lparr>ap_sink := File_Sink name f t\<rparr>)"
    using assms(1,2) by (simp add: appender.equality)
  with below show ?thesis by blast
next
  case (to_cout q fm)
  then show ?thesis using assms by simp
next
  case (to_file q fm name' f' t')
  have q: "q = p" "name' = name" "f' = f" "t' = t" using to_file(1,3) assms(1,2) by auto
  have f: "(if b then FileLogAppender_reopen_stream c f else f) = f" for b c
    using assms(3,4) by (simp add: reopen_stuck)
  show ?thesis
    using to_file assms q f by (auto simp: FileLogAppender_log_def log_simps file_write_def Let_def)
qed

lemma failed_write_breaks_stream:
  assumes "lw_appenders w a = Some p" and "ap_sink p = File_Sink name \<lparr>fs_open = True, fs_fail = False\<rparr> (lw_now w)"
    and "ap_formatter p = Some fm" and "ap_level p \<le> lv" and "\<not> lw_can_write w name"
  shows "LogAppender_log lv e a w =
           Inr (put_appender a (p\<lparr>ap_sink := File_Sink name \<lparr>fs_open = True, fs_fail = True\<rparr> (lw_now w)\<rparr>) w)"
  using assms by (simp add: LogAppender_log_def FileLogAppender_log_def log_simps file_write_def)

text \<open>
  The uses of a file appender that touch its stream: the virtual call \<open>log\<close>, and \<open>reopen\<close>. \<open>m_filestream\<close> is a
  private member, so everything else leaves it alone: \<open>later_world a w w'\<close> says that \<open>w'\<close> comes from \<open>w\<close> by
  uses of appender \<open>a\<close> and by any changes of the rest of the world, the clock and the file system included.
\<close>

datatype appender_use = Use_log level log_event | Use_reopen

fun use_appender :: "nat \<Rightarrow> appender_use \<Rightarrow> log_world \<Rightarrow> log_world result" where
  "use_appender a (Use_log lv e) w = LogAppender_log lv e a w"
| "use_appender a Use_reopen w = bind_r (FileLogAppender_reopen a w) (\<lambda>(ok, w'). Inr w')"

inductive later_world :: "nat \<Rightarrow> log_world \<Rightarrow> log_world \<Rightarrow> bool" for a where
  later_now: "later_world a w w"
| later_use: "later_world a w v \<Longrightarrow> use_appender a u v = Inr v' \<Longrightarrow> later_world a w v'"
| later_other: "later_world a w v \<Longrightarrow> map_option ap_sink (lw_appenders v' a) = map_option ap_sink (lw_appenders v a) \<Longrightarrow>
     later_world a w v'"

definition stuck_file :: "nat \<Rightarrow> log_world \<Rightarrow> bool" where
  "stuck_file a w \<longleftrightarrow>
     (\<exists>name f t. map_option ap_sink (lw_appenders w a) = Some (File_Sink name f t) \<and> fs_open f \<and> fs_fail f)"

lemma use_appender_stuck:
  assumes "stuck_file a w" and "use_appender a u w = Inr w'"
  shows "lw_files w' = lw_files w \<and> stuck_file a w'"
proof -
  obtain p name f t where p: "lw_appenders w a = Some p" "ap_sink p = File_Sink name f t" "fs_open f" "fs_fail f"
    using assms(1) by (auto simp: stuck_file_def)
  show ?thesis
  proof (cases u)
    case (Use_log lv e)
    then show ?thesis
      using FileLogAppender_log_stuck [OF p, of lv e w'] assms(2) p(3,4) by (fastforce simp: stuck_file_def)
  next
    case Use_reopen
    then show ?thesis
      using assms(2) p
      by (auto simp: FileLogAppender_reopen_def log_simps reopen_stuck stuck_file_def)
  qed
qed

lemma later_world_stuck: "later_world a w w' \<Longrightarrow> stuck_file a w \<Longrightarrow> stuck_file a w'"
  by (induction rule: later_world.induct) (use use_appender_stuck in \<open>auto simp: stuck_file_def\<close>)

section \<open>Properties\<close>

text \<open>C12: One failed write silences a file appender for good. When a write to the log file fails (a
  full disk, say), the stream stays open and failed; \<open>reopen\<close> then skips \<open>close\<close>, because the
  stream is bad, and \<open>open\<close> fails because a file is still open. So whatever happens later (the appender logs
  and is reopened any number of times, the clock, the file system, other appenders, levels and formatters
  change), no later use of the appender writes anything to any file.\<close>

theorem failed_write_silences_appender:
  assumes "lw_appenders w a = Some p" and "ap_sink p = File_Sink name \<lparr>fs_open = True, fs_fail = False\<rparr> (lw_now w)"
    and "ap_formatter p = Some fm" and "ap_level p \<le> lv" and "\<not> lw_can_write w name"
  shows "\<exists>w1. LogAppender_log lv e a w = Inr w1 \<and> lw_files w1 = lw_files w \<and>
           (\<forall>w2 u w3. later_world a w1 w2 \<longrightarrow> use_appender a u w2 = Inr w3 \<longrightarrow> lw_files w3 = lw_files w2)"
proof -
  let ?w1 = "put_appender a (p\<lparr>ap_sink := File_Sink name \<lparr>fs_open = True, fs_fail = True\<rparr> (lw_now w)\<rparr>) w"
  have "stuck_file a ?w1" by (auto simp: stuck_file_def put_appender_def)
  then have "lw_files w3 = lw_files w2" if "later_world a ?w1 w2" "use_appender a u w2 = Inr w3" for w2 u w3
    using later_world_stuck [OF that(1)] use_appender_stuck [OF _ that(2)] by blast
  then show ?thesis
    using failed_write_breaks_stream [OF assms, of e] by (intro exI [of _ ?w1]) (simp add: put_appender_def)
qed

text \<open>A full disk, used by the witness.\<close>

definition full_disk_appender :: appender where
  "full_disk_appender =
     \<lparr>ap_level = DEBUG, ap_has_formatter = False, ap_formatter = Some (LogFormatter_ctor ''%m''),
      ap_sink = File_Sink ''a.txt'' \<lparr>fs_open = True, fs_fail = False\<rparr> 5\<rparr>"

definition full_disk_world :: log_world where
  "full_disk_world =
     \<lparr>lw_appenders = [0 \<mapsto> full_disk_appender],
      lw_next_appender = 1, lw_loggers = Map.empty, lw_next_logger = 0,
      lw_loggers_map = [], lw_root = 0, lw_cout = [], lw_files = (\<lambda>name. []),
      lw_can_open = (\<lambda>name. True), lw_can_write = (\<lambda>name. False), lw_now = 5,
      lw_strftime = (\<lambda>f t. [])\<rparr>"

theorem failed_write_silences_appender_witness:
  "\<exists>w1 w2 w3. LogAppender_log INFO (LogEvent_ctor ''a.cpp'' 1 0 1 ''main'' 0 5 0 INFO) 0 full_disk_world = Inr w1 \<and>
     use_appender 0 Use_reopen (w1\<lparr>lw_now := 6, lw_can_write := (\<lambda>name. True)\<rparr>) = Inr w2 \<and>
     use_appender 0 (Use_log FATAL (LogEvent_ctor ''a.cpp'' 2 0 1 ''main'' 0 6 0 FATAL)) w2 = Inr w3 \<and>
     lw_files w3 = (\<lambda>name. [])"
proof -
  let ?e = "LogEvent_ctor ''a.cpp'' 1 0 1 ''main'' 0 5 0 INFO"
  let ?later = "\<lambda>w. w\<lparr>lw_now := 6 :: 64 word, lw_can_write := (\<lambda>name. True)\<rparr>"
  have ap: "lw_appenders full_disk_world 0 = Some full_disk_appender"
    "ap_sink full_disk_appender = File_Sink ''a.txt'' \<lparr>fs_open = True, fs_fail = False\<rparr> (lw_now full_disk_world)"
    "ap_formatter full_disk_appender = Some (LogFormatter_ctor ''%m'')" "ap_level full_disk_appender \<le> INFO"
    "\<not> lw_can_write full_disk_world ''a.txt''"
    by (simp_all add: full_disk_world_def full_disk_appender_def less_eq_level_def)
  obtain w1 where w1: "LogAppender_log INFO ?e 0 full_disk_world = Inr w1" "lw_files w1 = lw_files full_disk_world"
    and quiet: "\<forall>w2 u w3. later_world 0 w1 w2 \<longrightarrow> use_appender 0 u w2 = Inr w3 \<longrightarrow> lw_files w3 = lw_files w2"
    using failed_write_silences_appender [OF ap, of ?e] by blast
  have later: "later_world 0 w1 (?later w1)" by (rule later_other [OF later_now]) simp
  have p1: "lw_appenders w1 0 = Some (full_disk_appender\<lparr>ap_sink := File_Sink ''a.txt'' \<lparr>fs_open = True, fs_fail = True\<rparr> 5\<rparr>)"
    using w1(1) failed_write_breaks_stream [OF ap, of ?e] by (simp add: put_appender_def full_disk_world_def)
  then obtain w2 where w2: "use_appender 0 Use_reopen (?later w1) = Inr w2"
    "lw_appenders w2 0 = Some (full_disk_appender\<lparr>ap_sink := File_Sink ''a.txt'' \<lparr>fs_open = True, fs_fail = True\<rparr> 5\<rparr>)"
    by (simp add: FileLogAppender_reopen_def log_simps reopen_stuck)
  obtain w3 where w3: "use_appender 0 (Use_log FATAL (LogEvent_ctor ''a.cpp'' 2 0 1 ''main'' 0 6 0 FATAL)) w2 = Inr w3"
    using w2(2)
    by (cases "lw_now w2 = 5")
       (simp_all add: LogAppender_log_def FileLogAppender_log_def log_simps file_write_def full_disk_appender_def
          less_eq_level_def reopen_stuck Let_def)
  have "lw_files w3 = lw_files (?later w1)"
    using quiet later later_use [OF later w2(1)] w2(1) w3 by metis
  then have "lw_files w3 = (\<lambda>name. [])" using w1(2) by (simp add: full_disk_world_def)
  with w1(1) w2(1) w3 show ?thesis by blast
qed

end
