(* ===== verification/Log_Invariant.thy ===== *)
theory Log_Invariant
  imports Log_Dispatch
begin

text \<open>
  The invariant of the store of loggers and appenders, its preservation by every operation of
  \<open>Log_Core\<close>, and what follows from it: in a well-formed store a logging call returns, dereferences
  no null pointer, and follows at most one \<open>m_root\<close> pointer.
\<close>

section \<open>The invariant\<close>

text \<open>
  The invariant comes in two strengths. \<open>log_shape\<close> is what every call of the interface keeps; \<open>log_wf\<close> adds that every
  logger and every appender of a logger has a formatter, which \<open>setFormatter(nullptr)\<close> breaks. The flag \<open>strict\<close>
  tells them apart.
\<close>

definition appender_inv :: "bool \<Rightarrow> log_world \<Rightarrow> nat \<Rightarrow> bool" where
  "appender_inv strict w p \<longleftrightarrow> (\<exists>ap. lw_appenders w p = Some ap \<and> (strict \<longrightarrow> ap_formatter ap \<noteq> None))"

definition logger_inv :: "bool \<Rightarrow> log_world \<Rightarrow> nat \<Rightarrow> logger \<Rightarrow> bool" where
  "logger_inv strict w a l \<longleftrightarrow>
     a < lw_next_logger w \<and> (strict \<longrightarrow> lg_formatter l \<noteq> None) \<and> (\<forall>p \<in> set (lg_appenders l). appender_inv strict w p) \<and>
     (if a = lw_root w then lg_root l = None else lg_root l = None \<or> lg_root l = Some (lw_root w))"

definition map_ok :: "log_world \<Rightarrow> bool" where
  "map_ok w \<longleftrightarrow>
     smap_ok (lw_loggers_map w) \<and> smap_find ''root'' (lw_loggers_map w) = Some (lw_root w) \<and>
     (\<forall>n a. smap_find n (lw_loggers_map w) = Some a \<longrightarrow>
        (\<exists>l. lw_loggers w a = Some l \<and> lg_name l = n \<and>
             (a \<noteq> lw_root w \<longrightarrow> lg_root l = Some (lw_root w))))"

definition log_inv :: "bool \<Rightarrow> log_world \<Rightarrow> bool" where
  "log_inv strict w \<longleftrightarrow>
     (\<forall>a l. lw_loggers w a = Some l \<longrightarrow> logger_inv strict w a l) \<and>
     (\<forall>p ap. lw_appenders w p = Some ap \<longrightarrow>
        p < lw_next_appender w \<and> (ap_has_formatter ap \<longrightarrow> ap_formatter ap \<noteq> None)) \<and>
     map_ok w"

abbreviation log_shape :: "log_world \<Rightarrow> bool" where "log_shape \<equiv> log_inv False"
abbreviation log_wf :: "log_world \<Rightarrow> bool" where "log_wf \<equiv> log_inv True"
abbreviation logger_ok :: "log_world \<Rightarrow> nat \<Rightarrow> logger \<Rightarrow> bool" where "logger_ok \<equiv> logger_inv True"
abbreviation appender_ok :: "log_world \<Rightarrow> nat \<Rightarrow> bool" where "appender_ok \<equiv> appender_inv True"

lemma log_wf_shape: "log_wf w \<Longrightarrow> log_shape w"
  by (fastforce simp: log_inv_def logger_inv_def appender_inv_def)

lemma log_wfD_logger: "log_inv strict w \<Longrightarrow> lw_loggers w a = Some l \<Longrightarrow> logger_inv strict w a l"
  by (simp add: log_inv_def)

lemma log_wfD_root: "log_inv strict w \<Longrightarrow> \<exists>l. lw_loggers w (lw_root w) = Some l \<and> lg_root l = None \<and> lg_name l = ''root''"
  unfolding log_inv_def map_ok_def logger_inv_def by metis

lemma log_wfD_live: "log_inv strict w \<Longrightarrow> lw_loggers w a = Some l \<Longrightarrow> p \<in> set (lg_appenders l) \<Longrightarrow> appender_inv strict w p"
  by (auto simp: log_inv_def logger_inv_def)

lemma log_wfD_flag:
  "log_inv strict w \<Longrightarrow> lw_appenders w p = Some ap \<Longrightarrow> ap_has_formatter ap \<Longrightarrow> ap_formatter ap \<noteq> None"
  by (simp add: log_inv_def)

lemma log_wfD_alloc: "log_inv strict w \<Longrightarrow> lw_appenders w p = Some ap \<Longrightarrow> p < lw_next_appender w"
  by (simp add: log_inv_def)

lemma log_wfD_map:
  "log_inv strict w \<Longrightarrow> smap_find n (lw_loggers_map w) = Some a \<Longrightarrow> \<exists>l. lw_loggers w a = Some l \<and> lg_name l = n"
  unfolding log_inv_def map_ok_def by blast

section \<open>Updates that keep it\<close>

lemma put_logger_wf:
  assumes wf: "log_inv strict w" and l: "lw_loggers w a = Some l" and ok: "logger_inv strict w a l'"
    and "lg_name l' = lg_name l" and "lg_root l' = lg_root l"
  shows "log_inv strict (put_logger a l' w)"
proof -
  have "logger_inv strict (put_logger a l' w) b k" if "logger_inv strict w b k" for b k
    using that by (auto simp: logger_inv_def appender_inv_def put_logger_def)
  moreover have "map_ok (put_logger a l' w)"
    using wf l assms(4,5) by (fastforce simp: log_inv_def map_ok_def put_logger_def)
  ultimately show ?thesis
    using wf ok by (auto simp: log_inv_def put_logger_def)
qed

lemma put_appender_ok:
  assumes "lw_appenders w p = Some ap" and "strict \<Longrightarrow> ap_formatter ap \<noteq> None \<Longrightarrow> ap_formatter ap' \<noteq> None"
    and "appender_inv strict w q"
  shows "appender_inv strict (put_appender p ap' w) q"
  using assms by (auto simp: appender_inv_def put_appender_def)

lemma put_appender_wf:
  assumes wf: "log_inv strict w" and ap: "lw_appenders w p = Some ap"
    and keep: "strict \<Longrightarrow> ap_formatter ap \<noteq> None \<Longrightarrow> ap_formatter ap' \<noteq> None"
    and flag: "ap_has_formatter ap' \<Longrightarrow> ap_formatter ap' \<noteq> None"
  shows "log_inv strict (put_appender p ap' w)"
proof -
  have "logger_inv strict (put_appender p ap' w) b k" if "logger_inv strict w b k" for b k
    using that put_appender_ok [OF ap, of strict ap'] keep by (auto simp: logger_inv_def put_appender_def)
  moreover have "map_ok (put_appender p ap' w)"
    using wf by (simp add: log_inv_def map_ok_def put_appender_def)
  ultimately show ?thesis
    using wf ap flag by (auto simp: log_inv_def put_appender_def)
qed

lemma log_frame_wf:
  assumes fr: "log_frame w w'" and wf: "log_inv strict w"
  shows "log_inv strict w'"
proof -
  have ok: "appender_inv strict w' q" if "appender_inv strict w q" for q
    using that by (auto simp: appender_inv_def elim: log_frame_appender [OF fr])
  have "logger_inv strict w' b k" if "logger_inv strict w b k" for b k
    using that ok fr by (auto simp: logger_inv_def log_frame_def)
  moreover have "map_ok w'"
    using wf fr by (simp add: log_inv_def map_ok_def log_frame_def)
  moreover have "q < lw_next_appender w' \<and> (ap_has_formatter ap \<longrightarrow> ap_formatter ap \<noteq> None)"
    if ap: "lw_appenders w' q = Some ap" for q ap
  proof -
    obtain ap0 where "lw_appenders w q = Some ap0" "ap_static ap0 = ap_static ap"
      using log_frame_ap_static [OF fr, of q] ap by (cases "lw_appenders w q") auto
    then show ?thesis
      using log_wfD_flag [OF wf, of q ap0] log_wfD_alloc [OF wf, of q ap0] fr
      by (auto simp: log_frame_def ap_static_def)
  qed
  ultimately show ?thesis using wf fr by (simp add: log_inv_def log_frame_def)
qed

lemma write_cout_wf: "log_inv strict w \<Longrightarrow> log_inv strict (write_cout s w)"
  by (rule log_frame_wf [of w]) (simp_all add: log_frame_def write_cout_def)

section \<open>Every operation keeps it\<close>

lemma Logger_setLevel_wf: "log_inv strict w \<Longrightarrow> Logger_setLevel a lv w = Inr w' \<Longrightarrow> log_inv strict w'"
  using log_wfD_logger [of strict w a]
  by (auto simp: Logger_setLevel_def deref_logger_def logger_inv_def split: option.splits
           intro!: put_logger_wf)

lemma Logger_clearAppenders_wf: "log_inv strict w \<Longrightarrow> Logger_clearAppenders a w = Inr w' \<Longrightarrow> log_inv strict w'"
  using log_wfD_logger [of strict w a]
  by (auto simp: Logger_clearAppenders_def deref_logger_def logger_inv_def split: option.splits
           intro!: put_logger_wf)

lemma Logger_delAppender_wf: "log_inv strict w \<Longrightarrow> Logger_delAppender a p w = Inr w' \<Longrightarrow> log_inv strict w'"
  using log_wfD_logger [of strict w a] set_remove1_subset [of p]
  by (fastforce simp: Logger_delAppender_def deref_logger_def logger_inv_def split: option.splits
           intro!: put_logger_wf)

lemma LogAppender_setFormatter_wf:
  "log_inv strict w \<Longrightarrow> (strict \<longrightarrow> fm \<noteq> None) \<Longrightarrow> LogAppender_setFormatter p fm w = Inr w' \<Longrightarrow> log_inv strict w'"
  by (auto simp: LogAppender_setFormatter_def deref_appender_def split: option.splits
           intro!: put_appender_wf)

lemma LogAppender_setLevel_wf: "log_inv strict w \<Longrightarrow> LogAppender_setLevel p lv w = Inr w' \<Longrightarrow> log_inv strict w'"
  by (auto simp: LogAppender_setLevel_def deref_appender_def split: option.splits
           intro!: put_appender_wf dest: log_wfD_flag)

lemma inherit_formatter_wf: "log_inv strict w \<Longrightarrow> (strict \<longrightarrow> fm \<noteq> None) \<Longrightarrow> inherit_formatter fm p w = Inr w' \<Longrightarrow> log_inv strict w'"
  by (auto simp: inherit_formatter_def deref_appender_def split: option.splits if_splits
           intro!: put_appender_wf)

lemma Logger_setFormatter_wf:
  assumes "log_inv strict w" and fm: "strict \<longrightarrow> fm \<noteq> None" and "Logger_setFormatter a fm w = Inr w'"
  shows "log_inv strict w'"
proof -
  obtain l where l: "lw_loggers w a = Some l"
    and w': "fold_r (inherit_formatter fm) (lg_appenders l) (put_logger a (l\<lparr>lg_formatter := fm\<rparr>) w) = Inr w'"
    using assms(3) by (auto simp: Logger_setFormatter_def deref_logger_def split: option.splits)
  have "log_inv strict (put_logger a (l\<lparr>lg_formatter := fm\<rparr>) w)"
    using assms(1) l fm log_wfD_logger [OF assms(1) l] by (intro put_logger_wf) (auto simp: logger_inv_def)
  with w' show ?thesis
    by (rule fold_r_invariant [where P = "log_inv strict"]) (rule inherit_formatter_wf [OF _ fm])
qed

lemma Logger_setFormatter_pattern_wf:
  "log_inv strict w \<Longrightarrow> Logger_setFormatter_pattern a s w = Inr w' \<Longrightarrow> log_inv strict w'"
  by (auto simp: Logger_setFormatter_pattern_def Let_def split: if_splits
           intro!: write_cout_wf intro: Logger_setFormatter_wf [OF write_cout_wf])

lemma Logger_addAppender_wf:
  assumes wf: "log_inv strict w" and "Logger_addAppender a p w = Inr w'"
  shows "log_inv strict w'"
proof -
  obtain l ap where l: "lw_loggers w a = Some l" and ap: "lw_appenders w p = Some ap"
    and w': "w' = put_logger a (l\<lparr>lg_appenders := lg_appenders l @ [p]\<rparr>)
                   (if ap_formatter ap = None then put_appender p (ap\<lparr>ap_formatter := lg_formatter l\<rparr>) w else w)"
    using assms(2)
    by (auto simp: Logger_addAppender_def LogAppender_getFormatter_def deref_logger_def deref_appender_def
             split: option.splits)
  define w1 where
    "w1 = (if ap_formatter ap = None then put_appender p (ap\<lparr>ap_formatter := lg_formatter l\<rparr>) w else w)"
  have fm: "strict \<longrightarrow> lg_formatter l \<noteq> None" using log_wfD_logger [OF wf l] by (simp add: logger_inv_def)
  have wf1: "log_inv strict w1"
    using wf ap fm log_wfD_flag [OF wf ap] by (auto simp: w1_def intro!: put_appender_wf)
  have l1: "lw_loggers w1 a = Some l" using l by (simp add: w1_def put_appender_def)
  have "appender_inv strict w1 p" using ap fm by (auto simp: w1_def appender_inv_def put_appender_def)
  then have "logger_inv strict w1 a (l\<lparr>lg_appenders := lg_appenders l @ [p]\<rparr>)"
    using log_wfD_logger [OF wf1 l1] by (auto simp: logger_inv_def)
  then show ?thesis using wf1 l1 w' by (auto simp: w1_def [symmetric] intro!: put_logger_wf)
qed

lemma new_appender_wf:
  assumes wf: "log_inv strict w" and "new_appender s w = (a, w')"
  shows "log_inv strict w'"
proof -
  have fresh: "lw_appenders w (lw_next_appender w) = None"
    using wf by (cases "lw_appenders w (lw_next_appender w)") (auto simp: log_inv_def)
  have w': "lw_loggers w' = lw_loggers w" "lw_next_logger w' = lw_next_logger w" "lw_root w' = lw_root w"
    "lw_loggers_map w' = lw_loggers_map w" "lw_next_appender w' = Suc (lw_next_appender w)"
    "lw_appenders w' = (lw_appenders w)(lw_next_appender w \<mapsto>
       \<lparr>ap_level = DEBUG, ap_has_formatter = False, ap_formatter = None, ap_sink = s\<rparr>)"
    using assms(2) by (auto simp: new_appender_def put_appender_def)
  have ok: "appender_inv strict w' q" if "appender_inv strict w q" for q
    using that fresh w' by (auto simp: appender_inv_def)
  have "logger_inv strict w' b k" if "lw_loggers w b = Some k" for b k
    using log_wfD_logger [OF wf that] ok w' by (auto simp: logger_inv_def)
  moreover have "map_ok w'" using wf w' by (simp add: log_inv_def map_ok_def)
  moreover have "q < Suc (lw_next_appender w)" if "lw_appenders w q = Some ap" for q ap
    using log_wfD_alloc [OF wf that] by simp
  ultimately show ?thesis
    using wf w' by (auto simp: log_inv_def)
qed

lemma FileLogAppender_reopen_wf:
  "log_inv strict w \<Longrightarrow> FileLogAppender_reopen a w = Inr (ok, w') \<Longrightarrow> log_inv strict w'"
  by (auto simp: FileLogAppender_reopen_def deref_appender_def Let_def
           split: option.splits sink.splits intro!: put_appender_wf dest: log_wfD_flag)

lemma FileLogAppender_ctor_wf:
  "log_inv strict w \<Longrightarrow> FileLogAppender_ctor junk name w = Inr (a, w') \<Longrightarrow> log_inv strict w'"
  by (auto simp: FileLogAppender_ctor_def split: prod.splits
           intro: FileLogAppender_reopen_wf new_appender_wf)

lemma LoggerManager_getLogger_wf:
  assumes wf: "log_inv strict w" and "LoggerManager_getLogger name w = (a, w')"
  shows "log_inv strict w'"
proof (cases "smap_find name (lw_loggers_map w)")
  case (Some b)
  then show ?thesis using assms by (simp add: LoggerManager_getLogger_def)
next
  case None
  have fresh: "lw_loggers w (lw_next_logger w) = None"
    using wf by (cases "lw_loggers w (lw_next_logger w)") (auto simp: log_inv_def logger_inv_def)
  obtain r where root: "lw_loggers w (lw_root w) = Some r" using log_wfD_root [OF wf] by blast
  then have less: "lw_root w < lw_next_logger w" using log_wfD_logger [OF wf root] by (simp add: logger_inv_def)
  define n where "n = \<lparr>lg_name = name, lg_level = DEBUG, lg_appenders = [],
    lg_formatter = Some (LogFormatter_ctor default_pattern), lg_root = Some (lw_root w)\<rparr>"
  have w': "lw_loggers w' = (lw_loggers w)(lw_next_logger w \<mapsto> n)"
    "lw_next_logger w' = Suc (lw_next_logger w)" "lw_root w' = lw_root w"
    "lw_appenders w' = lw_appenders w" "lw_next_appender w' = lw_next_appender w"
    "lw_loggers_map w' = smap_put name (lw_next_logger w) (lw_loggers_map w)"
    using assms(2) None by (auto simp: LoggerManager_getLogger_def Logger_ctor_def put_logger_def n_def)
  have "logger_inv strict w' b k" if "lw_loggers w b = Some k" for b k
    using log_wfD_logger [OF wf that] w' by (auto simp: logger_inv_def appender_inv_def)
  moreover have "logger_inv strict w' (lw_next_logger w) n"
    using w' less by (auto simp: logger_inv_def n_def)
  moreover have "name \<noteq> ''root''"
    using None wf unfolding log_inv_def map_ok_def by (metis option.distinct(1))
  moreover have "smap_find m (lw_loggers_map w) \<noteq> Some (lw_next_logger w)" for m
    using log_wfD_map [OF wf, of m] fresh by fastforce
  ultimately show ?thesis
    using wf w' None root less by (auto simp: log_inv_def map_ok_def n_def)
qed

lemma Logger_ctor_wf:
  assumes wf: "log_inv strict w" and "Logger_ctor name w = (a, w')"
  shows "log_inv strict w'"
proof -
  have fresh: "lw_loggers w (lw_next_logger w) = None"
    using wf by (cases "lw_loggers w (lw_next_logger w)") (auto simp: log_inv_def logger_inv_def)
  obtain r where root: "lw_loggers w (lw_root w) = Some r" using log_wfD_root [OF wf] by blast
  then have less: "lw_root w < lw_next_logger w" using log_wfD_logger [OF wf root] by (simp add: logger_inv_def)
  define n where "n = \<lparr>lg_name = name, lg_level = DEBUG, lg_appenders = [],
    lg_formatter = Some (LogFormatter_ctor default_pattern), lg_root = None\<rparr>"
  have w': "lw_loggers w' = (lw_loggers w)(lw_next_logger w \<mapsto> n)"
    "lw_next_logger w' = Suc (lw_next_logger w)" "lw_root w' = lw_root w"
    "lw_appenders w' = lw_appenders w" "lw_next_appender w' = lw_next_appender w"
    "lw_loggers_map w' = lw_loggers_map w"
    using assms(2) by (auto simp: Logger_ctor_def put_logger_def n_def)
  have "logger_inv strict w' b k" if "lw_loggers w b = Some k" for b k
    using log_wfD_logger [OF wf that] w' by (auto simp: logger_inv_def appender_inv_def)
  moreover have "logger_inv strict w' (lw_next_logger w) n"
    using w' less by (auto simp: logger_inv_def n_def)
  moreover have "map_ok w'"
    using wf w' fresh unfolding log_inv_def map_ok_def by (metis fun_upd_apply option.distinct(1))
  ultimately show ?thesis using wf w' by (auto simp: log_inv_def)
qed

lemma LoggerManager_ctor_wf:
  assumes "LoggerManager_ctor w = Inr w'"
    and "lw_loggers w = Map.empty" and "lw_appenders w = Map.empty" and "lw_loggers_map w = []"
  shows "log_inv strict w'"
  using assms
  by (auto simp: LoggerManager_ctor_def Logger_ctor_def StdoutLogAppender_ctor_def new_appender_def
             Logger_addAppender_def LogAppender_getFormatter_def log_simps log_inv_def map_ok_def
             logger_inv_def appender_inv_def smap_ok_def smap_find_def split: if_splits)

section \<open>Logging returns, and what it writes\<close>

lemma log_frame_appender_ok: "log_frame w w' \<Longrightarrow> appender_ok w q \<Longrightarrow> appender_ok w' q"
  by (auto simp: appender_inv_def elim: log_frame_appender)

lemma LogAppender_log_total:
  assumes "appender_ok w p"
  shows "\<exists>w'. LogAppender_log lv e p w = Inr w'"
proof -
  obtain ap fm where ap: "lw_appenders w p = Some ap" "ap_formatter ap = Some fm"
    using assms by (auto simp: appender_inv_def)
  show ?thesis
  proof (cases "ap_sink ap")
    case Stdout_Sink
    then show ?thesis
      using ap by (simp add: LogAppender_log_def StdoutLogAppender_log_def deref_appender_def deref_formatter_def)
  next
    case (File_Sink name f t)
    then show ?thesis
      using ap by (simp add: LogAppender_log_def FileLogAppender_log_def deref_appender_def
        deref_formatter_def Let_def split_beta)
  qed
qed

lemma appenders_log_total:
  assumes "\<forall>p \<in> set ps. appender_ok w p"
  shows "\<exists>w'. fold_r (LogAppender_log lv e) ps w = Inr w'"
proof -
  have "\<exists>w'. fold_r (LogAppender_log lv e) ps w = Inr w' \<and> log_frame w w'"
  proof (rule fold_r_total [where P = "log_frame w"])
    fix p v assume "p \<in> set ps" "log_frame w v"
    with assms have "appender_ok v p" by (blast intro: log_frame_appender_ok)
    then obtain v' where "LogAppender_log lv e p v = Inr v'" using LogAppender_log_total by blast
    with \<open>log_frame w v\<close> show "\<exists>s'. LogAppender_log lv e p v = Inr s' \<and> log_frame w s'"
      by (blast intro: log_frame_trans LogAppender_log_frame)
  qed simp
  then show ?thesis by blast
qed

text \<open>
  The abstract specification of a log call: the appenders that receive the event. A logger below
  whose level the event is gives none; a logger with appenders uses its own; one without uses those
  of the root logger, if the root's level admits the event.
\<close>

definition targets :: "log_world \<Rightarrow> nat \<Rightarrow> level \<Rightarrow> nat list" where
  "targets w a lv =
     (case lw_loggers w a of
        None \<Rightarrow> []
      | Some l \<Rightarrow>
          (if lg_level l \<le> lv then
             (if lg_appenders l \<noteq> [] then lg_appenders l
              else
                (case lg_root l of
                   None \<Rightarrow> []
                 | Some r \<Rightarrow>
                     (case lw_loggers w r of
                        None \<Rightarrow> []
                      | Some k \<Rightarrow> if lg_level k \<le> lv then lg_appenders k else [])))
           else []))"

lemma Logger_log_targets:
  assumes wf: "log_inv strict w" and l: "lw_loggers w a = Some l"
  shows "Logger_log (Suc (Suc k)) a lv e w = fold_r (LogAppender_log lv e) (targets w a lv) w"
proof (cases "lg_level l \<le> lv \<and> lg_appenders l = []")
  case False
  then show ?thesis using l by (simp add: targets_def deref_logger_def)
next
  case True
  show ?thesis
  proof (cases "lg_root l")
    case None
    then show ?thesis using True l by (simp add: targets_def deref_logger_def)
  next
    case (Some r)
    obtain rl where rl: "lw_loggers w (lw_root w) = Some rl" "lg_root rl = None"
      using log_wfD_root [OF wf] by blast
    have "r = lw_root w" using log_wfD_logger [OF wf l] Some by (auto simp: logger_inv_def split: if_splits)
    then show ?thesis using True Some l rl by (simp add: targets_def deref_logger_def)
  qed
qed

lemma targets_ok:
  assumes wf: "log_inv strict w" and p: "p \<in> set (targets w a lv)"
  shows "appender_inv strict w p"
proof -
  obtain l where l: "lw_loggers w a = Some l"
    using p by (cases "lw_loggers w a") (simp_all add: targets_def)
  consider "p \<in> set (lg_appenders l)" | r k where "lw_loggers w r = Some k" "p \<in> set (lg_appenders k)"
    using p l by (simp add: targets_def split: option.split_asm if_split_asm)
  then show ?thesis using log_wfD_live [OF wf] l by cases blast+
qed

lemma Logger_log_spec:
  assumes wf: "log_wf w" and l: "lw_loggers w a = Some l"
  obtains w' where "Logger_log (Suc (Suc k)) a lv e w = Inr w'" "log_frame w w'" "log_wf w'"
    "lw_cout w' = lw_cout w @ concat (map (cout_of w lv e) (targets w a lv))"
    "streams_ready w \<Longrightarrow>
       lw_files w' = (\<lambda>name. lw_files w name @ concat (map (file_of w lv e name) (targets w a lv)))"
proof -
  obtain w' where w': "fold_r (LogAppender_log lv e) (targets w a lv) w = Inr w'"
    using appenders_log_total targets_ok [OF wf] by blast
  have fr: "log_frame w w'" by (rule appenders_log_frame [OF w'])
  show ?thesis
  proof (rule that)
    show "Logger_log (Suc (Suc k)) a lv e w = Inr w'"
      by (subst Logger_log_targets [OF wf l]) (rule w')
    show "log_wf w'" by (rule log_frame_wf [OF fr wf])
    show "lw_files w' = (\<lambda>name. lw_files w name @ concat (map (file_of w lv e name) (targets w a lv)))"
      if "streams_ready w" using appenders_log_file [OF w' that] by blast
  qed (use fr appenders_log_cout [OF w'] in auto)
qed

section \<open>Any sequence of calls\<close>

text \<open>
  The calls of the interface that change the store: \<open>Call_new_Logger\<close> is \<open>std::make_shared<Logger>(name)\<close>, the
  other \<open>new\<close> calls make appenders, \<open>Call_reopen\<close> is \<open>FileLogAppender::reopen\<close>, \<open>Call_log\<close> is a logging macro and
  \<open>Call_log_event\<close> is \<open>Logger::log\<close> with an event made by hand. A formatter can be null. The \<open>toYamlString\<close>
  functions change nothing; \<open>Log_Define\<close> has them.
\<close>

datatype log_call =
    Call_setLevel nat level
  | Call_addAppender nat nat
  | Call_delAppender nat nat
  | Call_clearAppenders nat
  | Call_setFormatter nat "log_formatter option"
  | Call_setFormatter_pattern nat string
  | Call_ap_setFormatter nat "log_formatter option"
  | Call_ap_setLevel nat level
  | Call_getLogger string
  | Call_new_Logger string
  | Call_new_Stdout
  | Call_new_File "64 word" string
  | Call_reopen nat
  | Call_log log_site nat level string
  | Call_log_event nat level log_event

fun exec_call :: "log_call \<Rightarrow> log_world \<Rightarrow> log_world result" where
  "exec_call (Call_setLevel a lv) w = Logger_setLevel a lv w"
| "exec_call (Call_addAppender a p) w = Logger_addAppender a p w"
| "exec_call (Call_delAppender a p) w = Logger_delAppender a p w"
| "exec_call (Call_clearAppenders a) w = Logger_clearAppenders a w"
| "exec_call (Call_setFormatter a fm) w = Logger_setFormatter a fm w"
| "exec_call (Call_setFormatter_pattern a s) w = Logger_setFormatter_pattern a s w"
| "exec_call (Call_ap_setFormatter p fm) w = LogAppender_setFormatter p fm w"
| "exec_call (Call_ap_setLevel p lv) w = LogAppender_setLevel p lv w"
| "exec_call (Call_getLogger name) w = Inr (snd (LoggerManager_getLogger name w))"
| "exec_call (Call_new_Logger name) w = Inr (snd (Logger_ctor name w))"
| "exec_call Call_new_Stdout w = Inr (snd (StdoutLogAppender_ctor w))"
| "exec_call (Call_new_File junk name) w = bind_r (FileLogAppender_ctor junk name w) (\<lambda>r. Inr (snd r))"
| "exec_call (Call_reopen p) w = bind_r (FileLogAppender_reopen p w) (\<lambda>r. Inr (snd r))"
| "exec_call (Call_log st a lv s) w = SYLAR_LOG_LEVEL 2 st a lv s w"
| "exec_call (Call_log_event a lv e) w = Logger_log 2 a lv e w"

text \<open>
  The pointers to loggers and appenders a call dereferences are live, those of the event included, and \<open>reopen\<close> is
  called on a file appender.
\<close>

fun live_call :: "log_world \<Rightarrow> log_call \<Rightarrow> bool" where
  "live_call w (Call_setLevel a lv) = (lw_loggers w a \<noteq> None)"
| "live_call w (Call_addAppender a p) = (lw_loggers w a \<noteq> None \<and> lw_appenders w p \<noteq> None)"
| "live_call w (Call_delAppender a p) = (lw_loggers w a \<noteq> None)"
| "live_call w (Call_clearAppenders a) = (lw_loggers w a \<noteq> None)"
| "live_call w (Call_setFormatter a fm) = (lw_loggers w a \<noteq> None)"
| "live_call w (Call_setFormatter_pattern a s) = (lw_loggers w a \<noteq> None)"
| "live_call w (Call_ap_setFormatter p fm) = (lw_appenders w p \<noteq> None)"
| "live_call w (Call_ap_setLevel p lv) = (lw_appenders w p \<noteq> None)"
| "live_call w (Call_reopen p) =
     (case lw_appenders w p of None \<Rightarrow> False | Some ap \<Rightarrow> sink_file (ap_sink ap) \<noteq> None)"
| "live_call w (Call_log st a lv s) = (lw_loggers w a \<noteq> None)"
| "live_call w (Call_log_event a lv e) = (lw_loggers w a \<noteq> None \<and> lw_loggers w (ev_logger e) \<noteq> None)"
| "live_call w _ = True"

text \<open>
  The one way a live call can go wrong: a log call whose level an appender among the targets admits, while that
  appender has no formatter.
\<close>

definition null_target :: "log_world \<Rightarrow> level \<Rightarrow> nat \<Rightarrow> bool" where
  "null_target w lv p =
     (case lw_appenders w p of None \<Rightarrow> False | Some ap \<Rightarrow> ap_level ap \<le> lv \<and> ap_formatter ap = None)"

fun hits_null_formatter :: "log_world \<Rightarrow> log_call \<Rightarrow> bool" where
  "hits_null_formatter w (Call_log st a lv s) = list_ex (null_target w lv) (targets w a lv)"
| "hits_null_formatter w (Call_log_event a lv e) = list_ex (null_target w lv) (targets w a lv)"
| "hits_null_formatter w _ = False"

fun sets_null_formatter :: "log_call \<Rightarrow> bool" where
  "sets_null_formatter (Call_setFormatter a fm) = (fm = None)"
| "sets_null_formatter (Call_ap_setFormatter p fm) = (fm = None)"
| "sets_null_formatter _ = False"

lemma SYLAR_LOG_LEVEL_log:
  "SYLAR_LOG_LEVEL k st a lv s w =
     bind_r (deref_logger w a) (\<lambda>l.
       if lg_level l \<le> lv then Logger_log k a lv ((site_event st a lv w)\<lparr>ev_ss := s\<rparr>) w else Inr w)"
  by (cases "deref_logger w a")
     (simp_all add: SYLAR_LOG_LEVEL_def LogEventWrap_dtor_def site_event_def LogEvent_ctor_def)

lemma SYLAR_LOG_LEVEL_frame: "SYLAR_LOG_LEVEL k st a lv s w = Inr w' \<Longrightarrow> log_frame w w'"
  by (auto simp: SYLAR_LOG_LEVEL_log dest: Logger_log_frame split: if_splits)

lemma exec_call_inv:
  assumes "log_inv strict w" and "strict \<longrightarrow> \<not> sets_null_formatter c" and "exec_call c w = Inr w'"
  shows "log_inv strict w'"
proof (cases c)
  case (Call_log st a lv s)
  then show ?thesis using assms SYLAR_LOG_LEVEL_frame log_frame_wf by fastforce
next
  case (Call_log_event a lv e)
  then show ?thesis using assms Logger_log_frame log_frame_wf by fastforce
next
  case (Call_getLogger name)
  then show ?thesis using assms LoggerManager_getLogger_wf
    by (cases "LoggerManager_getLogger name w") auto
next
  case (Call_new_Logger name)
  then show ?thesis using assms Logger_ctor_wf by (cases "Logger_ctor name w") auto
next
  case Call_new_Stdout
  then show ?thesis using assms new_appender_wf
    by (cases "new_appender Stdout_Sink w") (auto simp: StdoutLogAppender_ctor_def)
qed (use assms in \<open>auto intro: Logger_setLevel_wf Logger_addAppender_wf Logger_delAppender_wf
       Logger_clearAppenders_wf Logger_setFormatter_wf Logger_setFormatter_pattern_wf
       LogAppender_setFormatter_wf LogAppender_setLevel_wf FileLogAppender_ctor_wf FileLogAppender_reopen_wf\<close>)

lemma exec_calls_inv:
  assumes "fold_r exec_call cs w = Inr w'" and "log_inv strict w" and "\<forall>c\<in>set cs. strict \<longrightarrow> \<not> sets_null_formatter c"
  shows "log_inv strict w'"
  using assms
proof (induction cs arbitrary: w)
  case (Cons c cs)
  then obtain v where "exec_call c w = Inr v" "fold_r exec_call cs v = Inr w'" by auto
  with Cons.IH [of v] Cons.prems exec_call_inv [of strict w c v] show ?case by simp
qed simp

lemma inherit_formatter_total:
  assumes "lw_appenders w p = Some ap"
  shows "\<exists>w'. inherit_formatter fm p w = Inr w' \<and> dom (lw_appenders w') = dom (lw_appenders w)"
  using assms
  by (cases "ap_has_formatter ap") (auto simp: inherit_formatter_def deref_appender_def put_appender_def)

lemma Logger_setFormatter_total:
  assumes wf: "log_inv strict w" and l: "lw_loggers w a = Some l"
  shows "\<exists>w'. Logger_setFormatter a fm w = Inr w'"
proof -
  let ?w = "put_logger a (l\<lparr>lg_formatter := fm\<rparr>) w"
  let ?P = "\<lambda>v. dom (lw_appenders v) = dom (lw_appenders w)"
  have "\<exists>w'. fold_r (inherit_formatter fm) (lg_appenders l) ?w = Inr w' \<and> ?P w'"
  proof (rule fold_r_total [where P = ?P])
    fix p and v :: log_world
    assume "p \<in> set (lg_appenders l)" "?P v"
    then have "p \<in> dom (lw_appenders v)"
      using log_wfD_live [OF wf l] by (fastforce simp: appender_inv_def)
    then obtain ap where "lw_appenders v p = Some ap" by blast
    from inherit_formatter_total [OF this] show "\<exists>v'. inherit_formatter fm p v = Inr v' \<and> ?P v'"
      using \<open>?P v\<close> by simp
  qed (simp add: put_logger_def)
  then show ?thesis using l by (auto simp: Logger_setFormatter_def deref_logger_def)
qed

lemma FileLogAppender_ctor_total: "\<exists>r. FileLogAppender_ctor junk name w = Inr r"
  by (simp add: FileLogAppender_ctor_def new_appender_def FileLogAppender_reopen_def deref_appender_def
      put_appender_def Let_def)

lemma Logger_addAppender_total:
  assumes "lw_loggers w a = Some l" and "lw_appenders w p = Some ap"
  shows "\<exists>w'. Logger_addAppender a p w = Inr w'"
  using assms
  by (cases "ap_formatter ap")
     (simp_all add: Logger_addAppender_def LogAppender_getFormatter_def deref_logger_def deref_appender_def Let_def)

text \<open>An appender without a formatter among the targets fails the call; without one the call returns.\<close>

lemma LogAppender_log_result:
  assumes "lw_appenders w p = Some ap"
  shows "if null_target w lv p then LogAppender_log lv e p w = Inl (Undefined ''null LogFormatter'')
         else \<exists>w'. LogAppender_log lv e p w = Inr w'"
proof (cases "ap_level ap \<le> lv")
  case True
  then show ?thesis
    using assms
    by (cases "ap_formatter ap"; cases "ap_sink ap")
       (simp_all add: null_target_def LogAppender_log_def StdoutLogAppender_log_def FileLogAppender_log_def
          deref_appender_def deref_formatter_def Let_def split_beta)
next
  case False
  then show ?thesis
    using assms
    by (cases "ap_sink ap")
       (simp_all add: null_target_def LogAppender_log_def StdoutLogAppender_log_def FileLogAppender_log_def deref_appender_def)
qed

lemma null_target_frame: "log_frame w w' \<Longrightarrow> null_target w' lv p = null_target w lv p"
  using log_frame_ap_static [of w w' p]
  by (auto simp: null_target_def ap_static_def split: option.splits)

lemma appenders_log_result:
  assumes "\<forall>p \<in> set ps. lw_appenders w p \<noteq> None"
  shows "if list_ex (null_target w lv) ps
         then fold_r (LogAppender_log lv e) ps w = Inl (Undefined ''null LogFormatter'')
         else \<exists>w'. fold_r (LogAppender_log lv e) ps w = Inr w'"
  using assms
proof (induction ps arbitrary: w)
  case (Cons p ps)
  then obtain ap where ap: "lw_appenders w p = Some ap" by auto
  note step = LogAppender_log_result [OF ap, of lv e]
  show ?case
  proof (cases "null_target w lv p")
    case True
    then show ?thesis using step by simp
  next
    case False
    then obtain v where v: "LogAppender_log lv e p w = Inr v" using step by auto
    note fr = LogAppender_log_frame [OF v]
    have alive: "\<forall>q \<in> set ps. lw_appenders v q \<noteq> None"
    proof
      fix q assume "q \<in> set ps"
      then obtain aq where aq: "lw_appenders w q = Some aq" using Cons.prems by auto
      show "lw_appenders v q \<noteq> None" by (rule log_frame_appender [OF fr aq]) simp
    qed
    have "null_target v lv = null_target w lv" using null_target_frame [OF fr] by (simp add: fun_eq_iff)
    with Cons.IH [OF alive] v False show ?thesis by simp
  qed
qed simp

lemma Logger_log_result:
  assumes wf: "log_inv strict w" and l: "lw_loggers w a = Some l"
  shows "if list_ex (null_target w lv) (targets w a lv)
         then Logger_log 2 a lv e w = Inl (Undefined ''null LogFormatter'')
         else \<exists>w'. Logger_log 2 a lv e w = Inr w'"
proof -
  have "\<forall>p \<in> set (targets w a lv). lw_appenders w p \<noteq> None"
    using targets_ok [OF wf] by (fastforce simp: appender_inv_def)
  from appenders_log_result [OF this, of lv e] show ?thesis
    using Logger_log_targets [OF wf l, of 0 lv e] by (simp add: numeral_2_eq_2)
qed

lemma targets_below: "lw_loggers w a = Some l \<Longrightarrow> \<not> lg_level l \<le> lv \<Longrightarrow> targets w a lv = []"
  by (simp add: targets_def)

lemma exec_call_result:
  assumes wf: "log_inv strict w" and "live_call w c"
  shows "if hits_null_formatter w c then exec_call c w = Inl (Undefined ''null LogFormatter'')
         else \<exists>w'. exec_call c w = Inr w'"
proof (cases c)
  case (Call_log st a lv s)
  then obtain l where l: "lw_loggers w a = Some l" using assms(2) by auto
  then show ?thesis
    using Logger_log_result [OF wf l, of lv "(site_event st a lv w)\<lparr>ev_ss := s\<rparr>"] targets_below [OF l, of lv] Call_log
    by (simp add: SYLAR_LOG_LEVEL_log deref_logger_def)
next
  case (Call_log_event a lv e)
  then obtain l where l: "lw_loggers w a = Some l" using assms(2) by auto
  show ?thesis using Logger_log_result [OF wf l, of lv e] Call_log_event by simp
next
  case (Call_setFormatter a fm)
  then show ?thesis using assms(2) Logger_setFormatter_total [OF wf] by auto
next
  case (Call_setFormatter_pattern a s)
  then obtain l where l: "lw_loggers w a = Some l" using assms(2) by auto
  have "\<exists>w'. Logger_setFormatter a fm (write_cout t w) = Inr w'" for fm t
    using Logger_setFormatter_total [OF write_cout_wf [OF wf], where a = a and l = l] l by (simp add: write_cout_def)
  then show ?thesis
    using Call_setFormatter_pattern l by (simp add: Logger_setFormatter_pattern_def deref_logger_def Let_def)
next
  case (Call_addAppender a p)
  then show ?thesis using assms(2) Logger_addAppender_total by force
next
  case (Call_new_File junk name)
  then show ?thesis using FileLogAppender_ctor_total [of junk name w] by auto
next
  case (Call_reopen p)
  then show ?thesis
    using assms(2)
    by (auto simp: FileLogAppender_reopen_def deref_appender_def Let_def split: option.splits sink.split)
qed (use assms(2) in \<open>auto simp: Logger_setLevel_def Logger_delAppender_def
       Logger_clearAppenders_def LogAppender_setFormatter_def LogAppender_setLevel_def
       LogAppender_getFormatter_def deref_logger_def deref_appender_def\<close>)

lemma no_null_target:
  assumes "log_wf w"
  shows "\<not> list_ex (null_target w lv) (targets w a lv)"
  using targets_ok [OF assms] by (fastforce simp: list_ex_iff null_target_def appender_inv_def)

lemma exec_call_total:
  assumes wf: "log_wf w" and "live_call w c"
  shows "\<exists>w'. exec_call c w = Inr w'"
proof -
  have "\<not> hits_null_formatter w c" using no_null_target [OF wf] by (cases c) simp_all
  with exec_call_result [OF assms] show ?thesis by simp
qed

section \<open>Formatters and the manager\<close>

lemma inherit_formatters:
  "fold_r (inherit_formatter fm) ps w = Inr w' \<Longrightarrow>
   lw_loggers w' = lw_loggers w \<and>
   lw_appenders w' =
     (\<lambda>p. map_option (\<lambda>ap. if p \<in> set ps \<and> \<not> ap_has_formatter ap then ap\<lparr>ap_formatter := fm\<rparr> else ap)
            (lw_appenders w p))"
proof (induction ps arbitrary: w)
  case Nil
  then show ?case by (simp add: option.map_ident)
next
  case (Cons p ps)
  then obtain v where v: "inherit_formatter fm p w = Inr v" "fold_r (inherit_formatter fm) ps v = Inr w'"
    by auto
  have "lw_loggers v = lw_loggers w"
    "lw_appenders v = (\<lambda>q. map_option (\<lambda>ap. if q = p \<and> \<not> ap_has_formatter ap then ap\<lparr>ap_formatter := fm\<rparr> else ap)
       (lw_appenders w q))"
    using v(1)
    by (auto simp: inherit_formatter_def deref_appender_def put_appender_def fun_eq_iff option.map_ident
             split: option.splits if_splits intro!: option.map_ident_strong [symmetric])
  then show ?case using Cons.IH [OF v(2)] by (auto simp: fun_eq_iff option.map_comp comp_def intro!: option.map_cong0)
qed

lemma Logger_setFormatter_spec:
  assumes wf: "log_wf w" and l: "lw_loggers w a = Some l"
  obtains w' where "Logger_setFormatter a fm w = Inr w'"
    "lw_loggers w' = (lw_loggers w)(a \<mapsto> l\<lparr>lg_formatter := fm\<rparr>)"
    "lw_appenders w' =
       (\<lambda>p. map_option (\<lambda>ap. if p \<in> set (lg_appenders l) \<and> \<not> ap_has_formatter ap
                              then ap\<lparr>ap_formatter := fm\<rparr> else ap) (lw_appenders w p))"
proof -
  obtain w' where w': "Logger_setFormatter a fm w = Inr w'"
    using Logger_setFormatter_total [OF wf l] by blast
  then have "fold_r (inherit_formatter fm) (lg_appenders l) (put_logger a (l\<lparr>lg_formatter := fm\<rparr>) w) = Inr w'"
    using l by (simp add: Logger_setFormatter_def deref_logger_def)
  from inherit_formatters [OF this] show ?thesis by (intro that [OF w']) (simp_all add: put_logger_def)
qed

lemma Logger_setFormatter_pattern_invalid:
  assumes "fm_error (LogFormatter_ctor s)" and "lw_loggers w a = Some l"
  obtains w' where "Logger_setFormatter_pattern a s w = Inr w'"
    "lw_loggers w' = lw_loggers w" "lw_appenders w' = lw_appenders w" "lw_files w' = lw_files w"
  using assms by (auto simp: Logger_setFormatter_pattern_def deref_logger_def write_cout_def Let_def)

lemma LoggerManager_getLogger_found:
  "LoggerManager_getLogger n w = (a, w') \<Longrightarrow> smap_find n (lw_loggers_map w') = Some a"
  by (auto simp: LoggerManager_getLogger_def Logger_ctor_def put_logger_def split: option.splits)

lemma LoggerManager_getLogger_again:
  "smap_find n (lw_loggers_map w) = Some a \<Longrightarrow> LoggerManager_getLogger n w = (a, w)"
  by (simp add: LoggerManager_getLogger_def)

lemma LoggerManager_getLogger_keeps:
  assumes wf: "log_wf w" and "LoggerManager_getLogger n w = (a, w')" and "lw_loggers w b = Some l"
  shows "lw_loggers w' b = Some l"
proof -
  have "b < lw_next_logger w" using log_wfD_logger [OF wf assms(3)] by (simp add: logger_inv_def)
  then show ?thesis
    using assms(2,3) by (auto simp: LoggerManager_getLogger_def Logger_ctor_def put_logger_def split: option.splits)
qed

lemma log_wf_names_distinct:
  assumes "log_wf w" and "smap_find m (lw_loggers_map w) = Some a" and "smap_find n (lw_loggers_map w) = Some a"
  shows "m = n"
  using log_wfD_map [OF assms(1,2)] log_wfD_map [OF assms(1,3)] by auto

section \<open>Properties\<close>

text \<open>The world before static initialisation, used by the witnesses: nothing allocated yet.\<close>

definition blank_world :: log_world where
  "blank_world =
     \<lparr>lw_appenders = Map.empty, lw_next_appender = 0, lw_loggers = Map.empty, lw_next_logger = 0,
      lw_loggers_map = [], lw_root = 0, lw_cout = [], lw_files = (\<lambda>name. []),
      lw_can_open = (\<lambda>name. True), lw_can_write = (\<lambda>name. True), lw_now = 1000,
      lw_strftime = (\<lambda>f t. ''12:00'')\<rparr>"

definition demo_site :: log_site where
  "demo_site = \<lparr>site_file = ''main.cpp'', site_line = 7, site_threadId = 1, site_threadName = ''main'', site_fiberId = 0\<rparr>"

text \<open>The root logger and a logger named \<open>system\<close> with a file appender.\<close>

definition demo_calls :: "log_call list" where
  "demo_calls = [Call_getLogger ''system'', Call_new_File 0 ''system.txt'', Call_addAppender 1 1]"

definition demo_world_0 :: log_world where
  "demo_world_0 = blank_world
     \<lparr>lw_appenders := [0 \<mapsto> \<lparr>ap_level = DEBUG, ap_has_formatter = False,
        ap_formatter = Some (LogFormatter_ctor default_pattern), ap_sink = Stdout_Sink\<rparr>],
      lw_next_appender := 1,
      lw_loggers := [0 \<mapsto> \<lparr>lg_name = ''root'', lg_level = DEBUG, lg_appenders = [0],
        lg_formatter = Some (LogFormatter_ctor default_pattern), lg_root = None\<rparr>],
      lw_next_logger := 1, lw_loggers_map := [(''root'', 0)]\<rparr>"

definition demo_world_1 :: log_world where
  "demo_world_1 = demo_world_0
     \<lparr>lw_appenders := (lw_appenders demo_world_0)(1 \<mapsto> \<lparr>ap_level = DEBUG, ap_has_formatter = False,
        ap_formatter = Some (LogFormatter_ctor default_pattern),
        ap_sink = File_Sink ''system.txt'' \<lparr>fs_open = True, fs_fail = False\<rparr> 0\<rparr>),
      lw_next_appender := 2,
      lw_loggers := (lw_loggers demo_world_0)(1 \<mapsto> \<lparr>lg_name = ''system'', lg_level = DEBUG, lg_appenders = [1],
        lg_formatter = Some (LogFormatter_ctor default_pattern), lg_root = Some 0\<rparr>),
      lw_next_logger := 2, lw_loggers_map := [(''root'', 0), (''system'', 1)]\<rparr>"

lemma demo_world_0: "LoggerManager_ctor blank_world = Inr demo_world_0"
  by (simp add: LoggerManager_ctor_def Logger_ctor_def StdoutLogAppender_ctor_def new_appender_def
      Logger_addAppender_def LogAppender_getFormatter_def log_simps blank_world_def demo_world_0_def)

lemma demo_world_0_wf: "log_wf demo_world_0"
  by (rule LoggerManager_ctor_wf [OF demo_world_0]) (simp_all add: blank_world_def)

lemma demo_world_1: "fold_r exec_call demo_calls demo_world_0 = Inr demo_world_1"
  by (simp add: demo_calls_def demo_world_0_def demo_world_1_def blank_world_def log_simps
      LoggerManager_getLogger_def smap_find_def Logger_ctor_def FileLogAppender_ctor_def new_appender_def
      FileLogAppender_reopen_def reopen_good Logger_addAppender_def LogAppender_getFormatter_def
      fun_upd_twist numeral_2_eq_2)

lemma demo_world_1_wf: "log_wf demo_world_1"
  by (rule exec_calls_inv [OF demo_world_1 demo_world_0_wf]) (simp add: demo_calls_def)

lemma demo_world_1_facts:
  "streams_ready demo_world_1" "targets demo_world_1 1 INFO = [1]"
  "lw_loggers demo_world_1 1 = Some \<lparr>lg_name = ''system'', lg_level = DEBUG, lg_appenders = [1],
     lg_formatter = Some (LogFormatter_ctor default_pattern), lg_root = Some 0\<rparr>"
  "lw_appenders demo_world_1 1 = Some \<lparr>ap_level = DEBUG, ap_has_formatter = False,
     ap_formatter = Some (LogFormatter_ctor default_pattern),
     ap_sink = File_Sink ''system.txt'' \<lparr>fs_open = True, fs_fail = False\<rparr> 0\<rparr>"
  by (simp_all add: demo_world_1_def demo_world_0_def blank_world_def streams_ready_def stream_ready_def
      targets_def less_eq_level_def)

text \<open>C3: Safety of the logging interface. After the manager's constructor, any sequence of calls that returned (null
  formatters may be set, appenders reopened, events logged directly) leaves every appender of a logger alive,
  every logger of the manager registered under its own name, and only the root logger or loggers of the manager
  falling back to the root, which has no further root. A next call whose pointers are live
  then returns, with one exception: logging dereferences a null formatter exactly when an appender
  among the targets admits the level and has no formatter. If no call has set a null formatter, that never
  happens, and every logger and every appender of a logger has a formatter.\<close>

theorem log_api_safe:
  assumes "lw_loggers w = Map.empty" and "lw_appenders w = Map.empty" and "lw_loggers_map w = []"
    and "LoggerManager_ctor w = Inr w0" and "fold_r exec_call cs w0 = Inr w1" and "live_call w1 c"
  shows "log_shape w1 \<and>
         (if hits_null_formatter w1 c then exec_call c w1 = Inl (Undefined ''null LogFormatter'')
          else \<exists>w2. exec_call c w1 = Inr w2 \<and> log_shape w2) \<and>
         (\<not> list_ex sets_null_formatter cs \<longrightarrow> log_wf w1 \<and> \<not> hits_null_formatter w1 c)"
proof -
  have wf0: "log_wf w0" by (rule LoggerManager_ctor_wf [OF assms(4,1-3)])
  have shape: "log_shape w1" by (rule exec_calls_inv [OF assms(5) log_wf_shape [OF wf0]]) simp
  have "log_shape w2" if "exec_call c w1 = Inr w2" for w2 by (rule exec_call_inv [OF shape _ that]) simp
  moreover have "log_wf w1 \<and> \<not> hits_null_formatter w1 c" if "\<not> list_ex sets_null_formatter cs"
  proof -
    have wf1: "log_wf w1" by (rule exec_calls_inv [OF assms(5) wf0]) (use that in \<open>simp add: list_ex_iff\<close>)
    then show ?thesis using no_null_target [OF wf1] by (cases c) simp_all
  qed
  ultimately show ?thesis using shape exec_call_result [OF shape assms(6)] by (simp split: if_splits) blast
qed

text \<open>A call of \<open>setFormatter(nullptr)\<close> on the appender of the logger \<open>system\<close>, used by the witness.\<close>

definition demo_world_null :: log_world where
  "demo_world_null = put_appender 1 \<lparr>ap_level = DEBUG, ap_has_formatter = False, ap_formatter = None,
     ap_sink = File_Sink ''system.txt'' \<lparr>fs_open = True, fs_fail = False\<rparr> 0\<rparr> demo_world_1"

theorem log_api_safe_witness:
  "(\<exists>w2. exec_call (Call_log demo_site 1 INFO ''hello'') demo_world_1 = Inr w2 \<and> log_shape w2) \<and>
   fold_r exec_call (demo_calls @ [Call_ap_setFormatter 1 None]) demo_world_0 = Inr demo_world_null \<and>
   exec_call (Call_log demo_site 1 INFO ''hello'') demo_world_null = Inl (Undefined ''null LogFormatter'')"
proof -
  have blank: "lw_loggers blank_world = Map.empty" "lw_appenders blank_world = Map.empty" "lw_loggers_map blank_world = []"
    by (simp_all add: blank_world_def)
  have nothing_null: "\<not> list_ex sets_null_formatter demo_calls" by (simp add: demo_calls_def)
  have live: "live_call demo_world_1 (Call_log demo_site 1 INFO ''hello'')"
    "live_call demo_world_null (Call_log demo_site 1 INFO ''hello'')"
    by (simp_all add: demo_world_1_facts demo_world_null_def put_appender_def del: One_nat_def)
  have run: "fold_r exec_call (demo_calls @ [Call_ap_setFormatter 1 None]) demo_world_0 = Inr demo_world_null"
    by (simp add: fold_r_append demo_world_1 LogAppender_setFormatter_def deref_appender_def demo_world_1_facts
        demo_world_null_def del: One_nat_def)
  have "hits_null_formatter demo_world_null (Call_log demo_site 1 INFO ''hello'')"
    by (simp add: null_target_def targets_def demo_world_null_def put_appender_def demo_world_1_facts less_eq_level_def
        del: One_nat_def)
  then show ?thesis
    using log_api_safe [OF blank demo_world_0 demo_world_1 live(1)] log_api_safe [OF blank demo_world_0 run live(2)]
      nothing_null run by (simp split: if_splits)
qed

text \<open>C4: What a log macro delivers. In a well-formed store a macro call on a live logger returns; it
  changes nothing but the texts written and the streams; \<open>std::cout\<close> gets one formatted line for
  each console appender among the targets whose level admits the event, in order, and, when the
  files can be written, each file gets one line for each of its appenders among the targets. The
  targets are the logger's appenders or, if it has none, the root's, provided the levels admit the event.\<close>

theorem log_macro_delivers:
  assumes "log_wf w" and "lw_loggers w a = Some l" and "streams_ready w"
  shows "\<exists>w'. SYLAR_LOG_LEVEL 2 st a lv s w = Inr w' \<and> log_frame w w' \<and>
           (let e = (site_event st a lv w)\<lparr>ev_ss := s\<rparr> in
              lw_cout w' = lw_cout w @ concat (map (cout_of w lv e) (targets w a lv)) \<and>
              lw_files w' = (\<lambda>name. lw_files w name @ concat (map (file_of w lv e name) (targets w a lv))))"
proof (cases "lg_level l \<le> lv")
  case True
  let ?e = "(site_event st a lv w)\<lparr>ev_ss := s\<rparr>"
  obtain w' where "Logger_log (Suc (Suc 0)) a lv ?e w = Inr w'" "log_frame w w'"
    "lw_cout w' = lw_cout w @ concat (map (cout_of w lv ?e) (targets w a lv))"
    "lw_files w' = (\<lambda>name. lw_files w name @ concat (map (file_of w lv ?e name) (targets w a lv)))"
    by (rule Logger_log_spec [OF assms(1,2), of 0 lv ?e]) (use assms(3) in blast)
  with True assms(2) show ?thesis
    by (simp add: SYLAR_LOG_LEVEL_log deref_logger_def numeral_2_eq_2 Let_def)
next
  case False
  then show ?thesis using assms(2) by (simp add: SYLAR_LOG_LEVEL_log deref_logger_def targets_def Let_def)
qed

theorem log_macro_delivers_witness:
  "\<exists>w2. SYLAR_LOG_LEVEL 2 demo_site 1 INFO ''hello'' demo_world_1 = Inr w2 \<and>
     lw_cout w2 = [] \<and>
     lw_files w2 ''system.txt'' =
       LogFormatter_format (world_env demo_world_1) (LogFormatter_ctor default_pattern) INFO
         ((site_event demo_site 1 INFO demo_world_1)\<lparr>ev_ss := ''hello''\<rparr>)"
proof -
  have "lw_cout demo_world_1 = []" "lw_files demo_world_1 ''system.txt'' = []"
    by (simp_all add: demo_world_1_def demo_world_0_def blank_world_def)
  then show ?thesis
    using log_macro_delivers [OF demo_world_1_wf demo_world_1_facts(3,1), of demo_site INFO "''hello''"]
    by (auto simp: Let_def demo_world_1_facts cout_of_def file_of_def less_eq_level_def simp del: One_nat_def)
qed

text \<open>C11: \<open>Logger::setFormatter\<close> reaches exactly the appenders that have no formatter of their own:
  these get the new formatter, appenders with their own formatter and appenders of other loggers keep
  theirs, and of the loggers only the one addressed changes, and only in its formatter.\<close>

theorem set_formatter_exact:
  assumes "log_wf w" and "lw_loggers w a = Some l"
  shows "\<exists>w'. Logger_setFormatter a (Some fm) w = Inr w' \<and>
           lw_loggers w' = (lw_loggers w)(a \<mapsto> l\<lparr>lg_formatter := Some fm\<rparr>) \<and>
           (\<forall>p. lw_appenders w' p =
                  map_option (\<lambda>ap. if p \<in> set (lg_appenders l) \<and> \<not> ap_has_formatter ap
                                    then ap\<lparr>ap_formatter := Some fm\<rparr> else ap) (lw_appenders w p))"
  by (rule Logger_setFormatter_spec [OF assms, of "Some fm"]) auto

theorem set_formatter_exact_witness:
  "\<exists>w2 p. Logger_setFormatter 1 (Some (LogFormatter_ctor ''%m'')) demo_world_1 = Inr w2 \<and>
     lw_appenders w2 1 = Some p \<and> ap_formatter p = Some (LogFormatter_ctor ''%m'')"
  using set_formatter_exact [OF demo_world_1_wf demo_world_1_facts(3), of "LogFormatter_ctor ''%m''"]
  by (auto simp: demo_world_1_facts simp del: One_nat_def)

text \<open>A pattern with an error changes no logger and no appender: \<open>setFormatter\<close> with a string
  prints a complaint and keeps the old formatter.\<close>

theorem set_formatter_rejects_bad_pattern:
  assumes "fm_error (LogFormatter_ctor s)" and "lw_loggers w a = Some l"
  shows "\<exists>w'. Logger_setFormatter_pattern a s w = Inr w' \<and> lw_loggers w' = lw_loggers w \<and>
           lw_appenders w' = lw_appenders w \<and> lw_files w' = lw_files w"
  by (rule Logger_setFormatter_pattern_invalid [OF assms]) blast

theorem set_formatter_rejects_bad_pattern_witness:
  "\<exists>w'. Logger_setFormatter_pattern 0 ''%d{'' (snd (Logger_ctor ''a'' blank_world)) = Inr w' \<and>
     lw_loggers w' = lw_loggers (snd (Logger_ctor ''a'' blank_world)) \<and>
     lw_appenders w' = Map.empty \<and> lw_files w' = (\<lambda>name. [])"
proof -
  have bad: "fm_error (LogFormatter_ctor ''%d{'')" by code_simp
  have "lw_loggers (snd (Logger_ctor ''a'' blank_world)) 0 \<noteq> None"
    by (simp add: Logger_ctor_def put_logger_def blank_world_def)
  then obtain l where "lw_loggers (snd (Logger_ctor ''a'' blank_world)) 0 = Some l" by blast
  from set_formatter_rejects_bad_pattern [OF bad this] show ?thesis
    by (simp add: Logger_ctor_def put_logger_def blank_world_def)
qed

text \<open>\<open>getLogger\<close> finds or creates. It returns a live logger registered under the name; asking
  again returns the same logger and changes nothing; loggers that existed keep their state; and
  different names never share a logger.\<close>

theorem get_logger_find_or_create:
  assumes "log_wf w" and "LoggerManager_getLogger n w = (a, w1)" and "LoggerManager_getLogger m w1 = (b, w2)"
  shows "(\<exists>l. lw_loggers w1 a = Some l \<and> lg_name l = n) \<and> LoggerManager_getLogger n w1 = (a, w1) \<and>
         (\<forall>c l. lw_loggers w c = Some l \<longrightarrow> lw_loggers w1 c = Some l) \<and> (a = b \<longleftrightarrow> m = n)"
proof -
  have wf1: "log_wf w1" by (rule LoggerManager_getLogger_wf [OF assms(1,2)])
  have wf2: "log_wf w2" by (rule LoggerManager_getLogger_wf [OF wf1 assms(3)])
  note fa = LoggerManager_getLogger_found [OF assms(2)] and fb = LoggerManager_getLogger_found [OF assms(3)]
  note again = LoggerManager_getLogger_again [OF fa]
  have live: "\<exists>l. lw_loggers w1 a = Some l \<and> lg_name l = n" by (rule log_wfD_map [OF wf1 fa])
  then obtain l where l: "lw_loggers w1 a = Some l" "lg_name l = n" by blast
  have "lw_loggers w2 a = Some l" by (rule LoggerManager_getLogger_keeps [OF wf1 assms(3) l(1)])
  then have "m = n" if "a = b" using that log_wfD_map [OF wf2 fb] l(2) by auto
  moreover have "a = b" if "m = n" using that again assms(3) by simp
  ultimately show ?thesis
    using live again LoggerManager_getLogger_keeps [OF assms(1,2)] by blast
qed

theorem get_logger_find_or_create_witness:
  "\<exists>a w1 b w2. LoggerManager_getLogger ''system'' demo_world_0 = (a, w1) \<and>
     LoggerManager_getLogger ''http'' w1 = (b, w2) \<and> a \<noteq> b \<and> LoggerManager_getLogger ''system'' w1 = (a, w1)"
proof -
  obtain a w1 where a: "LoggerManager_getLogger ''system'' demo_world_0 = (a, w1)" by fastforce
  obtain b w2 where b: "LoggerManager_getLogger ''http'' w1 = (b, w2)" by fastforce
  from get_logger_find_or_create [OF demo_world_0_wf a b] a b show ?thesis by auto
qed

end
