(* ===== verification/Yaml_Api.thy ===== *)
theory Yaml_Api
  imports Sylar_Prelude
begin

text \<open>
  yaml-cpp is not part of the repository: its operations are a parameter of the model, a record of
  the calls the sources make. \<open>yaml_laws\<close> states what the properties of the configuration rely on:
  the emitter writes what the parser reads back, and \<open>push_back\<close> and assignment to \<open>node[key]\<close> append.
  The last section has a small document format that satisfies the laws; it is only used to show that
  they can hold.
\<close>

section \<open>The operations\<close>

record 'n yaml =
  y_load :: "string \<Rightarrow> 'n result"
  y_dump :: "'n \<Rightarrow> string result"
  y_null :: 'n
  y_defined :: "'n \<Rightarrow> bool"
  y_is_map :: "'n \<Rightarrow> bool"
  y_is_scalar :: "'n \<Rightarrow> bool"
  y_scalar :: "'n \<Rightarrow> string"
  y_size :: "'n \<Rightarrow> nat"
  y_at :: "'n \<Rightarrow> nat \<Rightarrow> 'n"
  y_items :: "'n \<Rightarrow> ('n \<times> 'n) list"
  y_get :: "'n \<Rightarrow> string \<Rightarrow> 'n result"
  y_push :: "'n \<Rightarrow> 'n \<Rightarrow> 'n result"
  y_set :: "'n \<Rightarrow> string \<Rightarrow> 'n \<Rightarrow> 'n result"
  y_as_string :: "'n \<Rightarrow> string result"
  y_of_string :: "string \<Rightarrow> 'n"

text \<open>
  \<open>y_get n k\<close> is \<open>n[k]\<close>: it throws on a scalar and is an undefined node when there is no entry.
  \<open>y_as_string\<close> is \<open>n.as<std::string>()\<close>, which throws when \<open>n\<close> has no string value, and \<open>y_of_string s\<close>
  is the node that the assignment of a string makes.
\<close>

text \<open>The elements of a sequence and the entries of a map, as the loops of the sources see them.\<close>

definition y_elems :: "'n yaml \<Rightarrow> 'n \<Rightarrow> 'n list" where
  "y_elems y n = map (y_at y n) [0..<y_size y n]"

definition y_entries :: "'n yaml \<Rightarrow> 'n \<Rightarrow> (string \<times> 'n) list" where
  "y_entries y n = map (\<lambda>(k, v). (y_scalar y k, v)) (y_items y n)"

section \<open>The laws\<close>

text \<open>A node that loops of \<open>push_back\<close> or of assignments to \<open>node[key]\<close> start from or go on with.\<close>

definition y_seq_built :: "'n yaml \<Rightarrow> 'n \<Rightarrow> bool" where
  "y_seq_built y n \<longleftrightarrow> n = y_null y \<or> (\<exists>m z. y_push y m z = Inr n)"

definition y_map_built :: "'n yaml \<Rightarrow> 'n \<Rightarrow> bool" where
  "y_map_built y n \<longleftrightarrow> n = y_null y \<or> (\<exists>m j z. y_set y m j z = Inr n)"

definition yaml_law_emit :: "'n yaml \<Rightarrow> bool" where
  "yaml_law_emit y \<longleftrightarrow>
     (\<forall>n. y_defined y n \<longrightarrow> (\<exists>t. y_dump y n = Inr t \<and> y_load y t = Inr n)) \<and>
     (\<forall>t n. y_load y t = Inr n \<longrightarrow> y_defined y n)"

definition yaml_law_null :: "'n yaml \<Rightarrow> bool" where
  "yaml_law_null y \<longleftrightarrow>
     y_defined y (y_null y) \<and> y_elems y (y_null y) = [] \<and> y_entries y (y_null y) = []"

definition yaml_law_push :: "'n yaml \<Rightarrow> bool" where
  "yaml_law_push y \<longleftrightarrow>
     (\<forall>n x. y_defined y x \<longrightarrow> y_seq_built y n \<longrightarrow>
        (\<exists>n'. y_push y n x = Inr n' \<and> y_defined y n' \<and> y_elems y n' = y_elems y n @ [x]))"

definition yaml_law_set :: "'n yaml \<Rightarrow> bool" where
  "yaml_law_set y \<longleftrightarrow>
     (\<forall>n k x. y_defined y x \<longrightarrow> y_map_built y n \<longrightarrow> k \<notin> fst ` set (y_entries y n) \<longrightarrow>
        (\<exists>n'. y_set y n k x = Inr n' \<and> y_defined y n' \<and> y_entries y n' = y_entries y n @ [(k, x)]))"

text \<open>A key of a map that was built by assignments is found; another one gives an undefined node.\<close>

definition yaml_law_get :: "'n yaml \<Rightarrow> bool" where
  "yaml_law_get y \<longleftrightarrow>
     (\<forall>n k. y_map_built y n \<longrightarrow> k \<noteq> [] \<longrightarrow>
        (\<exists>x. y_get y n k = Inr x \<and>
             (case map_of (y_entries y n) k of Some v \<Rightarrow> x = v | None \<Rightarrow> \<not> y_defined y x)))"

definition yaml_law_string :: "'n yaml \<Rightarrow> bool" where
  "yaml_law_string y \<longleftrightarrow> (\<forall>s. y_defined y (y_of_string y s) \<and> y_as_string y (y_of_string y s) = Inr s)"

definition yaml_laws :: "'n yaml \<Rightarrow> bool" where
  "yaml_laws y \<longleftrightarrow>
     yaml_law_emit y \<and> yaml_law_null y \<and> yaml_law_push y \<and> yaml_law_set y \<and> yaml_law_get y \<and> yaml_law_string y"

lemma yaml_dump_load:
  assumes "yaml_laws y" and "y_defined y n"
  obtains t where "y_dump y n = Inr t" "y_load y t = Inr n"
  using assms unfolding yaml_laws_def yaml_law_emit_def by blast

lemma yaml_load_defined: "yaml_laws y \<Longrightarrow> y_load y t = Inr n \<Longrightarrow> y_defined y n"
  unfolding yaml_laws_def yaml_law_emit_def by blast

lemma yaml_null:
  assumes "yaml_laws y"
  shows "y_defined y (y_null y)" "y_elems y (y_null y) = []" "y_entries y (y_null y) = []"
  using assms unfolding yaml_laws_def yaml_law_null_def by simp_all

lemma y_built_null [simp]: "y_seq_built y (y_null y)" "y_map_built y (y_null y)"
  by (simp_all add: y_seq_built_def y_map_built_def)

lemma yaml_push:
  assumes "yaml_laws y" and "y_seq_built y n" and "y_defined y x"
  obtains n' where "y_push y n x = Inr n'" "y_defined y n'" "y_seq_built y n'" "y_elems y n' = y_elems y n @ [x]"
proof -
  obtain n' where "y_push y n x = Inr n'" "y_defined y n'" "y_elems y n' = y_elems y n @ [x]"
    using assms unfolding yaml_laws_def yaml_law_push_def by blast
  then show thesis using that unfolding y_seq_built_def by blast
qed

lemma yaml_set:
  assumes "yaml_laws y" and "y_map_built y n" and "y_defined y x" and "k \<notin> fst ` set (y_entries y n)"
  obtains n' where "y_set y n k x = Inr n'" "y_defined y n'" "y_map_built y n'"
    "y_entries y n' = y_entries y n @ [(k, x)]"
proof -
  obtain n' where "y_set y n k x = Inr n'" "y_defined y n'" "y_entries y n' = y_entries y n @ [(k, x)]"
    using assms unfolding yaml_laws_def yaml_law_set_def by blast
  then show thesis using that unfolding y_map_built_def by blast
qed

lemma yaml_get_found:
  assumes "yaml_laws y" and "y_map_built y n" and "k \<noteq> []" and "map_of (y_entries y n) k = Some v"
  shows "y_get y n k = Inr v"
proof -
  have "\<exists>x. y_get y n k = Inr x \<and>
      (case map_of (y_entries y n) k of Some v \<Rightarrow> x = v | None \<Rightarrow> \<not> y_defined y x)"
    using assms(1-3) unfolding yaml_laws_def yaml_law_get_def by blast
  then show ?thesis using assms(4) by simp
qed

lemma yaml_get_missing:
  assumes "yaml_laws y" and "y_map_built y n" and "k \<noteq> []" and "map_of (y_entries y n) k = None"
  obtains x where "y_get y n k = Inr x" "\<not> y_defined y x"
proof -
  have "\<exists>x. y_get y n k = Inr x \<and>
      (case map_of (y_entries y n) k of Some v \<Rightarrow> x = v | None \<Rightarrow> \<not> y_defined y x)"
    using assms(1-3) unfolding yaml_laws_def yaml_law_get_def by blast
  then show thesis using assms(4) that by auto
qed

lemma yaml_string:
  assumes "yaml_laws y"
  shows "y_defined y (y_of_string y s)" "y_as_string y (y_of_string y s) = Inr s"
  using assms unfolding yaml_laws_def yaml_law_string_def by simp_all

section \<open>A document format that satisfies the laws\<close>

text \<open>
  A node has a kind, a text and children: null \<open>~\<close>, scalar \<open>s\<close>, sequence \<open>q\<close>, map \<open>m\<close>; the children of a
  map are entries \<open>e\<close> with the key as text and the value as only child. A node is written as its kind and the
  two lengths in unary, each before what it counts.
\<close>

datatype doc = Doc char string "doc list"

definition unary :: "nat \<Rightarrow> string" where
  "unary n = replicate n CHR ''1'' @ ''.''"

fun doc_dump :: "doc \<Rightarrow> string" where
  "doc_dump (Doc c s ds) = c # unary (length s) @ s @ unary (length ds) @ concat (map doc_dump ds)"

fun read_unary :: "string \<Rightarrow> nat \<times> string" where
  "read_unary [] = (0, [])"
| "read_unary (c # s) =
     (if c = CHR ''1'' then (case read_unary s of (n, r) \<Rightarrow> (Suc n, r)) else (0, s))"

fun doc_parse :: "nat \<Rightarrow> string \<Rightarrow> (doc \<times> string) option"
  and docs_parse :: "nat \<Rightarrow> nat \<Rightarrow> string \<Rightarrow> (doc list \<times> string) option" where
  "doc_parse 0 s = None"
| "doc_parse (Suc k) s =
     (case s of
        [] \<Rightarrow> None
      | c # s' \<Rightarrow>
          (case read_unary s' of (n, r) \<Rightarrow>
            (case read_unary (drop n r) of (m, q) \<Rightarrow>
              (case docs_parse k m q of
                 None \<Rightarrow> None
               | Some (ds, q') \<Rightarrow> Some (Doc c (take n r) ds, q')))))"
| "docs_parse 0 n s = (if n = 0 then Some ([], s) else None)"
| "docs_parse (Suc k) n s =
     (if n = 0 then Some ([], s)
      else case doc_parse k s of
             None \<Rightarrow> None
           | Some (d, r) \<Rightarrow> (case docs_parse k (n - 1) r of None \<Rightarrow> None | Some (ds, r') \<Rightarrow> Some (d # ds, r')))"

lemma read_unary_unary [simp]: "read_unary (unary n @ r) = (n, r)"
  by (induction n) (simp_all add: unary_def)

lemma doc_dump_nonempty: "0 < length (doc_dump d)"
  by (cases d) simp

lemma doc_parse_dump:
  "2 * length (doc_dump d) < k \<Longrightarrow> doc_parse k (doc_dump d @ r) = Some (d, r)"
proof (induction d arbitrary: k r)
  case (Doc c s ds)
  have children: "2 * length (concat (map doc_dump es)) + 1 < j \<Longrightarrow>
      docs_parse j (length es) (concat (map doc_dump es) @ q) = Some (es, q)" if "set es \<subseteq> set ds" for es j q
    using that
  proof (induction es arbitrary: j q)
    case Nil
    then show ?case by (cases j) simp_all
  next
    case (Cons e es)
    from Cons.prems(1) obtain i where j: "j = Suc i" by (cases j) simp_all
    have "doc_parse i (doc_dump e @ concat (map doc_dump es) @ q) = Some (e, concat (map doc_dump es) @ q)"
      using Doc.IH [of e i] Cons.prems j by simp
    moreover have "docs_parse i (length es) (concat (map doc_dump es) @ q) = Some (es, q)"
      using Cons.IH [of i q] Cons.prems j doc_dump_nonempty [of e] by (simp del: length_greater_0_conv)
    ultimately show ?case by (simp add: j)
  qed
  from Doc.prems obtain i where k: "k = Suc i" by (cases k) simp_all
  with Doc.prems have "2 * length (concat (map doc_dump ds)) + 1 < i"
    by (simp add: unary_def)
  from children [OF order.refl this] show ?case by (simp add: k)
qed

fun doc_kind :: "doc \<Rightarrow> char" where
  "doc_kind (Doc c s ds) = c"

definition doc_load :: "string \<Rightarrow> doc result" where
  "doc_load t =
     (case doc_parse (Suc (2 * length t)) t of
        Some (d, r) \<Rightarrow> (if r = [] \<and> doc_kind d \<noteq> CHR ''?'' then Inr d else Inl (Lib_Exception ''yaml''))
      | None \<Rightarrow> Inl (Lib_Exception ''yaml''))"

fun doc_text :: "doc \<Rightarrow> string" where
  "doc_text (Doc c s ds) = s"

fun doc_children :: "doc \<Rightarrow> doc list" where
  "doc_children (Doc c s ds) = ds"

fun doc_entry :: "doc \<Rightarrow> doc \<times> doc" where
  "doc_entry (Doc c s ds) = (Doc CHR ''s'' s [], if ds = [] then Doc CHR ''~'' [] [] else hd ds)"

definition doc_append :: "char \<Rightarrow> doc \<Rightarrow> doc \<Rightarrow> doc result" where
  "doc_append c d x =
     (if doc_kind d = c \<or> doc_kind d = CHR ''~'' then Inr (Doc c (doc_text d) (doc_children d @ [x]))
      else Inl (Lib_Exception ''yaml''))"

definition doc_get :: "doc \<Rightarrow> string \<Rightarrow> doc result" where
  "doc_get d k =
     (if doc_kind d = CHR ''s'' then Inl (Lib_Exception ''yaml'')
      else Inr (case map_of (map (\<lambda>e. (doc_text e, snd (doc_entry e))) (doc_children d)) k of
                  None \<Rightarrow> Doc CHR ''?'' [] [] | Some v \<Rightarrow> v))"

definition doc_yaml :: "doc yaml" where
  "doc_yaml =
     \<lparr>y_load = doc_load, y_dump = (\<lambda>d. Inr (doc_dump d)), y_null = Doc CHR ''~'' [] [],
      y_defined = (\<lambda>d. doc_kind d \<noteq> CHR ''?''), y_is_map = (\<lambda>d. doc_kind d = CHR ''m''),
      y_is_scalar = (\<lambda>d. doc_kind d = CHR ''s''), y_scalar = doc_text,
      y_size = (\<lambda>d. length (doc_children d)), y_at = (\<lambda>d i. doc_children d ! i),
      y_items = (\<lambda>d. map doc_entry (doc_children d)), y_get = doc_get,
      y_push = doc_append CHR ''q'', y_set = (\<lambda>d k x. doc_append CHR ''m'' d (Doc CHR ''e'' k [x])),
      y_as_string = (\<lambda>d. if doc_kind d = CHR ''s'' then Inr (doc_text d) else Inl (Lib_Exception ''yaml'')),
      y_of_string = (\<lambda>s. Doc CHR ''s'' s [])\<rparr>"

lemma doc_load_dump: "doc_kind d \<noteq> CHR ''?'' \<Longrightarrow> doc_load (doc_dump d) = Inr d"
  using doc_parse_dump [of d "Suc (2 * length (doc_dump d))" "[]"] by (simp add: doc_load_def)

lemma doc_elems: "y_elems doc_yaml d = doc_children d"
  by (simp add: y_elems_def doc_yaml_def map_nth)

lemma doc_entries: "y_entries doc_yaml d = map (\<lambda>e. (doc_text e, snd (doc_entry e))) (doc_children d)"
proof -
  have "doc_text (fst (doc_entry e)) = doc_text e" for e by (cases e) simp
  then show ?thesis by (simp add: y_entries_def doc_yaml_def case_prod_beta o_def)
qed

lemma doc_yaml_laws: "yaml_laws doc_yaml"
proof -
  have "yaml_law_emit doc_yaml"
    by (auto simp: yaml_law_emit_def doc_yaml_def doc_load_dump)
       (auto simp: doc_load_def split: option.splits prod.splits if_splits)
  moreover have "yaml_law_null doc_yaml"
    unfolding yaml_law_null_def doc_elems doc_entries by (simp add: doc_yaml_def)
  moreover have "yaml_law_push doc_yaml"
    unfolding yaml_law_push_def y_seq_built_def doc_elems
    by (auto simp: doc_yaml_def doc_append_def split: if_splits)
  moreover have "yaml_law_set doc_yaml"
    unfolding yaml_law_set_def y_map_built_def doc_entries
    by (auto simp: doc_yaml_def doc_append_def split: if_splits)
  moreover have "yaml_law_get doc_yaml"
    unfolding yaml_law_get_def y_map_built_def doc_entries
    by (auto simp: doc_yaml_def doc_append_def doc_get_def split: if_splits option.splits)
  moreover have "yaml_law_string doc_yaml"
    by (simp add: yaml_law_string_def doc_yaml_def)
  ultimately show ?thesis by (simp add: yaml_laws_def)
qed

end
