(* ===== verification/Lexical_Cast.thy ===== *)
theory Lexical_Cast
  imports Yaml_Api
begin

text \<open>
  The specialisations of \<open>LexicalCast\<close> for containers in \<open>src/config.h\<close>. A container is the list
  of its elements in iteration order: a \<open>std::set\<close> is sorted by its \<open>operator<\<close> and a \<open>std::map\<close> by key; for
  the unordered containers, whose order the standard leaves open, the order is the one of insertion. The
  primary template (\<open>boost::lexical_cast\<close>) and yaml-cpp are parameters.
\<close>

section \<open>The casts\<close>

record 'v lexical_cast =
  from_string :: "string \<Rightarrow> 'v result"
  to_string :: "'v \<Rightarrow> string result"

text \<open>The two loops all the specialisations share.\<close>

definition load_seq :: "'n yaml \<Rightarrow> 'v lexical_cast \<Rightarrow> ('v \<Rightarrow> 'c \<Rightarrow> 'c) \<Rightarrow> 'c \<Rightarrow> string \<Rightarrow> 'c result" where
  "load_seq y c ins vec s =
     bind_r (y_load y s) (\<lambda>node.
       fold_r (\<lambda>i vec. bind_r (y_dump y (y_at y node i)) (\<lambda>ss.
                        bind_r (from_string c ss) (\<lambda>v. Inr (ins v vec))))
         [0..<y_size y node] vec)"

definition load_map :: "'n yaml \<Rightarrow> 'v lexical_cast \<Rightarrow> (string \<Rightarrow> 'v \<Rightarrow> 'c \<Rightarrow> 'c) \<Rightarrow> 'c \<Rightarrow> string \<Rightarrow> 'c result" where
  "load_map y c emplace vec s =
     bind_r (y_load y s) (\<lambda>node.
       fold_r (\<lambda>(key, value) vec. bind_r (y_dump y value) (\<lambda>ss.
                        bind_r (from_string c ss) (\<lambda>v. Inr (emplace (y_scalar y key) v vec))))
         (y_items y node) vec)"

definition store_seq :: "'n yaml \<Rightarrow> 'v lexical_cast \<Rightarrow> 'v list \<Rightarrow> string result" where
  "store_seq y c vs =
     bind_r (fold_r (\<lambda>i node. bind_r (to_string c i) (\<lambda>s. bind_r (y_load y s) (y_push y node)))
               vs (y_null y))
       (y_dump y)"

definition store_map :: "'n yaml \<Rightarrow> 'v lexical_cast \<Rightarrow> (string \<times> 'v) list \<Rightarrow> string result" where
  "store_map y c kvs =
     bind_r (fold_r (\<lambda>(key, value) node.
                 bind_r (to_string c value) (\<lambda>s. bind_r (y_load y s) (y_set y node key)))
               kvs (y_null y))
       (y_dump y)"

text \<open>\<open>insert\<close> and \<open>emplace\<close> keep what is there already.\<close>

fun set_insert :: "('v \<Rightarrow> 'v \<Rightarrow> bool) \<Rightarrow> 'v \<Rightarrow> 'v list \<Rightarrow> 'v list" where
  "set_insert lt v [] = [v]"
| "set_insert lt v (x # xs) =
     (if lt v x then v # x # xs else if lt x v then x # set_insert lt v xs else x # xs)"

definition uset_insert :: "'v \<Rightarrow> 'v list \<Rightarrow> 'v list" where
  "uset_insert v xs = (if v \<in> set xs then xs else xs @ [v])"

definition smap_emplace :: "'k::linorder \<Rightarrow> 'v \<Rightarrow> ('k, 'v) smap \<Rightarrow> ('k, 'v) smap" where
  "smap_emplace k v m = (case smap_find k m of None \<Rightarrow> smap_put k v m | Some _ \<Rightarrow> m)"

definition umap_emplace :: "'k \<Rightarrow> 'v \<Rightarrow> ('k \<times> 'v) list \<Rightarrow> ('k \<times> 'v) list" where
  "umap_emplace k v m = (case map_of m k of None \<Rightarrow> m @ [(k, v)] | Some _ \<Rightarrow> m)"

definition LexicalCast_vector :: "'n yaml \<Rightarrow> 'v lexical_cast \<Rightarrow> 'v list lexical_cast" where
  "LexicalCast_vector y c =
     \<lparr>from_string = load_seq y c (\<lambda>v vec. vec @ [v]) [], to_string = store_seq y c\<rparr>"

definition LexicalCast_list :: "'n yaml \<Rightarrow> 'v lexical_cast \<Rightarrow> 'v list lexical_cast" where
  "LexicalCast_list y c =
     \<lparr>from_string = load_seq y c (\<lambda>v vec. vec @ [v]) [], to_string = store_seq y c\<rparr>"

definition LexicalCast_set :: "('v \<Rightarrow> 'v \<Rightarrow> bool) \<Rightarrow> 'n yaml \<Rightarrow> 'v lexical_cast \<Rightarrow> 'v list lexical_cast" where
  "LexicalCast_set lt y c = \<lparr>from_string = load_seq y c (set_insert lt) [], to_string = store_seq y c\<rparr>"

definition LexicalCast_unordered_set :: "'n yaml \<Rightarrow> 'v lexical_cast \<Rightarrow> 'v list lexical_cast" where
  "LexicalCast_unordered_set y c = \<lparr>from_string = load_seq y c uset_insert [], to_string = store_seq y c\<rparr>"

definition LexicalCast_map :: "'n yaml \<Rightarrow> 'v lexical_cast \<Rightarrow> (string, 'v) smap lexical_cast" where
  "LexicalCast_map y c = \<lparr>from_string = load_map y c smap_emplace [], to_string = store_map y c\<rparr>"

definition LexicalCast_unordered_map :: "'n yaml \<Rightarrow> 'v lexical_cast \<Rightarrow> (string \<times> 'v) list lexical_cast" where
  "LexicalCast_unordered_map y c = \<lparr>from_string = load_map y c umap_emplace [], to_string = store_map y c\<rparr>"

section \<open>Round trips\<close>

text \<open>
  A value survives a cast when its text is read back to it, and so is the text that yaml-cpp writes for the
  document the text is.
\<close>

definition cast_ok :: "'n yaml \<Rightarrow> 'v lexical_cast \<Rightarrow> 'v \<Rightarrow> bool" where
  "cast_ok y c v \<longleftrightarrow>
     (\<exists>t n t'. to_string c v = Inr t \<and> from_string c t = Inr v \<and>
               y_load y t = Inr n \<and> y_dump y n = Inr t' \<and> from_string c t' = Inr v)"

definition reads_as :: "'n yaml \<Rightarrow> 'v lexical_cast \<Rightarrow> 'n \<Rightarrow> 'v \<Rightarrow> bool" where
  "reads_as y c n v \<longleftrightarrow> (\<exists>t. y_dump y n = Inr t \<and> from_string c t = Inr v)"

lemma store_seq_elems:
  assumes "yaml_laws y" and "\<forall>v\<in>set vs. cast_ok y c v" and "y_seq_built y n" and "y_defined y n"
  shows "\<exists>n' ns. fold_r (\<lambda>i node. bind_r (to_string c i) (\<lambda>s. bind_r (y_load y s) (y_push y node))) vs n = Inr n' \<and>
           y_defined y n' \<and> y_elems y n' = y_elems y n @ ns \<and> list_all2 (reads_as y c) ns vs"
  using assms(2-4)
proof (induction vs arbitrary: n)
  case Nil
  then show ?case by simp
next
  case (Cons v vs)
  from Cons.prems(1) obtain t x t' where v: "to_string c v = Inr t" "y_load y t = Inr x" "y_dump y x = Inr t'"
    "from_string c t' = Inr v" by (auto simp: cast_ok_def)
  obtain n1 where n1: "y_push y n x = Inr n1" "y_defined y n1" "y_seq_built y n1" "y_elems y n1 = y_elems y n @ [x]"
    using yaml_push [OF assms(1) Cons.prems(2) yaml_load_defined [OF assms(1) v(2)]] by blast
  have "reads_as y c x v" using v by (simp add: reads_as_def)
  moreover obtain n' ns where
    "fold_r (\<lambda>i node. bind_r (to_string c i) (\<lambda>s. bind_r (y_load y s) (y_push y node))) vs n1 = Inr n'"
    "y_defined y n'" "y_elems y n' = y_elems y n1 @ ns" "list_all2 (reads_as y c) ns vs"
    using Cons.IH [OF _ n1(3,2)] Cons.prems(1) by auto
  ultimately show ?case
    by (intro exI [of _ n'] exI [of _ "x # ns"]) (simp add: v n1)
qed

lemma store_map_entries:
  assumes "yaml_laws y" and "\<forall>v\<in>snd ` set kvs. cast_ok y c v" and "y_map_built y n" and "y_defined y n"
    and "distinct (map fst kvs)" and "fst ` set kvs \<inter> fst ` set (y_entries y n) = {}"
  shows "\<exists>n' ns. fold_r (\<lambda>(key, value) node. bind_r (to_string c value) (\<lambda>s. bind_r (y_load y s) (y_set y node key)))
                   kvs n = Inr n' \<and>
           y_defined y n' \<and> y_entries y n' = y_entries y n @ ns \<and>
           list_all2 (\<lambda>(k, x) (j, v). k = j \<and> reads_as y c x v) ns kvs"
  using assms(2-6)
proof (induction kvs arbitrary: n)
  case Nil
  then show ?case by simp
next
  case (Cons kv kvs)
  obtain k v where kv: "kv = (k, v)" by (cases kv)
  from Cons.prems(1) obtain t x t' where v: "to_string c v = Inr t" "y_load y t = Inr x" "y_dump y x = Inr t'"
    "from_string c t' = Inr v" by (auto simp: cast_ok_def kv)
  have "k \<notin> fst ` set (y_entries y n)" using Cons.prems(5) by (simp add: kv)
  then obtain n1 where n1: "y_set y n k x = Inr n1" "y_defined y n1" "y_map_built y n1"
    "y_entries y n1 = y_entries y n @ [(k, x)]"
    using yaml_set [OF assms(1) Cons.prems(2) yaml_load_defined [OF assms(1) v(2)]] by blast
  have "reads_as y c x v" using v by (simp add: reads_as_def)
  moreover have "fst ` set kvs \<inter> fst ` set (y_entries y n1) = {}"
    using Cons.prems(4,5) by (auto simp: n1(4) kv)
  then obtain n' ns where
    "fold_r (\<lambda>(key, value) node. bind_r (to_string c value) (\<lambda>s. bind_r (y_load y s) (y_set y node key))) kvs n1 = Inr n'"
    "y_defined y n'" "y_entries y n' = y_entries y n1 @ ns"
    "list_all2 (\<lambda>(k, x) (j, v). k = j \<and> reads_as y c x v) ns kvs"
    using Cons.IH [OF _ n1(3,2)] Cons.prems(1,4) by auto
  ultimately show ?case
    by (intro exI [of _ n'] exI [of _ "(k, x) # ns"]) (simp add: v n1 kv)
qed

lemma load_seq_elems:
  assumes "y_load y t = Inr n" and "list_all2 (reads_as y c) (y_elems y n) vs"
  shows "load_seq y c ins vec t = Inr (fold ins vs vec)"
proof -
  have loop: "fold_r (\<lambda>x vec. bind_r (y_dump y x) (\<lambda>ss. bind_r (from_string c ss) (\<lambda>v. Inr (ins v vec)))) ns vec =
      Inr (fold ins vs vec)" if "list_all2 (reads_as y c) ns vs" for ns vec
    using that by (induction arbitrary: vec) (auto simp: reads_as_def)
  show ?thesis
    using loop [OF assms(2), of vec] assms(1) by (simp add: load_seq_def y_elems_def fold_r_map)
qed

lemma load_map_entries:
  assumes "y_load y t = Inr n"
    and "list_all2 (\<lambda>(k, x) (j, v). k = j \<and> reads_as y c x v) (y_entries y n) kvs"
  shows "load_map y c emplace vec t = Inr (fold (\<lambda>(k, v). emplace k v) kvs vec)"
proof -
  have loop: "fold_r (\<lambda>(k, x) vec. bind_r (y_dump y x) (\<lambda>ss. bind_r (from_string c ss) (\<lambda>v. Inr (emplace k v vec))))
        ns vec = Inr (fold (\<lambda>(k, v). emplace k v) kvs vec)"
    if "list_all2 (\<lambda>(k, x) (j, v). k = j \<and> reads_as y c x v) ns kvs" for ns vec
    using that by (induction arbitrary: vec) (auto simp: reads_as_def)
  have "(\<lambda>e. case case e of (k, v) \<Rightarrow> (y_scalar y k, v) of (k, x) \<Rightarrow> \<lambda>vec. bind_r (y_dump y x)
          (\<lambda>ss. bind_r (from_string c ss) (\<lambda>v. Inr (emplace k v vec)))) =
        (\<lambda>(key, value) vec. bind_r (y_dump y value) (\<lambda>ss.
                        bind_r (from_string c ss) (\<lambda>v. Inr (emplace (y_scalar y key) v vec))))"
    by (auto simp: fun_eq_iff)
  then show ?thesis
    using loop [OF assms(2), of vec] assms(1) by (simp add: load_map_def y_entries_def fold_r_map)
qed

section \<open>Containers\<close>

text \<open>
  What the casts rely on of a container: inserting a new element behind the elements that are there puts it at the
  end, where \<open>ok\<close> says which lists of elements are containers in iteration order.
\<close>

locale container =
  fixes ins :: "'e \<Rightarrow> 'e list \<Rightarrow> 'e list"
    and ok :: "'e list \<Rightarrow> bool"
  assumes ok_prefix: "ok (es @ [e]) \<Longrightarrow> ok es"
    and ins_new: "ok (es @ [e]) \<Longrightarrow> ins e es = es @ [e]"
begin

text \<open>Inserting the elements of a container one by one rebuilds it.\<close>

lemma rebuild: "ok es \<Longrightarrow> fold ins es [] = es"
proof (induction es rule: rev_induct)
  case (snoc e es)
  from snoc.IH [OF ok_prefix [OF snoc.prems]] ins_new [OF snoc.prems] show ?case by simp
qed simp

end

text \<open>
  A cast that stores with \<open>store_seq\<close> or \<open>store_map\<close> and reads with an insertion that rebuilds the list.
\<close>

lemma seq_cast_ok:
  assumes laws: "yaml_laws y" and "\<forall>v\<in>set vs. cast_ok y c v" and ins: "fold ins vs [] = vs"
  shows "cast_ok y \<lparr>from_string = load_seq y c ins [], to_string = store_seq y c\<rparr> vs"
proof -
  obtain n ns where n: "fold_r (\<lambda>i node. bind_r (to_string c i) (\<lambda>s. bind_r (y_load y s) (y_push y node))) vs (y_null y) = Inr n"
    "y_defined y n" "y_elems y n = ns" "list_all2 (reads_as y c) ns vs"
    using store_seq_elems [OF laws assms(2) y_built_null(1)] yaml_null [OF laws] by auto
  obtain t where t: "y_dump y n = Inr t" "y_load y t = Inr n"
    using yaml_dump_load [OF laws n(2)] by blast
  have "load_seq y c ins [] t = Inr vs" using load_seq_elems [OF t(2), of c vs ins "[]"] n ins by simp
  moreover have "store_seq y c vs = Inr t" using n t by (simp add: store_seq_def)
  ultimately show ?thesis using t by (simp add: cast_ok_def)
qed

lemma map_cast_ok:
  assumes laws: "yaml_laws y" and "\<forall>v\<in>snd ` set kvs. cast_ok y c v" and "distinct (map fst kvs)"
    and ins: "fold (\<lambda>(k, v). emplace k v) kvs [] = kvs"
  shows "cast_ok y \<lparr>from_string = load_map y c emplace [], to_string = store_map y c\<rparr> kvs"
proof -
  obtain n ns where n: "fold_r (\<lambda>(key, value) node. bind_r (to_string c value) (\<lambda>s. bind_r (y_load y s) (y_set y node key)))
      kvs (y_null y) = Inr n"
    "y_defined y n" "y_entries y n = ns" "list_all2 (\<lambda>(k, x) (j, v). k = j \<and> reads_as y c x v) ns kvs"
    using store_map_entries [OF laws assms(2) y_built_null(2) _ assms(3)] yaml_null [OF laws] by auto
  obtain t where t: "y_dump y n = Inr t" "y_load y t = Inr n"
    using yaml_dump_load [OF laws n(2)] by blast
  have "load_map y c emplace [] t = Inr kvs" using load_map_entries [OF t(2), of c kvs emplace "[]"] n ins by simp
  moreover have "store_map y c kvs = Inr t" using n t by (simp add: store_map_def)
  ultimately show ?thesis using t by (simp add: cast_ok_def)
qed

context container
begin

lemmas seq_cast = seq_cast_ok [OF _ _ rebuild]

end

text \<open>The containers of the standard library that the specialisations are for.\<close>

lemma set_insert_last:
  assumes "\<forall>x\<in>set xs. lt x v" and "\<forall>a b. lt a b \<longrightarrow> \<not> lt b a"
  shows "set_insert lt v xs = xs @ [v]"
  using assms(1) by (induction xs) (use assms(2) in auto)

lemma smap_put_last: "\<forall>j\<in>fst ` set m. j < k \<Longrightarrow> smap_put k v m = m @ [(k, v)]"
proof (induction k v m rule: smap_put.induct)
  case (2 k v k' v' m)
  then show ?case by auto
qed simp

interpretation vec: container "\<lambda>v vec. vec @ [v]" "\<lambda>_. True"
  by unfold_locales simp_all

interpretation ordered_set: container "set_insert lt" "\<lambda>vs. sorted_wrt lt vs \<and> (\<forall>a b. lt a b \<longrightarrow> \<not> lt b a)"
  for lt :: "'v \<Rightarrow> 'v \<Rightarrow> bool"
  by unfold_locales (auto simp: sorted_wrt_append intro: set_insert_last)

interpretation hashed_set: container uset_insert distinct
  by unfold_locales (auto simp: uset_insert_def)

interpretation ordered_map: container "\<lambda>(k, v). smap_emplace k v" smap_ok
proof unfold_locales
  fix es :: "('k :: linorder, 'v) smap" and e
  assume ok: "smap_ok (es @ [e])"
  then show "smap_ok es" by (simp add: smap_ok_def sorted_wrt_append)
  have lt: "\<forall>j\<in>fst ` set es. j < fst e" using ok by (auto simp: smap_ok_def sorted_wrt_append)
  then have "smap_find (fst e) es = None" by auto
  then show "(case e of (k, v) \<Rightarrow> smap_emplace k v) es = es @ [e]"
    using smap_put_last [OF lt, of "snd e"]
    by (simp add: smap_emplace_def split_def del: smap_find_eq_None)
qed

interpretation hashed_map: container "\<lambda>(k, v). umap_emplace k v" "\<lambda>kvs. distinct (map fst kvs)"
  by unfold_locales (auto simp: umap_emplace_def map_of_eq_None_iff [THEN iffD2])

section \<open>Properties\<close>

text \<open>C27: What a container's \<open>toString\<close> cast writes, its \<open>fromString\<close> cast reads back, provided the cast
  of the elements survives a trip through yaml-cpp. The casts of containers have that property again,
  so this holds for containers of containers.\<close>

theorem container_casts_roundtrip:
  assumes laws: "yaml_laws y" and elems: "\<forall>v\<in>set vs. cast_ok y c v"
  shows "cast_ok y (LexicalCast_vector y c) vs \<and> cast_ok y (LexicalCast_list y c) vs \<and>
         (sorted_wrt lt vs \<and> (\<forall>a b. lt a b \<longrightarrow> \<not> lt b a) \<longrightarrow> cast_ok y (LexicalCast_set lt y c) vs) \<and>
         (distinct vs \<longrightarrow> cast_ok y (LexicalCast_unordered_set y c) vs)"
  unfolding LexicalCast_vector_def LexicalCast_list_def LexicalCast_set_def LexicalCast_unordered_set_def
  by (intro conjI impI vec.seq_cast [OF laws elems] ordered_set.seq_cast [OF laws elems]
      hashed_set.seq_cast [OF laws elems]) simp_all

text \<open>The text of a scalar is the scalar itself in the example documents.\<close>

definition doc_cast :: "string lexical_cast" where
  "doc_cast = \<lparr>from_string = (\<lambda>t. bind_r (doc_load t) (\<lambda>d. Inr (doc_text d))),
               to_string = (\<lambda>s. Inr (doc_dump (Doc CHR ''s'' s [])))\<rparr>"

lemma doc_cast_ok: "cast_ok doc_yaml doc_cast s"
  by (simp add: cast_ok_def doc_cast_def doc_load_dump doc_yaml_def del: doc_dump.simps)

theorem container_casts_roundtrip_witness:
  "cast_ok doc_yaml (LexicalCast_vector doc_yaml (LexicalCast_list doc_yaml doc_cast)) [[''a'', ''b''], [], [''c'']]"
proof -
  have "cast_ok doc_yaml (LexicalCast_list doc_yaml doc_cast) vs" for vs
    using container_casts_roundtrip [OF doc_yaml_laws, of vs doc_cast "\<lambda>_ _. False"] doc_cast_ok by blast
  then show ?thesis
    using container_casts_roundtrip [OF doc_yaml_laws, of _ "LexicalCast_list doc_yaml doc_cast" "\<lambda>_ _. False"] by blast
qed

text \<open>The same for the two kinds of map from strings.\<close>

theorem map_casts_roundtrip:
  assumes laws: "yaml_laws y" and vals: "\<forall>v\<in>snd ` set kvs. cast_ok y c v"
  shows "(smap_ok kvs \<longrightarrow> cast_ok y (LexicalCast_map y c) kvs) \<and>
         (distinct (map fst kvs) \<longrightarrow> cast_ok y (LexicalCast_unordered_map y c) kvs)"
  unfolding LexicalCast_map_def LexicalCast_unordered_map_def
  using ordered_map.rebuild [of kvs] hashed_map.rebuild [of kvs]
  by (intro conjI impI map_cast_ok [OF laws vals]) (simp_all add: smap_ok_distinct)

theorem map_casts_roundtrip_witness:
  "cast_ok doc_yaml (LexicalCast_map doc_yaml doc_cast) [(''host'', ''localhost''), (''port'', ''8020'')]"
  using map_casts_roundtrip [OF doc_yaml_laws, of "[(''host'', ''localhost''), (''port'', ''8020'')]" doc_cast] doc_cast_ok
  by (simp add: smap_ok_def less_char_def list_less_def)

end
