(* ===== verification/Log_Define.thy ===== *)
theory Log_Define
  imports Log_Invariant Lexical_Cast
begin

text \<open>
  The logging configuration as data (\<open>src/log.cpp\<close>): \<open>LogAppenderDefine\<close>, \<open>LogDefine\<close> with its two
  comparisons, the casts between \<open>LogDefine\<close> and YAML text, and the \<open>toYamlString\<close> functions of
  appenders, loggers and the manager. A \<open>std::set<LogDefine>\<close> is a list sorted by \<open>operator<\<close>, which
  compares names only.
\<close>

section \<open>Definitions of loggers\<close>

text \<open>\<open>ad_type\<close> is 1 for a file appender and 2 for a console appender.\<close>

record log_appender_define =
  ad_type :: int
  ad_level :: level
  ad_formatter :: string
  ad_file :: string

record log_define =
  ld_name :: string
  ld_level :: level
  ld_appenders :: "log_appender_define list"
  ld_formatter :: string

definition LogAppenderDefine_ctor :: log_appender_define where
  "LogAppenderDefine_ctor = \<lparr>ad_type = 0, ad_level = UNKNOW, ad_formatter = [], ad_file = []\<rparr>"

definition LogDefine_ctor :: log_define where
  "LogDefine_ctor = \<lparr>ld_name = [], ld_level = UNKNOW, ld_appenders = [], ld_formatter = []\<rparr>"

definition LogAppenderDefine_eq :: "log_appender_define \<Rightarrow> log_appender_define \<Rightarrow> bool" where
  "LogAppenderDefine_eq a b \<longleftrightarrow>
     ad_type a = ad_type b \<and> ad_level a = ad_level b \<and> ad_formatter a = ad_formatter b \<and> ad_file a = ad_file b"

definition LogDefine_eq :: "log_define \<Rightarrow> log_define \<Rightarrow> bool" where
  "LogDefine_eq a b \<longleftrightarrow>
     ld_name a = ld_name b \<and> ld_level a = ld_level b \<and> ld_formatter a = ld_formatter b \<and>
     list_all2 LogAppenderDefine_eq (ld_appenders a) (ld_appenders b)"

definition LogDefine_less :: "log_define \<Rightarrow> log_define \<Rightarrow> bool" where
  "LogDefine_less a b \<longleftrightarrow> ld_name a < ld_name b"

lemma LogAppenderDefine_eq_iff [simp]: "LogAppenderDefine_eq a b \<longleftrightarrow> a = b"
  by (auto simp: LogAppenderDefine_eq_def intro: log_appender_define.equality)

lemma LogDefine_eq_iff [simp]: "LogDefine_eq a b \<longleftrightarrow> a = b"
proof -
  have "LogAppenderDefine_eq = (=)" by (simp add: fun_eq_iff)
  then show ?thesis by (auto simp: LogDefine_eq_def list_all2_eq [symmetric] intro: log_define.equality)
qed

section \<open>Reading a definition\<close>

text \<open>
  A call that writes to \<open>std::cout\<close> and can throw: the text written, and the result.
\<close>

type_synonym 'a printing = "string \<times> 'a result"

definition quietly :: "'a result \<Rightarrow> 'a printing" where
  "quietly m = ([], m)"

definition bind_p :: "'a printing \<Rightarrow> ('a \<Rightarrow> 'b printing) \<Rightarrow> 'b printing" where
  "bind_p m f =
     (case snd m of
        Inl e \<Rightarrow> (fst m, Inl e)
      | Inr x \<Rightarrow> (fst m @ fst (f x), snd (f x)))"

text \<open>\<open>std::cout << msg << node << std::endl;\<close> goes on with \<open>next\<close>.\<close>

definition print_line :: "'n yaml \<Rightarrow> string \<Rightarrow> 'n \<Rightarrow> 'a result \<Rightarrow> 'a printing" where
  "print_line y msg node next_result =
     (case y_dump y node of Inl e \<Rightarrow> (msg, Inl e) | Inr t \<Rightarrow> (msg @ t @ [CHR 0x0A], next_result))"

text \<open>\<open>node[key]\<close> as a string if it is defined, and the given string otherwise.\<close>

definition get_string :: "'n yaml \<Rightarrow> 'n \<Rightarrow> string \<Rightarrow> string \<Rightarrow> string printing" where
  "get_string y node key otherwise =
     bind_p (quietly (y_get y node key)) (\<lambda>v.
       if y_defined y v then quietly (y_as_string y v) else quietly (Inr otherwise))"

text \<open>The body of the loop over \<open>node["appenders"]\<close>; \<open>None\<close> is a \<open>continue\<close>.\<close>

definition load_appender_define :: "'n yaml \<Rightarrow> 'n \<Rightarrow> log_appender_define option printing" where
  "load_appender_define y appender_node =
     bind_p (quietly (y_get y appender_node ''type'')) (\<lambda>type_node.
       if \<not> y_defined y type_node
       then print_line y ''log config error: appender type is null, '' appender_node (Inr None)
       else bind_p (quietly (y_as_string y type_node)) (\<lambda>type.
         if type = ''FileLogAppender'' then
           bind_p (quietly (y_get y appender_node ''file'')) (\<lambda>file_node.
             if \<not> y_defined y file_node
             then print_line y ''log config error: fileappender file is null, '' appender_node (Inr None)
             else bind_p (quietly (y_as_string y file_node)) (\<lambda>file_name.
               bind_p (get_string y appender_node ''formatter'' []) (\<lambda>formatter.
                 quietly (Inr (Some (LogAppenderDefine_ctor
                   \<lparr>ad_type := 1, ad_file := file_name, ad_formatter := formatter\<rparr>))))))
         else if type = ''StdoutLogAppender'' then quietly (Inr (Some (LogAppenderDefine_ctor\<lparr>ad_type := 2\<rparr>)))
         else print_line y ''log config error: appender type is invalid, '' appender_node (Inr None)))"

fun load_appender_defines ::
  "'n yaml \<Rightarrow> 'n list \<Rightarrow> log_appender_define list \<Rightarrow> log_appender_define list printing" where
  "load_appender_defines y [] appenders = quietly (Inr appenders)"
| "load_appender_defines y (n # ns) appenders =
     bind_p (load_appender_define y n) (\<lambda>r.
       load_appender_defines y ns (case r of None \<Rightarrow> appenders | Some a \<Rightarrow> appenders @ [a]))"

definition LogDefine_of_node :: "'n yaml \<Rightarrow> 'n \<Rightarrow> log_define printing" where
  "LogDefine_of_node y node =
     bind_p (quietly (y_get y node ''name'')) (\<lambda>name_node.
       if \<not> y_defined y name_node
       then print_line y ''log config error: name is null, '' node (Inl (Logic_Error ''log config name is null''))
       else bind_p (quietly (y_as_string y name_node)) (\<lambda>name.
         bind_p (get_string y node ''level'' []) (\<lambda>level.
           bind_p (get_string y node ''formatter'' []) (\<lambda>formatter.
             bind_p (quietly (y_get y node ''appenders'')) (\<lambda>appenders_node.
               bind_p (if y_defined y appenders_node
                       then load_appender_defines y (y_elems y appenders_node) []
                       else quietly (Inr [])) (\<lambda>appenders.
                 quietly (Inr (LogDefine_ctor\<lparr>ld_name := name, ld_level := LogLevel_FromString level,
                   ld_formatter := formatter, ld_appenders := appenders\<rparr>))))))))"

definition LogDefine_from_string :: "'n yaml \<Rightarrow> string \<Rightarrow> log_define printing" where
  "LogDefine_from_string y str = bind_p (quietly (y_load y str)) (LogDefine_of_node y)"

section \<open>Writing a definition\<close>

text \<open>\<open>if (cond) node[key] = s;\<close>\<close>

definition set_string :: "'n yaml \<Rightarrow> bool \<Rightarrow> string \<Rightarrow> string \<Rightarrow> 'n \<Rightarrow> 'n result" where
  "set_string y cond key s node = (if cond then y_set y node key (y_of_string y s) else Inr node)"

text \<open>
  \<open>node["appenders"].push_back(x)\<close> for the elements of a list: the sequence is built first and
  attached once, since no other key of \<open>node\<close> is set in between; with no elements \<open>node\<close> gets no key.
\<close>

definition set_appenders :: "'n yaml \<Rightarrow> ('a \<Rightarrow> 'n result) \<Rightarrow> 'a list \<Rightarrow> 'n \<Rightarrow> 'n result" where
  "set_appenders y build xs node =
     bind_r (fold_r (\<lambda>x seq. bind_r (build x) (y_push y seq)) xs (y_null y)) (\<lambda>seq.
       if xs = [] then Inr node else y_set y node ''appenders'' seq)"

text \<open>The level replaces the whole node: \<open>appender_node = LogLevel::ToString(...)\<close>.\<close>

definition store_appender_define :: "'n yaml \<Rightarrow> log_appender_define \<Rightarrow> 'n result" where
  "store_appender_define y a =
     bind_r (if ad_type a = 1 then
               bind_r (y_set y (y_null y) ''type'' (y_of_string y ''FileLogAppender'')) (\<lambda>n.
                 y_set y n ''file'' (y_of_string y (ad_file a)))
             else if ad_type a = 2 then y_set y (y_null y) ''type'' (y_of_string y ''StdoutLogAppender'')
             else Inr (y_null y)) (\<lambda>n.
       set_string y (ad_formatter a \<noteq> []) ''formatter'' (ad_formatter a)
         (if ad_level a \<noteq> UNKNOW then y_of_string y (LogLevel_ToString (ad_level a)) else n))"

definition LogDefine_to_string :: "'n yaml \<Rightarrow> log_define \<Rightarrow> string result" where
  "LogDefine_to_string y d =
     bind_r (y_set y (y_null y) ''name'' (y_of_string y (ld_name d))) (\<lambda>n.
       bind_r (set_string y (ld_level d \<noteq> UNKNOW) ''level'' (LogLevel_ToString (ld_level d)) n) (\<lambda>n.
         bind_r (set_string y (ld_formatter d \<noteq> []) ''formatter'' (ld_formatter d) n) (\<lambda>n.
           bind_r (set_appenders y (store_appender_define y) (ld_appenders d) n) (y_dump y))))"

definition LexicalCast_LogDefine :: "'n yaml \<Rightarrow> log_define lexical_cast" where
  "LexicalCast_LogDefine y =
     \<lparr>from_string = (\<lambda>str. snd (LogDefine_from_string y str)), to_string = LogDefine_to_string y\<rparr>"

text \<open>The cast of the variable \<open>logs\<close>.\<close>

definition LexicalCast_log_defines :: "'n yaml \<Rightarrow> log_define list lexical_cast" where
  "LexicalCast_log_defines y = LexicalCast_set LogDefine_less y (LexicalCast_LogDefine y)"

text \<open>The same conversion to a set with what it prints; the lemma \<open>LogDefines_from_string_cast\<close> relates the two.\<close>

fun load_log_defines :: "'n yaml \<Rightarrow> 'n list \<Rightarrow> log_define list \<Rightarrow> log_define list printing" where
  "load_log_defines y [] vec = quietly (Inr vec)"
| "load_log_defines y (n # ns) vec =
     bind_p (quietly (y_dump y n)) (\<lambda>ss.
       bind_p (LogDefine_from_string y ss) (\<lambda>v. load_log_defines y ns (set_insert LogDefine_less v vec)))"

definition LogDefines_from_string :: "'n yaml \<Rightarrow> string \<Rightarrow> log_define list printing" where
  "LogDefines_from_string y v = bind_p (quietly (y_load y v)) (\<lambda>node. load_log_defines y (y_elems y node) [])"

section \<open>The \<open>toYamlString\<close> functions\<close>

definition StdoutLogAppender_toYamlString :: "'n yaml \<Rightarrow> appender \<Rightarrow> string result" where
  "StdoutLogAppender_toYamlString y ap =
     bind_r (y_set y (y_null y) ''type'' (y_of_string y ''StdoutLogAppender'')) (\<lambda>n.
       bind_r (set_string y (ap_level ap \<noteq> UNKNOW) ''level'' (LogLevel_ToString (ap_level ap)) n) (\<lambda>n.
         bind_r (case ap_formatter ap of
                   None \<Rightarrow> Inr n
                 | Some fm \<Rightarrow> set_string y (ap_has_formatter ap) ''formatter'' (fm_pattern fm) n) (y_dump y)))"

definition FileLogAppender_toYamlString :: "'n yaml \<Rightarrow> string \<Rightarrow> appender \<Rightarrow> string result" where
  "FileLogAppender_toYamlString y filename ap =
     bind_r (y_set y (y_null y) ''type'' (y_of_string y ''FileLogAppender'')) (\<lambda>n.
       bind_r (y_set y n ''file'' (y_of_string y filename)) (\<lambda>n.
         bind_r (set_string y (ap_level ap \<noteq> UNKNOW) ''level'' (LogLevel_ToString (ap_level ap)) n) (\<lambda>n.
           bind_r (case ap_formatter ap of
                     None \<Rightarrow> Inr n
                   | Some fm \<Rightarrow> set_string y (ap_has_formatter ap) ''formatter'' (fm_pattern fm) n) (y_dump y))))"

definition LogAppender_toYamlString :: "'n yaml \<Rightarrow> nat \<Rightarrow> log_world \<Rightarrow> string result" where
  "LogAppender_toYamlString y a w =
     bind_r (deref_appender w a) (\<lambda>ap.
       case ap_sink ap of
         Stdout_Sink \<Rightarrow> StdoutLogAppender_toYamlString y ap
       | File_Sink filename f t \<Rightarrow> FileLogAppender_toYamlString y filename ap)"

definition Logger_toYamlString :: "'n yaml \<Rightarrow> nat \<Rightarrow> log_world \<Rightarrow> string result" where
  "Logger_toYamlString y a w =
     bind_r (deref_logger w a) (\<lambda>l.
       bind_r (y_set y (y_null y) ''name'' (y_of_string y (lg_name l))) (\<lambda>n.
         bind_r (y_set y n ''level'' (y_of_string y (LogLevel_ToString (lg_level l)))) (\<lambda>n.
           bind_r (case lg_formatter l of
                     None \<Rightarrow> Inr n
                   | Some fm \<Rightarrow> y_set y n ''formatter'' (y_of_string y (fm_pattern fm))) (\<lambda>n.
             bind_r (set_appenders y (\<lambda>p. bind_r (LogAppender_toYamlString y p w) (y_load y))
                       (lg_appenders l) n) (y_dump y)))))"

definition LoggerManager_toYamlString :: "'n yaml \<Rightarrow> log_world \<Rightarrow> string result" where
  "LoggerManager_toYamlString y w =
     bind_r (fold_r (\<lambda>(name, logger) node.
                bind_r (Logger_toYamlString y logger w) (\<lambda>s. bind_r (y_load y s) (y_push y node)))
              (lw_loggers_map w) (y_null y))
       (y_dump y)"

section \<open>What a node built by assignments is read as\<close>

definition holds :: "'n yaml \<Rightarrow> 'n \<Rightarrow> (string \<times> 'n) list \<Rightarrow> bool" where
  "holds y n kvs \<longleftrightarrow> y_map_built y n \<and> y_defined y n \<and> y_entries y n = kvs"

definition opt_entry :: "'n yaml \<Rightarrow> bool \<Rightarrow> string \<Rightarrow> string \<Rightarrow> (string \<times> 'n) list" where
  "opt_entry y cond key s = (if cond then [(key, y_of_string y s)] else [])"

lemma map_of_opt_entry [simp]:
  "map_of (opt_entry y cond key s) k = (if cond \<and> k = key then Some (y_of_string y s) else None)"
  by (simp add: opt_entry_def)

lemma keys_opt_entry [simp]: "fst ` set (opt_entry y cond key s) = {k. cond \<and> k = key}"
  by (auto simp: opt_entry_def)

lemma holds_null: "yaml_laws y \<Longrightarrow> holds y (y_null y) []"
  by (simp add: holds_def yaml_null)

lemma holds_set:
  assumes "yaml_laws y" and "holds y n kvs" and "y_defined y x" and "k \<notin> fst ` set kvs"
  obtains n' where "y_set y n k x = Inr n'" "holds y n' (kvs @ [(k, x)])"
  using assms yaml_set [of y n x k] unfolding holds_def by metis

lemma holds_set_string:
  assumes "yaml_laws y" and "holds y n kvs" and "cond \<Longrightarrow> k \<notin> fst ` set kvs"
  obtains n' where "set_string y cond k s n = Inr n'" "holds y n' (kvs @ opt_entry y cond k s)"
proof (cases cond)
  case True
  then obtain n' where "y_set y n k (y_of_string y s) = Inr n'" "holds y n' (kvs @ [(k, y_of_string y s)])"
    using holds_set [OF assms(1,2) yaml_string(1) [OF assms(1)]] assms(3) by blast
  with True that show thesis by (simp add: set_string_def opt_entry_def)
next
  case False
  with assms(2) that show thesis by (simp add: set_string_def opt_entry_def)
qed

lemma holds_get:
  "yaml_laws y \<Longrightarrow> holds y n kvs \<Longrightarrow> k \<noteq> [] \<Longrightarrow> map_of kvs k = Some v \<Longrightarrow> y_get y n k = Inr v"
  by (simp add: holds_def yaml_get_found)

lemma holds_get_None:
  assumes "yaml_laws y" and "holds y n kvs" and "k \<noteq> []" and "map_of kvs k = None"
  obtains x where "y_get y n k = Inr x" "\<not> y_defined y x"
  using assms yaml_get_missing unfolding holds_def by metis

lemma holds_defined: "holds y n kvs \<Longrightarrow> y_defined y n"
  by (simp add: holds_def)

lemma bind_p_quietly [simp]:
  "bind_p (quietly (Inr x)) f = f x" "bind_p (quietly (Inl e)) f = quietly (Inl e)"
  by (simp_all add: bind_p_def quietly_def)

lemma get_string_holds:
  assumes "yaml_laws y" and "holds y n kvs" and "k \<noteq> []"
    and "map_of kvs k = (if cond then Some (y_of_string y s) else None)"
  shows "get_string y n k otherwise = quietly (Inr (if cond then s else otherwise))"
proof (cases cond)
  case True
  then show ?thesis
    using holds_get [OF assms(1-3)] assms(4) by (simp add: get_string_def yaml_string [OF assms(1)])
next
  case False
  then obtain x where "y_get y n k = Inr x" "\<not> y_defined y x"
    using holds_get_None [OF assms(1-3)] assms(4) by auto
  with False show ?thesis by (simp add: get_string_def)
qed

lemma load_appender_defines_all:
  "list_all2 (\<lambda>n a. load_appender_define y n = quietly (Inr (Some a))) ns as \<Longrightarrow>
   load_appender_defines y ns acc = quietly (Inr (acc @ as))"
  by (induction arbitrary: acc rule: list_all2_induct) simp_all

text \<open>A loop of \<open>push_back\<close>.\<close>

lemma push_all:
  assumes laws: "yaml_laws y" and "y_seq_built y s" and "y_defined y s"
    and "\<forall>x\<in>set xs. \<exists>n. build x = Inr n \<and> y_defined y n \<and> R n x"
  shows "\<exists>seq ns. fold_r (\<lambda>x seq. bind_r (build x) (y_push y seq)) xs s = Inr seq \<and> y_defined y seq \<and>
      y_elems y seq = y_elems y s @ ns \<and> list_all2 R ns xs"
  using assms(2-4)
proof (induction xs arbitrary: s)
  case (Cons x xs)
  then obtain m where m: "build x = Inr m" "y_defined y m" "R m x" by auto
  obtain s1 where s1: "y_push y s m = Inr s1" "y_defined y s1" "y_seq_built y s1" "y_elems y s1 = y_elems y s @ [m]"
    using yaml_push [OF laws Cons.prems(1) m(2)] by blast
  obtain seq ns where "fold_r (\<lambda>x seq. bind_r (build x) (y_push y seq)) xs s1 = Inr seq" "y_defined y seq"
    "y_elems y seq = y_elems y s1 @ ns" "list_all2 R ns xs"
    using Cons.IH [OF s1(3,2)] Cons.prems(3) by auto
  then show ?case using m s1 by (intro exI [of _ seq] exI [of _ "m # ns"]) simp
qed simp

lemma set_appenders_elems:
  assumes laws: "yaml_laws y" and "\<forall>x\<in>set xs. \<exists>n. build x = Inr n \<and> y_defined y n \<and> R n x"
    and n: "holds y n kvs" "''appenders'' \<notin> fst ` set kvs"
  shows "\<exists>n' seq. set_appenders y build xs n = Inr n' \<and> list_all2 R (y_elems y seq) xs \<and>
           holds y n' (kvs @ (if xs = [] then [] else [(''appenders'', seq)])) \<and> y_defined y seq"
proof -
  obtain seq where seq: "fold_r (\<lambda>x seq. bind_r (build x) (y_push y seq)) xs (y_null y) = Inr seq"
    "y_defined y seq" "list_all2 R (y_elems y seq) xs"
    using push_all [OF laws y_built_null(1) _ assms(2)] yaml_null [OF laws] by auto
  show ?thesis
  proof (cases "xs = []")
    case True
    then show ?thesis using n seq by (intro exI [of _ n] exI [of _ seq]) (auto simp: set_appenders_def)
  next
    case False
    obtain n' where "y_set y n ''appenders'' seq = Inr n'" "holds y n' (kvs @ [(''appenders'', seq)])"
      using holds_set [OF laws n(1) seq(2) n(2)] by blast
    then show ?thesis using False seq by (intro exI [of _ n'] exI [of _ seq]) (simp add: set_appenders_def)
  qed
qed

text \<open>The definition that a node with the keys the code writes is read as.\<close>

lemma read_built:
  assumes laws: "yaml_laws y"
    and n: "holds y n ((''name'', y_of_string y name) # opt_entry y c1 ''level'' lv @
              opt_entry y c2 ''formatter'' fmt @ (if as = [] then [] else [(''appenders'', seq)]))"
    and as: "list_all2 (\<lambda>n a. load_appender_define y n = quietly (Inr (Some a))) (y_elems y seq) as"
    and seq: "y_defined y seq"
  shows "LogDefine_of_node y n =
           quietly (Inr \<lparr>ld_name = name, ld_level = LogLevel_FromString (if c1 then lv else []),
             ld_appenders = as, ld_formatter = if c2 then fmt else []\<rparr>)"
proof -
  have name: "y_get y n ''name'' = Inr (y_of_string y name)"
    by (rule holds_get [OF laws n]) simp_all
  have level: "get_string y n ''level'' [] = quietly (Inr (if c1 then lv else []))"
    by (rule get_string_holds [OF laws n]) (simp_all add: map_add_def)
  have formatter: "get_string y n ''formatter'' [] = quietly (Inr (if c2 then fmt else []))"
    by (rule get_string_holds [OF laws n]) (simp_all add: map_add_def)
  have "\<exists>x. y_get y n ''appenders'' = Inr x \<and>
      (if y_defined y x then load_appender_defines y (y_elems y x) [] else quietly (Inr [])) = quietly (Inr as)"
  proof (cases "as = []")
    case True
    then obtain x where "y_get y n ''appenders'' = Inr x" "\<not> y_defined y x"
      using holds_get_None [OF laws n, of "''appenders''"] by (auto simp: map_add_def)
    then show ?thesis using True by simp
  next
    case False
    then have "y_get y n ''appenders'' = Inr seq" by (intro holds_get [OF laws n]) (simp_all add: map_add_def)
    then show ?thesis using seq load_appender_defines_all [OF as, of "[]"] by simp
  qed
  then show ?thesis
    using name level formatter
    by (auto simp: LogDefine_of_node_def yaml_string [OF laws] LogDefine_ctor_def)
qed

section \<open>Definitions that survive the cast\<close>

text \<open>
  What a text can be read as: an appender has no level of its own, and a console appender no formatter.
\<close>

definition appender_define_ok :: "log_appender_define \<Rightarrow> bool" where
  "appender_define_ok a \<longleftrightarrow>
     ad_level a = UNKNOW \<and> (ad_type a = 1 \<or> ad_type a = 2 \<and> ad_file a = [] \<and> ad_formatter a = [])"

definition log_define_ok :: "log_define \<Rightarrow> bool" where
  "log_define_ok d \<longleftrightarrow> ld_level d \<noteq> LEVEL_100 \<and> (\<forall>a\<in>set (ld_appenders d). appender_define_ok a)"

lemma bind_p_Inr: "snd (bind_p m f) = Inr z \<longleftrightarrow> (\<exists>x. snd m = Inr x \<and> snd (f x) = Inr z)"
  by (cases "snd m") (simp_all add: bind_p_def)

lemma snd_quietly [simp]: "snd (quietly m) = m"
  by (simp add: quietly_def)

lemma snd_print_line_Some [simp]:
  "snd (print_line y msg n (Inr None)) \<noteq> Inr (Some a)" "snd (print_line y msg n (Inl e)) \<noteq> Inr z"
  by (simp_all add: print_line_def split: sum.split)

lemma snd_bind_p: "snd (bind_p m f) = bind_r (snd m) (\<lambda>x. snd (f x))"
  by (cases "snd m") (simp_all add: bind_p_def)

lemma snd_load_log_defines:
  "snd (load_log_defines y ns vec) =
     fold_r (\<lambda>n vec. bind_r (y_dump y n) (\<lambda>ss. bind_r (snd (LogDefine_from_string y ss)) (\<lambda>v.
       Inr (set_insert LogDefine_less v vec)))) ns vec"
proof (induction ns arbitrary: vec)
  case (Cons n ns)
  show ?case
  proof (cases "y_dump y n")
    case (Inr ss)
    then show ?thesis using Cons.IH by (cases "snd (LogDefine_from_string y ss)") (simp_all add: snd_bind_p)
  qed (simp add: snd_bind_p)
qed simp

lemma LogDefines_from_string_cast: "snd (LogDefines_from_string y s) = from_string (LexicalCast_log_defines y) s"
  by (simp add: LogDefines_from_string_def snd_bind_p snd_load_log_defines y_elems_def fold_r_map
      LexicalCast_log_defines_def LexicalCast_set_def LexicalCast_LogDefine_def load_seq_def)

lemma load_appender_define_ok: "snd (load_appender_define y n) = Inr (Some a) \<Longrightarrow> appender_define_ok a"
  by (auto simp: load_appender_define_def bind_p_Inr appender_define_ok_def LogAppenderDefine_ctor_def
           split: if_splits)

lemma load_appender_defines_ok:
  "snd (load_appender_defines y ns acc) = Inr as \<Longrightarrow> \<forall>a\<in>set acc. appender_define_ok a \<Longrightarrow>
   \<forall>a\<in>set as. appender_define_ok a"
proof (induction ns arbitrary: acc)
  case (Cons n ns)
  then obtain r where r: "snd (load_appender_define y n) = Inr r"
    "snd (load_appender_defines y ns (case r of None \<Rightarrow> acc | Some a \<Rightarrow> acc @ [a])) = Inr as"
    by (auto simp: bind_p_Inr)
  have "\<forall>a\<in>set (case r of None \<Rightarrow> acc | Some a \<Rightarrow> acc @ [a]). appender_define_ok a"
    using Cons.prems(2) load_appender_define_ok r(1) by (auto split: option.split)
  with Cons.IH r(2) show ?case by blast
qed simp

lemma LogLevel_FromString_ok: "LogLevel_FromString s \<noteq> LEVEL_100"
  by (simp add: LogLevel_FromString_def)

lemma LogLevel_FromString_ToString: "l \<noteq> LEVEL_100 \<Longrightarrow> LogLevel_FromString (LogLevel_ToString l) = l"
  by (cases l) (simp_all add: LogLevel_FromString_def LogLevel_ToString_def)

lemma LogDefine_of_node_ok: "snd (LogDefine_of_node y n) = Inr d \<Longrightarrow> log_define_ok d"
  by (auto simp: LogDefine_of_node_def bind_p_Inr log_define_ok_def LogDefine_ctor_def LogLevel_FromString_ok
           split: if_splits dest: load_appender_defines_ok)

lemma LogDefine_from_string_ok: "snd (LogDefine_from_string y s) = Inr d \<Longrightarrow> log_define_ok d"
  by (auto simp: LogDefine_from_string_def bind_p_Inr dest: LogDefine_of_node_ok)

lemma store_appender_define_ok:
  assumes laws: "yaml_laws y" and ok: "appender_define_ok a"
  shows "\<exists>n. store_appender_define y a = Inr n \<and> y_defined y n \<and>
           load_appender_define y n = quietly (Inr (Some a))"
proof (cases "ad_type a = 1")
  case True
  obtain n1 where n1: "y_set y (y_null y) ''type'' (y_of_string y ''FileLogAppender'') = Inr n1"
    "holds y n1 [(''type'', y_of_string y ''FileLogAppender'')]"
    using holds_set [OF laws holds_null [OF laws] yaml_string(1) [OF laws]] by auto
  obtain n2 where n2: "y_set y n1 ''file'' (y_of_string y (ad_file a)) = Inr n2"
    "holds y n2 [(''type'', y_of_string y ''FileLogAppender''), (''file'', y_of_string y (ad_file a))]"
    using holds_set [OF laws n1(2) yaml_string(1) [OF laws], of "''file''"] by auto
  let ?kvs = "(''type'', y_of_string y ''FileLogAppender'') # (''file'', y_of_string y (ad_file a)) #
    opt_entry y (ad_formatter a \<noteq> []) ''formatter'' (ad_formatter a)"
  obtain n3 where n3: "set_string y (ad_formatter a \<noteq> []) ''formatter'' (ad_formatter a) n2 = Inr n3"
    "holds y n3 ?kvs"
    using holds_set_string [OF laws n2(2), of "ad_formatter a \<noteq> []" "''formatter''"] by auto
  have "get_string y n3 ''formatter'' [] = quietly (Inr (ad_formatter a))"
    using get_string_holds [OF laws n3(2), of "''formatter''" "ad_formatter a \<noteq> []" "ad_formatter a" "[]"]
    by (auto split: if_splits)
  moreover have "y_get y n3 ''type'' = Inr (y_of_string y ''FileLogAppender'')"
    "y_get y n3 ''file'' = Inr (y_of_string y (ad_file a))"
    by (rule holds_get [OF laws n3(2)], simp, simp)+
  moreover have "store_appender_define y a = Inr n3"
    using n1 n2 n3 True ok by (simp add: store_appender_define_def appender_define_ok_def)
  ultimately show ?thesis
    using holds_defined [OF n3(2)] True ok
    by (cases a) (auto simp: load_appender_define_def yaml_string [OF laws] LogAppenderDefine_ctor_def appender_define_ok_def)
next
  case False
  obtain n1 where n1: "y_set y (y_null y) ''type'' (y_of_string y ''StdoutLogAppender'') = Inr n1"
    "holds y n1 [(''type'', y_of_string y ''StdoutLogAppender'')]"
    using holds_set [OF laws holds_null [OF laws] yaml_string(1) [OF laws]] by auto
  have "y_get y n1 ''type'' = Inr (y_of_string y ''StdoutLogAppender'')"
    by (rule holds_get [OF laws n1(2)]) simp_all
  then show ?thesis
    using n1 holds_defined [OF n1(2)] False ok
    by (cases a) (auto simp: load_appender_define_def yaml_string [OF laws] LogAppenderDefine_ctor_def
        appender_define_ok_def store_appender_define_def set_string_def)
qed

lemma LogDefine_to_string_ok:
  assumes laws: "yaml_laws y" and ok: "log_define_ok d"
  shows "\<exists>t n. LogDefine_to_string y d = Inr t \<and> y_load y t = Inr n \<and> y_dump y n = Inr t \<and>
           LogDefine_of_node y n = quietly (Inr d)"
proof -
  obtain n1 where n1: "y_set y (y_null y) ''name'' (y_of_string y (ld_name d)) = Inr n1"
    "holds y n1 [(''name'', y_of_string y (ld_name d))]"
    using holds_set [OF laws holds_null [OF laws] yaml_string(1) [OF laws]] by auto
  let ?lv = "opt_entry y (ld_level d \<noteq> UNKNOW) ''level'' (LogLevel_ToString (ld_level d))"
  let ?fm = "opt_entry y (ld_formatter d \<noteq> []) ''formatter'' (ld_formatter d)"
  obtain n2 where n2: "set_string y (ld_level d \<noteq> UNKNOW) ''level'' (LogLevel_ToString (ld_level d)) n1 = Inr n2"
    "holds y n2 ((''name'', y_of_string y (ld_name d)) # ?lv)"
    using holds_set_string [OF laws n1(2), of "ld_level d \<noteq> UNKNOW" "''level''"] by auto
  obtain n3 where n3: "set_string y (ld_formatter d \<noteq> []) ''formatter'' (ld_formatter d) n2 = Inr n3"
    "holds y n3 ((''name'', y_of_string y (ld_name d)) # ?lv @ ?fm)"
    using holds_set_string [OF laws n2(2), of "ld_formatter d \<noteq> []" "''formatter''"] by (auto split: if_splits)
  have "\<forall>a\<in>set (ld_appenders d). \<exists>n. store_appender_define y a = Inr n \<and> y_defined y n \<and>
      load_appender_define y n = quietly (Inr (Some a))"
    using store_appender_define_ok [OF laws] ok by (simp add: log_define_ok_def)
  from set_appenders_elems [OF laws this n3(2)]
  obtain n4 seq where n4: "set_appenders y (store_appender_define y) (ld_appenders d) n3 = Inr n4"
    "list_all2 (\<lambda>n a. load_appender_define y n = quietly (Inr (Some a))) (y_elems y seq) (ld_appenders d)"
    "holds y n4 ((''name'', y_of_string y (ld_name d)) # ?lv @ ?fm @
       (if ld_appenders d = [] then [] else [(''appenders'', seq)]))" "y_defined y seq"
    by (auto simp: image_Un)
  obtain t where t: "y_dump y n4 = Inr t" "y_load y t = Inr n4"
    using yaml_dump_load [OF laws holds_defined [OF n4(3)]] by blast
  have "LogLevel_FromString (if ld_level d \<noteq> UNKNOW then LogLevel_ToString (ld_level d) else []) = ld_level d"
    using ok by (auto simp: log_define_ok_def LogLevel_FromString_ToString) (simp add: LogLevel_FromString_def)
  then have "LogDefine_of_node y n4 = quietly (Inr d)"
    using read_built [OF laws n4(3,2,4)] by (cases d) (simp split: if_splits)
  then show ?thesis using t n1 n2 n3 n4 by (intro exI [of _ t] exI [of _ n4]) (simp add: LogDefine_to_string_def)
qed

lemma LogDefine_cast_ok:
  assumes "yaml_laws y" and "log_define_ok d"
  shows "cast_ok y (LexicalCast_LogDefine y) d"
  using LogDefine_to_string_ok [OF assms]
  by (auto simp: cast_ok_def LexicalCast_LogDefine_def LogDefine_from_string_def)

text \<open>A set that was read is sorted by name and each of its definitions can be written.\<close>

definition log_defines_ok :: "log_define list \<Rightarrow> bool" where
  "log_defines_ok ds \<longleftrightarrow> sorted_wrt LogDefine_less ds \<and> (\<forall>d\<in>set ds. log_define_ok d)"

lemma LogDefine_less_asym: "\<forall>a b. LogDefine_less a b \<longrightarrow> \<not> LogDefine_less b a"
  by (auto simp: LogDefine_less_def)

lemma set_set_insert: "set (set_insert lt v xs) \<subseteq> insert v (set xs)"
  by (induction xs) auto

lemma sorted_set_insert:
  "sorted_wrt LogDefine_less xs \<Longrightarrow> sorted_wrt LogDefine_less (set_insert LogDefine_less v xs)"
proof (induction xs)
  case (Cons x xs)
  have "LogDefine_less x z" if "LogDefine_less x v" "z \<in> set (set_insert LogDefine_less v xs)" for z
    using that set_set_insert [of LogDefine_less v xs] Cons.prems by auto
  moreover have "LogDefine_less v z" if "LogDefine_less v x" "LogDefine_less x z" for z
    using that by (auto simp: LogDefine_less_def dest: order.strict_trans)
  ultimately show ?case using Cons by auto
qed simp

lemma log_defines_ok_read:
  assumes "from_string (LexicalCast_log_defines y) s = Inr ds"
  shows "log_defines_ok ds"
proof -
  obtain node where "fold_r (\<lambda>i vec. bind_r (y_dump y (y_at y node i)) (\<lambda>ss.
      bind_r (snd (LogDefine_from_string y ss)) (\<lambda>v. Inr (set_insert LogDefine_less v vec))))
      [0..<y_size y node] [] = Inr ds"
    using assms by (auto simp: LexicalCast_log_defines_def LexicalCast_set_def LexicalCast_LogDefine_def load_seq_def)
  then show ?thesis
  proof (rule fold_r_invariant [where P = log_defines_ok])
    fix i vec vec'
    assume "log_defines_ok vec" and "bind_r (y_dump y (y_at y node i)) (\<lambda>ss.
      bind_r (snd (LogDefine_from_string y ss)) (\<lambda>v. Inr (set_insert LogDefine_less v vec))) = Inr vec'"
    then obtain v where v: "log_define_ok v" "vec' = set_insert LogDefine_less v vec"
      by (auto dest: LogDefine_from_string_ok)
    with \<open>log_defines_ok vec\<close> show "log_defines_ok vec'"
      using set_set_insert [of LogDefine_less v vec] sorted_set_insert by (auto simp: log_defines_ok_def)
  qed (simp add: log_defines_ok_def)
qed

lemma log_defines_cast_ok:
  assumes "yaml_laws y" and "log_defines_ok ds"
  shows "cast_ok y (LexicalCast_log_defines y) ds"
  unfolding LexicalCast_log_defines_def LexicalCast_set_def
  using assms LogDefine_cast_ok
  by (intro ordered_set.seq_cast) (auto simp: log_defines_ok_def LogDefine_less_asym)

section \<open>What an exported logger is read as\<close>

definition exported_appender :: "appender \<Rightarrow> log_appender_define" where
  "exported_appender ap =
     (case ap_sink ap of
        Stdout_Sink \<Rightarrow> LogAppenderDefine_ctor\<lparr>ad_type := 2\<rparr>
      | File_Sink filename f t \<Rightarrow>
          LogAppenderDefine_ctor\<lparr>ad_type := 1, ad_file := filename,
            ad_formatter := (case ap_formatter ap of
                               Some fm \<Rightarrow> if ap_has_formatter ap then fm_pattern fm else [] | None \<Rightarrow> [])\<rparr>)"

definition exported_logger :: "log_world \<Rightarrow> logger \<Rightarrow> log_define" where
  "exported_logger w l =
     \<lparr>ld_name = lg_name l, ld_level = (if lg_level l = LEVEL_100 then UNKNOW else lg_level l),
      ld_appenders = map (\<lambda>p. case lw_appenders w p of
                                Some ap \<Rightarrow> exported_appender ap | None \<Rightarrow> LogAppenderDefine_ctor) (lg_appenders l),
      ld_formatter = (case lg_formatter l of Some fm \<Rightarrow> fm_pattern fm | None \<Rightarrow> [])\<rparr>"

lemma LogLevel_FromString_ToString_any:
  "LogLevel_FromString (LogLevel_ToString l) = (if l = LEVEL_100 then UNKNOW else l)"
  by (cases l) (simp_all add: LogLevel_FromString_def LogLevel_ToString_def)

lemma dump_entry:
  assumes "yaml_laws y" and "holds y n kvs"
  obtains t where "y_dump y n = Inr t" "y_load y t = Inr n"
  using yaml_dump_load [OF assms(1) holds_defined [OF assms(2)]] by blast

text \<open>The end of both functions: the level, the formatter and the text.\<close>

lemma appender_tail:
  assumes laws: "yaml_laws y" and n: "holds y n kvs" and "''level'' \<notin> fst ` set kvs" "''formatter'' \<notin> fst ` set kvs"
    and fm: "ap_formatter ap = Some fm"
  obtains m t where
    "bind_r (set_string y (ap_level ap \<noteq> UNKNOW) ''level'' (LogLevel_ToString (ap_level ap)) n) (\<lambda>n.
       bind_r (case ap_formatter ap of None \<Rightarrow> Inr n
               | Some fm \<Rightarrow> set_string y (ap_has_formatter ap) ''formatter'' (fm_pattern fm) n) (y_dump y)) = Inr t"
    "y_load y t = Inr m"
    "holds y m (kvs @ opt_entry y (ap_level ap \<noteq> UNKNOW) ''level'' (LogLevel_ToString (ap_level ap)) @
       opt_entry y (ap_has_formatter ap) ''formatter'' (fm_pattern fm))"
proof -
  obtain n1 where n1: "set_string y (ap_level ap \<noteq> UNKNOW) ''level'' (LogLevel_ToString (ap_level ap)) n = Inr n1"
    "holds y n1 (kvs @ opt_entry y (ap_level ap \<noteq> UNKNOW) ''level'' (LogLevel_ToString (ap_level ap)))"
    using holds_set_string [OF laws n, of "ap_level ap \<noteq> UNKNOW" "''level''"] assms(3) by blast
  obtain n2 where n2: "set_string y (ap_has_formatter ap) ''formatter'' (fm_pattern fm) n1 = Inr n2"
    "holds y n2 ((kvs @ opt_entry y (ap_level ap \<noteq> UNKNOW) ''level'' (LogLevel_ToString (ap_level ap))) @
       opt_entry y (ap_has_formatter ap) ''formatter'' (fm_pattern fm))"
    by (rule holds_set_string [OF laws n1(2), of "ap_has_formatter ap" "''formatter''"])
       (use assms(4) in \<open>auto simp: image_Un\<close>)
  obtain t where "y_dump y n2 = Inr t" "y_load y t = Inr n2" using dump_entry [OF laws n2(2)] by blast
  with n1 n2 fm show thesis by (intro that [of t n2]) simp_all
qed

lemma LogAppender_export:
  assumes laws: "yaml_laws y" and ap: "lw_appenders w p = Some ap" "ap_formatter ap = Some fm"
  shows "\<exists>n. bind_r (LogAppender_toYamlString y p w) (y_load y) = Inr n \<and> y_defined y n \<and>
           load_appender_define y n = quietly (Inr (Some (exported_appender ap)))"
proof (cases "ap_sink ap")
  case Stdout_Sink
  obtain n1 where n1: "y_set y (y_null y) ''type'' (y_of_string y ''StdoutLogAppender'') = Inr n1"
    "holds y n1 [(''type'', y_of_string y ''StdoutLogAppender'')]"
    using holds_set [OF laws holds_null [OF laws] yaml_string(1) [OF laws]] by auto
  obtain m t where m:
    "StdoutLogAppender_toYamlString y ap = Inr t" "y_load y t = Inr m"
    "holds y m ((''type'', y_of_string y ''StdoutLogAppender'') #
       opt_entry y (ap_level ap \<noteq> UNKNOW) ''level'' (LogLevel_ToString (ap_level ap)) @
       opt_entry y (ap_has_formatter ap) ''formatter'' (fm_pattern fm))"
    by (rule appender_tail [OF laws n1(2) _ _ ap(2)])
       (use n1(1) that in \<open>auto simp: StdoutLogAppender_toYamlString_def simp del: bind_r_eq_Inr\<close>)
  have "y_get y m ''type'' = Inr (y_of_string y ''StdoutLogAppender'')"
    by (rule holds_get [OF laws m(3)]) simp_all
  then show ?thesis
    using m holds_defined [OF m(3)] ap Stdout_Sink
    by (simp add: LogAppender_toYamlString_def deref_appender_def load_appender_define_def yaml_string [OF laws]
        exported_appender_def)
next
  case (File_Sink filename f u)
  obtain n1 where n1: "y_set y (y_null y) ''type'' (y_of_string y ''FileLogAppender'') = Inr n1"
    "holds y n1 [(''type'', y_of_string y ''FileLogAppender'')]"
    using holds_set [OF laws holds_null [OF laws] yaml_string(1) [OF laws]] by auto
  obtain n2 where n2: "y_set y n1 ''file'' (y_of_string y filename) = Inr n2"
    "holds y n2 [(''type'', y_of_string y ''FileLogAppender''), (''file'', y_of_string y filename)]"
    using holds_set [OF laws n1(2) yaml_string(1) [OF laws], of "''file''"] by auto
  obtain m t where m:
    "FileLogAppender_toYamlString y filename ap = Inr t" "y_load y t = Inr m"
    "holds y m ((''type'', y_of_string y ''FileLogAppender'') # (''file'', y_of_string y filename) #
       opt_entry y (ap_level ap \<noteq> UNKNOW) ''level'' (LogLevel_ToString (ap_level ap)) @
       opt_entry y (ap_has_formatter ap) ''formatter'' (fm_pattern fm))"
    by (rule appender_tail [OF laws n2(2) _ _ ap(2)])
       (use n1(1) n2(1) that in \<open>auto simp: FileLogAppender_toYamlString_def simp del: bind_r_eq_Inr\<close>)
  have "y_get y m ''type'' = Inr (y_of_string y ''FileLogAppender'')"
    "y_get y m ''file'' = Inr (y_of_string y filename)"
    by (rule holds_get [OF laws m(3)], simp, simp)+
  moreover have "get_string y m ''formatter'' [] = quietly (Inr (if ap_has_formatter ap then fm_pattern fm else []))"
    by (rule get_string_holds [OF laws m(3)]) (simp_all add: map_add_def)
  ultimately show ?thesis
    using m holds_defined [OF m(3)] ap File_Sink
    by (simp add: LogAppender_toYamlString_def deref_appender_def load_appender_define_def yaml_string [OF laws]
        exported_appender_def)
qed

lemma Logger_export:
  assumes laws: "yaml_laws y" and wf: "log_wf w" and l: "lw_loggers w a = Some l"
  shows "\<exists>t n. Logger_toYamlString y a w = Inr t \<and> y_load y t = Inr n \<and> y_dump y n = Inr t \<and> y_defined y n \<and>
           LogDefine_of_node y n = quietly (Inr (exported_logger w l))"
proof -
  obtain fm where fm: "lg_formatter l = Some fm" using log_wfD_logger [OF wf l] by (auto simp: logger_inv_def)
  obtain n1 where n1: "y_set y (y_null y) ''name'' (y_of_string y (lg_name l)) = Inr n1"
    "holds y n1 [(''name'', y_of_string y (lg_name l))]"
    using holds_set [OF laws holds_null [OF laws] yaml_string(1) [OF laws]] by auto
  obtain n2 where n2: "y_set y n1 ''level'' (y_of_string y (LogLevel_ToString (lg_level l))) = Inr n2"
    "holds y n2 [(''name'', y_of_string y (lg_name l)), (''level'', y_of_string y (LogLevel_ToString (lg_level l)))]"
    using holds_set [OF laws n1(2) yaml_string(1) [OF laws], of "''level''"] by auto
  obtain n3 where n3: "y_set y n2 ''formatter'' (y_of_string y (fm_pattern fm)) = Inr n3"
    "holds y n3 [(''name'', y_of_string y (lg_name l)), (''level'', y_of_string y (LogLevel_ToString (lg_level l))),
       (''formatter'', y_of_string y (fm_pattern fm))]"
    using holds_set [OF laws n2(2) yaml_string(1) [OF laws], of "''formatter''"] by auto
  let ?ex = "\<lambda>p. case lw_appenders w p of Some ap \<Rightarrow> exported_appender ap | None \<Rightarrow> LogAppenderDefine_ctor"
  let ?R = "\<lambda>n p. load_appender_define y n = quietly (Inr (Some (?ex p)))"
  have "\<forall>p\<in>set (lg_appenders l). \<exists>n. bind_r (LogAppender_toYamlString y p w) (y_load y) = Inr n \<and> y_defined y n \<and> ?R n p"
  proof
    fix p assume "p \<in> set (lg_appenders l)"
    then obtain ap fm where "lw_appenders w p = Some ap" "ap_formatter ap = Some fm"
      using log_wfD_live [OF wf l] unfolding appender_inv_def by (meson not_None_eq)
    with LogAppender_export [OF laws this]
    show "\<exists>n. bind_r (LogAppender_toYamlString y p w) (y_load y) = Inr n \<and> y_defined y n \<and> ?R n p" by simp
  qed
  from set_appenders_elems [OF laws this n3(2)]
  obtain n4 seq where n4: "set_appenders y (\<lambda>p. bind_r (LogAppender_toYamlString y p w) (y_load y)) (lg_appenders l) n3 = Inr n4"
    "list_all2 ?R (y_elems y seq) (lg_appenders l)"
    "holds y n4 ((''name'', y_of_string y (lg_name l)) # opt_entry y True ''level'' (LogLevel_ToString (lg_level l)) @
       opt_entry y True ''formatter'' (fm_pattern fm) @
       (if map ?ex (lg_appenders l) = [] then [] else [(''appenders'', seq)]))" "y_defined y seq"
    by (auto simp: opt_entry_def)
  obtain t where t: "y_dump y n4 = Inr t" "y_load y t = Inr n4" using dump_entry [OF laws n4(3)] by blast
  have "list_all2 (\<lambda>n a. load_appender_define y n = quietly (Inr (Some a))) (y_elems y seq) (map ?ex (lg_appenders l))"
    using n4(2) by (simp add: list_all2_conv_all_nth)
  from read_built [OF laws n4(3) this n4(4)]
  have "LogDefine_of_node y n4 = quietly (Inr (exported_logger w l))"
    by (simp add: exported_logger_def fm LogLevel_FromString_ToString_any)
  then show ?thesis
    using t n1 n2 n3 n4 fm l holds_defined [OF n4(3)]
    by (intro exI [of _ t] exI [of _ n4]) (simp add: Logger_toYamlString_def deref_logger_def)
qed

lemma LoggerManager_export:
  assumes laws: "yaml_laws y" and wf: "log_wf w"
  shows "\<exists>t. LoggerManager_toYamlString y w = Inr t \<and>
           from_string (LexicalCast_log_defines y) t =
             Inr (map (\<lambda>(name, a). exported_logger w (the (lw_loggers w a))) (lw_loggers_map w))"
proof -
  let ?ex = "\<lambda>(name, a). exported_logger w (the (lw_loggers w a))"
  let ?build = "\<lambda>(name, a). bind_r (Logger_toYamlString y a w) (y_load y)"
  let ?R = "\<lambda>n e. reads_as y (LexicalCast_LogDefine y) n (?ex e)"
  have entry: "\<exists>l. lw_loggers w (snd e) = Some l \<and> lg_name l = fst e" if "e \<in> set (lw_loggers_map w)" for e
  proof -
    have "smap_find (fst e) (lw_loggers_map w) = Some (snd e)"
      using that wf by (simp add: log_inv_def map_ok_def smap_find_iff)
    from log_wfD_map [OF wf this] show ?thesis .
  qed
  have "\<forall>e\<in>set (lw_loggers_map w). \<exists>n. ?build e = Inr n \<and> y_defined y n \<and> ?R n e"
  proof
    fix e assume "e \<in> set (lw_loggers_map w)"
    then obtain l where l: "lw_loggers w (snd e) = Some l" using entry by blast
    from Logger_export [OF laws wf l] show "\<exists>n. ?build e = Inr n \<and> y_defined y n \<and> ?R n e"
      using l by (cases e) (auto simp: reads_as_def LexicalCast_LogDefine_def LogDefine_from_string_def)
  qed
  from push_all [OF laws y_built_null(1) yaml_null(1) [OF laws] this]
  obtain seq where seq: "fold_r (\<lambda>e seq. bind_r (?build e) (y_push y seq)) (lw_loggers_map w) (y_null y) = Inr seq"
    "y_defined y seq" "list_all2 ?R (y_elems y seq) (lw_loggers_map w)"
    using yaml_null [OF laws] by auto
  obtain t where t: "y_dump y seq = Inr t" "y_load y t = Inr seq" using yaml_dump_load [OF laws seq(2)] by blast
  have loop: "(\<lambda>e seq. bind_r (?build e) (y_push y seq)) =
      (\<lambda>(name, logger) node. bind_r (Logger_toYamlString y logger w) (\<lambda>s. bind_r (y_load y s) (y_push y node)))"
    by (auto simp: fun_eq_iff bind_r_assoc)
  have "list_all2 (reads_as y (LexicalCast_LogDefine y)) (y_elems y seq) (map ?ex (lw_loggers_map w))"
    using seq(3) by (simp add: list_all2_conv_all_nth)
  from load_seq_elems [OF t(2) this, of "set_insert LogDefine_less" "[]"]
  have "from_string (LexicalCast_log_defines y) t = Inr (fold (set_insert LogDefine_less) (map ?ex (lw_loggers_map w)) [])"
    by (simp add: LexicalCast_log_defines_def LexicalCast_set_def)
  moreover have "sorted_wrt LogDefine_less (map ?ex (lw_loggers_map w))"
  proof -
    have "sorted_wrt (\<lambda>d e. fst d < fst e) (lw_loggers_map w)"
      using wf by (simp add: log_inv_def map_ok_def smap_ok_def sorted_wrt_map)
    moreover have "ld_name (?ex e) = fst e" if "e \<in> set (lw_loggers_map w)" for e
      using entry [OF that] by (cases e) (auto simp: exported_logger_def)
    ultimately have "sorted_wrt (\<lambda>d e. LogDefine_less (?ex d) (?ex e)) (lw_loggers_map w)"
      by (elim sorted_wrt_mono_rel [rotated]) (simp add: LogDefine_less_def)
    then show ?thesis by (simp add: sorted_wrt_map)
  qed
  ultimately have "from_string (LexicalCast_log_defines y) t = Inr (map ?ex (lw_loggers_map w))"
    using ordered_set.rebuild [of LogDefine_less] LogDefine_less_asym by simp
  then show ?thesis using seq(1) t(1) by (intro exI [of _ t]) (simp add: LoggerManager_toYamlString_def loop [symmetric])
qed

end
