(* ===== verification/Config_Var.thy ===== *)
theory Config_Var
  imports Lexical_Cast
begin

text \<open>
  \<open>ConfigVarBase\<close> and \<open>ConfigVar\<close> of \<open>src/config.h\<close>: a variable with its value, its type and its
  listeners. The template parameters of \<open>ConfigVar\<close> are a record: the name of the type, its two casts
  and its \<open>operator==\<close>. A listener is a token whose effect on the rest of the program, of type \<open>'w\<close>,
  is a parameter; it can end in an exception, and what it did before stays done. What a cast prints and the
  ERROR line of \<open>fromString\<close> are effects on the rest of the program, too. A listener that takes
  the lock of its own variable for writing blocks the thread for ever; listeners are taken not to.
\<close>

section \<open>State\<close>

record 'v vtype =
  vt_name :: string
  vt_from_str :: "string \<Rightarrow> 'v result"
  vt_to_str :: "'v \<Rightarrow> string result"
  vt_eq :: "'v \<Rightarrow> 'v \<Rightarrow> bool"
  vt_prints :: "string \<Rightarrow> string"

text \<open>
  \<open>vt_prints s\<close> is what the cast from the text \<open>s\<close> writes to \<open>std::cout\<close>. The effects of writing to \<open>std::cout\<close> and of
  \<open>SYLAR_LOG_ERROR(SYLAR_LOG_ROOT())\<close> on the rest of the program:
\<close>

record 'w effects =
  ef_print :: "string \<Rightarrow> 'w \<Rightarrow> 'w"
  ef_log_error :: "string \<Rightarrow> 'w \<Rightarrow> 'w"

record ('v, 'c) config_var =
  m_name :: string
  m_description :: string
  m_type :: "'v vtype"
  m_val :: 'v
  m_cbs :: "(64 word, 'c) smap"

text \<open>What a listener does, given the old and the new value.\<close>

type_synonym ('v, 'c, 'w) listener = "'c \<Rightarrow> 'v \<Rightarrow> 'v \<Rightarrow> 'w \<Rightarrow> 'w \<times> error option"

section \<open>Operations\<close>

definition ConfigVarBase_ctor :: "string \<Rightarrow> string \<Rightarrow> string \<times> string" where
  [simp]: "ConfigVarBase_ctor name description = (map tolower name, description)"

definition ConfigVar_ctor :: "'v vtype \<Rightarrow> string \<Rightarrow> 'v \<Rightarrow> string \<Rightarrow> ('v, 'c) config_var" where
  "ConfigVar_ctor ty name default_value description =
     (case ConfigVarBase_ctor name description of (n, d) \<Rightarrow>
        \<lparr>m_name = n, m_description = d, m_type = ty, m_val = default_value, m_cbs = []\<rparr>)"

definition ConfigVar_getTypeName :: "('v, 'c) config_var \<Rightarrow> string" where
  "ConfigVar_getTypeName cv = vt_name (m_type cv)"

definition ConfigVar_getValue :: "('v, 'c) config_var \<Rightarrow> 'v" where
  "ConfigVar_getValue cv = m_val cv"

definition ConfigVar_toString :: "('v, 'c) config_var \<Rightarrow> string result" where
  "ConfigVar_toString cv =
     (case vt_to_str (m_type cv) (m_val cv) of
        Inr s \<Rightarrow> Inr s
      | Inl e \<Rightarrow> if is_std_exception e then Inr [] else Inl e)"

text \<open>The loop over \<open>m_cbs\<close>, in the order of the keys.\<close>

fun call_listeners ::
  "('v, 'c, 'w) listener \<Rightarrow> 'v \<Rightarrow> 'v \<Rightarrow> (64 word \<times> 'c) list \<Rightarrow> 'w \<Rightarrow> 'w \<times> error option" where
  "call_listeners call old new [] w = (w, None)"
| "call_listeners call old new (i # is) w =
     (case call (snd i) old new w of
        (w', None) \<Rightarrow> call_listeners call old new is w'
      | (w', Some e) \<Rightarrow> (w', Some e))"

text \<open>
  \<open>setValue\<close> has two critical sections: under the read lock it compares and calls the listeners, under the
  write lock it stores. The first is \<open>True\<close> when the call goes on to the second.
\<close>

definition setValue_notify ::
  "('v, 'c, 'w) listener \<Rightarrow> 'v \<Rightarrow> ('v, 'c) config_var \<Rightarrow> 'w \<Rightarrow> 'w \<times> bool result" where
  "setValue_notify call val cv w =
     (if vt_eq (m_type cv) val (m_val cv) then (w, Inr False)
      else case call_listeners call (m_val cv) val (m_cbs cv) w of
             (w', None) \<Rightarrow> (w', Inr True)
           | (w', Some e) \<Rightarrow> (w', Inl e))"

definition setValue_store :: "'v \<Rightarrow> ('v, 'c) config_var \<Rightarrow> ('v, 'c) config_var" where
  "setValue_store val cv = cv\<lparr>m_val := val\<rparr>"

definition ConfigVar_setValue ::
  "('v, 'c, 'w) listener \<Rightarrow> 'v \<Rightarrow> ('v, 'c) config_var \<times> 'w \<Rightarrow> (('v, 'c) config_var \<times> 'w) \<times> error option" where
  "ConfigVar_setValue call val = (\<lambda>(cv, w).
     case setValue_notify call val cv w of
       (w', Inr True) \<Rightarrow> ((setValue_store val cv, w'), None)
     | (w', Inr False) \<Rightarrow> ((cv, w'), None)
     | (w', Inl e) \<Rightarrow> ((cv, w'), Some e))"

text \<open>The text of the ERROR line; \<open>typeid(m_val).name()\<close> is the name of the type.\<close>

definition fromString_complaint :: "error \<Rightarrow> ('v, 'c) config_var \<Rightarrow> string" where
  "fromString_complaint e cv =
     ''ConfigVar::fromString exception '' @ what e @ '' convert: string to '' @ vt_name (m_type cv)"

definition ConfigVar_fromString ::
  "'w effects \<Rightarrow> ('v, 'c, 'w) listener \<Rightarrow> string \<Rightarrow> ('v, 'c) config_var \<times> 'w \<Rightarrow>
   (('v, 'c) config_var \<times> 'w) \<times> bool result" where
  "ConfigVar_fromString fx call s = (\<lambda>(cv, w).
     let w1 = ef_print fx (vt_prints (m_type cv) s) w in
     case (case vt_from_str (m_type cv) s of
             Inl e \<Rightarrow> ((cv, w1), Some e)
           | Inr v \<Rightarrow> ConfigVar_setValue call v (cv, w1)) of
       ((cv', w2), None) \<Rightarrow> ((cv', w2), Inr False)
     | ((cv', w2), Some e) \<Rightarrow>
         if is_std_exception e then ((cv', ef_log_error fx (fromString_complaint e cv') w2), Inr False)
         else ((cv', w2), Inl e))"

text \<open>The counter of listener ids is a static variable of \<open>addListener\<close>.\<close>

definition ConfigVar_addListener ::
  "'c \<Rightarrow> 64 word \<Rightarrow> ('v, 'c) config_var \<Rightarrow> 64 word \<times> ('v, 'c) config_var \<times> 64 word" where
  "ConfigVar_addListener cb s_fun_id cv =
     (let s_fun_id = s_fun_id + 1 in (s_fun_id, cv\<lparr>m_cbs := smap_put s_fun_id cb (m_cbs cv)\<rparr>, s_fun_id))"

definition ConfigVar_delListener :: "64 word \<Rightarrow> ('v, 'c) config_var \<Rightarrow> ('v, 'c) config_var" where
  "ConfigVar_delListener key cv = cv\<lparr>m_cbs := smap_erase key (m_cbs cv)\<rparr>"

definition ConfigVar_getListener :: "64 word \<Rightarrow> ('v, 'c) config_var \<Rightarrow> 'c option" where
  "ConfigVar_getListener key cv = smap_find key (m_cbs cv)"

definition ConfigVar_clearListener :: "('v, 'c) config_var \<Rightarrow> ('v, 'c) config_var" where
  "ConfigVar_clearListener cv = cv\<lparr>m_cbs := []\<rparr>"

section \<open>Setting a value\<close>

text \<open>The listeners that are called one after the other without an exception, and what they leave.\<close>

fun all_return :: "('v, 'c, 'w) listener \<Rightarrow> 'v \<Rightarrow> 'v \<Rightarrow> (64 word \<times> 'c) list \<Rightarrow> 'w \<Rightarrow> bool" where
  "all_return call old new [] w = True"
| "all_return call old new (i # is) w =
     (snd (call (snd i) old new w) = None \<and> all_return call old new is (fst (call (snd i) old new w)))"

definition after_listeners :: "('v, 'c, 'w) listener \<Rightarrow> 'v \<Rightarrow> 'v \<Rightarrow> (64 word \<times> 'c) list \<Rightarrow> 'w \<Rightarrow> 'w" where
  "after_listeners call old new is w = fold (\<lambda>i w. fst (call (snd i) old new w)) is w"

lemma call_listeners_return:
  "all_return call old new is w \<Longrightarrow> call_listeners call old new is w = (after_listeners call old new is w, None)"
  by (induction "is" arbitrary: w) (auto simp: after_listeners_def split: prod.splits option.splits)

lemma call_listeners_throw:
  "all_return call old new pre w \<Longrightarrow> call (snd i) old new (after_listeners call old new pre w) = (w', Some e) \<Longrightarrow>
   call_listeners call old new (pre @ i # post) w = (w', Some e)"
  by (induction pre arbitrary: w) (auto simp: after_listeners_def split: prod.splits option.splits)

lemma call_listeners_cases:
  obtains "all_return call old new is w"
  | pre i post w' e where "is = pre @ i # post" "all_return call old new pre w"
      "call (snd i) old new (after_listeners call old new pre w) = (w', Some e)"
proof (induction "is" arbitrary: w thesis)
  case Nil
  then show ?case by simp
next
  case (Cons i "is")
  show ?case
  proof (cases "snd (call (snd i) old new w)")
    case (Some e)
    then show ?thesis
      using Cons.prems(2) [of "[]" i "is"] by (cases "call (snd i) old new w") (auto simp: after_listeners_def)
  next
    case None
    show ?thesis
    proof (rule Cons.IH [of "fst (call (snd i) old new w)"])
      assume "all_return call old new is (fst (call (snd i) old new w))"
      then show ?thesis using Cons.prems(1) None by simp
    next
      fix pre j post w' e
      assume "is = pre @ j # post" "all_return call old new pre (fst (call (snd i) old new w))"
        "call (snd j) old new (after_listeners call old new pre (fst (call (snd i) old new w))) = (w', Some e)"
      then show ?thesis
        using Cons.prems(2) [of "i # pre" j post w' e] None by (simp add: after_listeners_def)
    qed
  qed
qed

lemma setValue_equal: "vt_eq (m_type cv) v (m_val cv) \<Longrightarrow> ConfigVar_setValue call v (cv, w) = ((cv, w), None)"
  by (simp add: ConfigVar_setValue_def setValue_notify_def)

lemma setValue_return:
  "\<not> vt_eq (m_type cv) v (m_val cv) \<Longrightarrow> all_return call (m_val cv) v (m_cbs cv) w \<Longrightarrow>
   ConfigVar_setValue call v (cv, w) = ((cv\<lparr>m_val := v\<rparr>, after_listeners call (m_val cv) v (m_cbs cv) w), None)"
  by (simp add: ConfigVar_setValue_def setValue_notify_def call_listeners_return setValue_store_def)

lemma setValue_throw:
  "\<not> vt_eq (m_type cv) v (m_val cv) \<Longrightarrow> m_cbs cv = pre @ i # post \<Longrightarrow>
   all_return call (m_val cv) v pre w \<Longrightarrow>
   call (snd i) (m_val cv) v (after_listeners call (m_val cv) v pre w) = (w', Some e) \<Longrightarrow>
   ConfigVar_setValue call v (cv, w) = ((cv, w'), Some e)"
  by (simp add: ConfigVar_setValue_def setValue_notify_def call_listeners_throw)

text \<open>Nothing but the value ever changes.\<close>

lemma setValue_frame: "\<exists>v w'. fst (ConfigVar_setValue call val (cv, w)) = (cv\<lparr>m_val := v\<rparr>, w') \<and> (v = val \<or> v = m_val cv)"
proof (cases "setValue_notify call val cv w")
  case (Pair w' r)
  show ?thesis
  proof (cases "r = Inr True")
    case True
    with Pair show ?thesis
      by (intro exI [of _ val] exI [of _ w']) (simp add: ConfigVar_setValue_def setValue_store_def)
  next
    case False
    with Pair show ?thesis
      by (intro exI [of _ "m_val cv"] exI [of _ w'])
        (auto simp: ConfigVar_setValue_def split: sum.splits bool.splits)
  qed
qed

lemma fromString_value:
  assumes "vt_from_str (m_type cv) s = Inr v"
    and "ConfigVar_setValue call v (cv, ef_print fx (vt_prints (m_type cv) s) w) = ((cv', w'), r)"
  shows "ConfigVar_fromString fx call s (cv, w) =
           (case r of
              None \<Rightarrow> ((cv', w'), Inr False)
            | Some e \<Rightarrow> if is_std_exception e then ((cv', ef_log_error fx (fromString_complaint e cv') w'), Inr False)
                        else ((cv', w'), Inl e))"
  using assms by (simp add: ConfigVar_fromString_def split: option.split)

lemma fromString_unreadable:
  assumes "vt_from_str (m_type cv) s = Inl e"
  shows "ConfigVar_fromString fx call s (cv, w) =
           (let w1 = ef_print fx (vt_prints (m_type cv) s) w in
            if is_std_exception e then ((cv, ef_log_error fx (fromString_complaint e cv) w1), Inr False)
            else ((cv, w1), Inl e))"
  using assms by (simp add: ConfigVar_fromString_def)

lemma fromString_frame:
  "\<exists>v w'. fst (ConfigVar_fromString fx call s (cv, w)) = (cv\<lparr>m_val := v\<rparr>, w') \<and>
          (v = m_val cv \<or> vt_from_str (m_type cv) s = Inr v)"
proof (cases "vt_from_str (m_type cv) s")
  case (Inl e)
  then show ?thesis by (intro exI [of _ "m_val cv"]) (simp add: fromString_unreadable Let_def)
next
  case (Inr v)
  obtain v' w' r where set: "ConfigVar_setValue call v (cv, ef_print fx (vt_prints (m_type cv) s) w) = ((cv\<lparr>m_val := v'\<rparr>, w'), r)"
    "v' = v \<or> v' = m_val cv"
    using setValue_frame [of call v cv "ef_print fx (vt_prints (m_type cv) s) w"] by (metis prod.collapse)
  show ?thesis
    using set(2) Inr by (intro exI [of _ v']) (auto simp: fromString_value [OF Inr set(1)] split: option.split)
qed

text \<open>C24: \<open>setValue\<close> with a value that is not equal to the old one calls the listeners in the order of
  their ids, each with the old and the new value, and then stores the new value; the first listener that
  throws stops it, before the store and before the later listeners. An equal value changes nothing.\<close>

theorem set_value_notifies:
  "(vt_eq (m_type cv) v (m_val cv) \<longrightarrow> ConfigVar_setValue call v (cv, w) = ((cv, w), None)) \<and>
   (\<not> vt_eq (m_type cv) v (m_val cv) \<longrightarrow>
      (all_return call (m_val cv) v (m_cbs cv) w \<and>
       ConfigVar_setValue call v (cv, w) =
         ((cv\<lparr>m_val := v\<rparr>, after_listeners call (m_val cv) v (m_cbs cv) w), None)) \<or>
      (\<exists>pre i post w' e.
         m_cbs cv = pre @ i # post \<and> all_return call (m_val cv) v pre w \<and>
         call (snd i) (m_val cv) v (after_listeners call (m_val cv) v pre w) = (w', Some e) \<and>
         ConfigVar_setValue call v (cv, w) = ((cv, w'), Some e)))"
proof (intro conjI impI)
  assume ne: "\<not> vt_eq (m_type cv) v (m_val cv)"
  show "(all_return call (m_val cv) v (m_cbs cv) w \<and>
       ConfigVar_setValue call v (cv, w) =
         ((cv\<lparr>m_val := v\<rparr>, after_listeners call (m_val cv) v (m_cbs cv) w), None)) \<or>
      (\<exists>pre i post w' e.
         m_cbs cv = pre @ i # post \<and> all_return call (m_val cv) v pre w \<and>
         call (snd i) (m_val cv) v (after_listeners call (m_val cv) v pre w) = (w', Some e) \<and>
         ConfigVar_setValue call v (cv, w) = ((cv, w'), Some e))"
  proof (cases rule: call_listeners_cases [of call "m_val cv" v "m_cbs cv" w])
    case 1
    with setValue_return [OF ne 1] show ?thesis by simp
  next
    case (2 pre i post w' e)
    with setValue_throw [OF ne 2] show ?thesis by blast
  qed
qed (rule setValue_equal)

text \<open>A type of numbers, and a listener that records what it is told.\<close>

definition num_type :: "nat vtype" where
  "num_type = \<lparr>vt_name = ''i'',
     vt_from_str = (\<lambda>s. if s = [] then Inl (Lib_Exception ''bad lexical cast'') else Inr (length s)),
     vt_to_str = (\<lambda>n. Inr (replicate n CHR ''1'')), vt_eq = (=), vt_prints = (\<lambda>s. [])\<rparr>"

definition record_call :: "(nat, nat, (nat \<times> nat \<times> nat) list) listener" where
  "record_call c old new w = (w @ [(c, old, new)], if c = 9 then Some (Logic_Error ''listener'') else None)"

theorem set_value_notifies_witness:
  "ConfigVar_setValue record_call 3 ((ConfigVar_ctor num_type ''port'' 1 '''')\<lparr>m_cbs := [(1, 5), (2, 9), (4, 6)]\<rparr>, []) =
     (((ConfigVar_ctor num_type ''port'' 1 '''')\<lparr>m_cbs := [(1, 5), (2, 9), (4, 6)]\<rparr>, [(5, 1, 3), (9, 1, 3)]),
      Some (Logic_Error ''listener''))"
proof -
  let ?cv = "(ConfigVar_ctor num_type ''port'' 1 '''')\<lparr>m_cbs := [(1, 5), (2, 9), (4, 6)]\<rparr> :: (nat, nat) config_var"
  have ne: "\<not> vt_eq (m_type ?cv) 3 (m_val ?cv)" by (simp add: ConfigVar_ctor_def num_type_def)
  have "\<not> all_return record_call (m_val ?cv) 3 (m_cbs ?cv) []" by (simp add: record_call_def)
  then obtain pre i post w' e where *: "m_cbs ?cv = pre @ i # post" "all_return record_call (m_val ?cv) 3 pre []"
    "record_call (snd i) (m_val ?cv) 3 (after_listeners record_call (m_val ?cv) 3 pre []) = (w', Some e)"
    "ConfigVar_setValue record_call 3 (?cv, []) = ((?cv, w'), Some e)"
    using set_value_notifies [of ?cv 3 record_call "[]"] ne by blast
  from *(3) have "snd i = 9" "e = Logic_Error ''listener''" by (simp_all add: record_call_def split: if_splits)
  moreover from this(1) *(1,2) have "pre = [(1, 5)]"
    by (cases pre; cases "drop 1 pre") (auto simp: Cons_eq_append_conv record_call_def)
  ultimately show ?thesis using *(3,4) by (simp add: after_listeners_def record_call_def ConfigVar_ctor_def)
qed

text \<open>\<open>fromString\<close> never reports success: it returns false, or lets an exception through that is not
  a \<open>std::exception\<close>. A text that does not convert leaves the variable as it was.\<close>

lemma from_string_result:
  "snd (ConfigVar_fromString fx call s (cv, w)) = Inr False \<or>
   (\<exists>e. snd (ConfigVar_fromString fx call s (cv, w)) = Inl e \<and> \<not> is_std_exception e)"
  "vt_from_str (m_type cv) s = Inl e \<Longrightarrow> fst (fst (ConfigVar_fromString fx call s (cv, w))) = cv"
  by (auto simp: ConfigVar_fromString_def Let_def split: prod.splits option.splits sum.splits)

section \<open>A listener that follows its variable\<close>

text \<open>
  The contract of a listener that keeps a part of the program in step with a variable: told of a new value, it
  returns, and the rest of the program, which was in the relation \<open>rel\<close> to the old value, is in it to the new one;
  \<open>post\<close> is what the change itself leaves. \<open>ok\<close> holds of the values the variable is set to.
\<close>

locale listener_contract =
  fixes call :: "('v, 'c, 'w) listener"
    and cb :: 'c
    and ok :: "'v \<Rightarrow> bool"
    and rel :: "'v \<Rightarrow> 'w \<Rightarrow> bool"
    and post :: "'v \<Rightarrow> 'v \<Rightarrow> 'w \<Rightarrow> bool"
  assumes told: "rel old w \<Longrightarrow> ok new \<Longrightarrow> \<exists>w'. call cb old new w = (w', None) \<and> rel new w' \<and> post old new w'"
    and post_same: "rel v w \<Longrightarrow> post v v w"
begin

lemma setValue_follows:
  assumes "m_cbs cv = [(i, cb)]" and "vt_eq (m_type cv) = (=)" and "rel (m_val cv) w" and "ok v"
  shows "\<exists>w'. ConfigVar_setValue call v (cv, w) = ((setValue_store v cv, w'), None) \<and> rel v w' \<and> post (m_val cv) v w'"
proof (cases "v = m_val cv")
  case True
  then have "setValue_store v cv = cv" by (simp add: setValue_store_def)
  with True setValue_equal [of cv v call w] assms post_same show ?thesis by simp
next
  case False
  obtain w' where "call cb (m_val cv) v w = (w', None)" "rel v w'" "post (m_val cv) v w'"
    using told [OF assms(3,4)] by blast
  with False assms(1,2) show ?thesis by (simp add: ConfigVar_setValue_def setValue_notify_def)
qed

lemma fromString_follows:
  assumes "m_cbs cv = [(i, cb)]" and "vt_eq (m_type cv) = (=)"
    and "rel (m_val cv) (ef_print fx (vt_prints (m_type cv) s) w)"
    and "vt_from_str (m_type cv) s = Inr v" and "ok v"
  shows "\<exists>w'. ConfigVar_fromString fx call s (cv, w) = ((setValue_store v cv, w'), Inr False) \<and> rel v w' \<and>
           post (m_val cv) v w'"
  using setValue_follows [OF assms(1-3,5)] fromString_value [OF assms(4)] by fastforce

end

section \<open>Listener ids\<close>

text \<open>
  What happens to one variable and the counter of its type: its own calls, and calls of \<open>addListener\<close> on
  other variables of the type, which advance the counter.
\<close>

datatype 'c cv_op = Add_Listener 'c | Del_Listener "64 word" | Clear_Listener | Add_Elsewhere

fun cv_op_step :: "'c cv_op \<Rightarrow> 64 word \<times> ('v, 'c) config_var \<Rightarrow> 64 word list \<times> 64 word \<times> ('v, 'c) config_var" where
  "cv_op_step (Add_Listener cb) (n, cv) =
     (case ConfigVar_addListener cb n cv of (i, cv', n') \<Rightarrow> ([i], n', cv'))"
| "cv_op_step (Del_Listener key) (n, cv) = ([], n, ConfigVar_delListener key cv)"
| "cv_op_step Clear_Listener (n, cv) = ([], n, ConfigVar_clearListener cv)"
| "cv_op_step Add_Elsewhere (n, cv) = ([], n + 1, cv)"

fun cv_run :: "'c cv_op list \<Rightarrow> 64 word \<times> ('v, 'c) config_var \<Rightarrow> 64 word list \<times> 64 word \<times> ('v, 'c) config_var" where
  "cv_run [] s = ([], s)"
| "cv_run (op # ops) s =
     (case cv_op_step op s of (ids, s') \<Rightarrow> (case cv_run ops s' of (ids', s'') \<Rightarrow> (ids @ ids', s'')))"

text \<open>All ids in the map have been given out and the map is sorted.\<close>

definition ids_below :: "64 word \<Rightarrow> ('v, 'c) config_var \<Rightarrow> bool" where
  "ids_below n cv \<longleftrightarrow> smap_ok (m_cbs cv) \<and> (\<forall>k\<in>fst ` set (m_cbs cv). k \<le> n)"

lemma word_succ_less: "unat n + 1 < 2 ^ 64 \<Longrightarrow> n < n + 1 \<and> unat (n + 1) = unat n + 1" for n :: "64 word"
proof -
  assume "unat n + 1 < 2 ^ 64"
  then have "unat (n + 1) = unat n + 1" by (simp add: unat_word_ariths)
  then show ?thesis by (simp add: word_less_nat_alt)
qed

lemma set_smap_erase: "set (smap_erase k m) = {e \<in> set m. fst e \<noteq> k}"
  by (auto simp: smap_erase_def)

lemma addListener_appends:
  assumes "ids_below n cv" and "unat n + 1 < 2 ^ 64"
  shows "ConfigVar_addListener cb n cv = (n + 1, cv\<lparr>m_cbs := m_cbs cv @ [(n + 1, cb)]\<rparr>, n + 1)"
proof -
  have "\<forall>j\<in>fst ` set (m_cbs cv). j < n + 1"
    using assms word_succ_less [OF assms(2)] by (auto simp: ids_below_def)
  then show ?thesis by (simp add: ConfigVar_addListener_def smap_put_last Let_def)
qed

lemma cv_op_step_ids:
  assumes "ids_below n cv" and "unat n + 1 < 2 ^ 64" and "cv_op_step op (n, cv) = (ids, n', cv')"
  shows "ids_below n' cv' \<and> unat n' \<le> unat n + 1 \<and> (ids = [] \<and> n \<le> n' \<or> ids = [n'] \<and> n < n')"
proof (cases op)
  case (Add_Listener cb)
  have "smap_ok (m_cbs cv @ [(n + 1, cb)])"
    using assms word_succ_less [OF assms(2)] by (auto simp: ids_below_def smap_ok_def sorted_wrt_append)
  moreover have "\<forall>k\<in>fst ` set (m_cbs cv). k \<le> n + 1"
    using assms(1) word_succ_less [OF assms(2)] by (meson ids_below_def less_imp_le order.trans)
  ultimately show ?thesis
    using assms(1,3) addListener_appends [OF assms(1,2)] word_succ_less [OF assms(2)] Add_Listener
    by (auto simp: ids_below_def)
next
  case (Del_Listener key)
  then show ?thesis
    using assms by (auto simp: ids_below_def ConfigVar_delListener_def set_smap_erase)
next
  case Clear_Listener
  then show ?thesis using assms by (auto simp: ids_below_def ConfigVar_clearListener_def)
next
  case Add_Elsewhere
  then show ?thesis using assms word_succ_less [OF assms(2)] by (auto simp: ids_below_def)
qed

lemma cv_run_ids:
  assumes "ids_below n cv" and "unat n + length ops < 2 ^ 64" and "cv_run ops (n, cv) = (ids, n', cv')"
  shows "ids_below n' cv' \<and> sorted_wrt (<) ids \<and> (\<forall>i\<in>set ids. n < i)"
  using assms
proof (induction ops arbitrary: n cv ids)
  case Nil
  then show ?case by simp
next
  case (Cons op ops)
  obtain is1 n1 cv1 where s1: "cv_op_step op (n, cv) = (is1, n1, cv1)" by (cases "cv_op_step op (n, cv)") auto
  obtain is2 where s2: "cv_run ops (n1, cv1) = (is2, n', cv')" "ids = is1 @ is2"
    using Cons.prems(3) s1 by (auto split: prod.splits)
  note st = cv_op_step_ids [OF Cons.prems(1) _ s1]
  have "ids_below n1 cv1" "unat n1 + length ops < 2 ^ 64"
    using st Cons.prems(2) by auto
  from Cons.IH [OF this s2(1)] st Cons.prems(2) s2(2) show ?case
    by (auto simp: sorted_wrt_append)
qed

text \<open>C25: Of fewer than \<open>2^64\<close> calls on the variables of a type, the listener ids that one variable gives
  out are all different, never 0 and increasing; so \<open>m_cbs\<close>, which is ordered by id, holds the listeners
  in the order they were added, and \<open>getListener\<close> finds the one that was added last.\<close>

theorem listener_ids_unique:
  assumes "length ops < 2 ^ 64" and "cv_run ops (0, ConfigVar_ctor ty name v d) = (ids, n, cv)"
  shows "distinct ids \<and> sorted_wrt (<) ids \<and> 0 \<notin> set ids \<and> smap_ok (m_cbs cv) \<and>
         (unat n + 1 < 2 ^ 64 \<longrightarrow>
            (case ConfigVar_addListener cb n cv of (i, cv', n') \<Rightarrow>
               ConfigVar_getListener i cv = None \<and> ConfigVar_getListener i cv' = Some cb \<and>
               m_cbs cv' = m_cbs cv @ [(i, cb)]))"
proof -
  have start: "ids_below 0 (ConfigVar_ctor ty name v d)" by (simp add: ids_below_def ConfigVar_ctor_def)
  have run: "ids_below n cv \<and> sorted_wrt (<) ids \<and> (\<forall>i\<in>set ids. 0 < i)"
    by (rule cv_run_ids [OF start _ assms(2)]) (use assms(1) in simp)
  then have ok: "smap_ok (m_cbs cv)" by (simp add: ids_below_def)
  have "n + 1 \<notin> fst ` set (m_cbs cv)" "ConfigVar_addListener cb n cv = (n + 1, cv\<lparr>m_cbs := m_cbs cv @ [(n + 1, cb)]\<rparr>, n + 1)"
    if "unat n + 1 < 2 ^ 64"
    using run addListener_appends [of n cv cb] that word_succ_less [OF that] by (auto simp: ids_below_def)
  moreover have "map_of (m @ [(i, cb)]) i = Some cb" if "i \<notin> fst ` set m" for m and i :: "64 word"
    using that by (simp add: map_add_Some_iff map_of_eq_None_iff)
  ultimately show ?thesis
    using run ok
    by (auto simp: ConfigVar_getListener_def smap_find_def map_of_eq_None_iff strict_sorted_iff)
qed

theorem listener_ids_unique_witness:
  "case cv_run [Add_Listener 7, Add_Elsewhere, Del_Listener 1, Add_Listener 8]
          (0, ConfigVar_ctor num_type ''port'' 1 '''' :: (nat, nat) config_var) of
     (ids, n, cv) \<Rightarrow>
       ids = [1, 3] \<and> distinct ids \<and> 0 \<notin> set ids \<and> smap_ok (m_cbs cv) \<and>
       (case ConfigVar_addListener 9 n cv of (i, cv', n') \<Rightarrow>
          i = 4 \<and> ConfigVar_getListener 4 cv' = Some 9 \<and> m_cbs cv' = [(3, 8), (4, 9)])"
proof -
  let ?ops = "[Add_Listener 7, Add_Elsewhere, Del_Listener 1, Add_Listener (8 :: nat)]"
  let ?cv = "(ConfigVar_ctor num_type ''port'' 1 '''')\<lparr>m_cbs := [(3, 8)]\<rparr> :: (nat, nat) config_var"
  have run: "cv_run ?ops (0, ConfigVar_ctor num_type ''port'' 1 '''') = ([1, 3], 3, ?cv)"
    by (simp add: ConfigVar_addListener_def ConfigVar_delListener_def ConfigVar_ctor_def smap_erase_def)
  show ?thesis
    using listener_ids_unique [OF _ run, of 9] unfolding run by (simp add: ConfigVar_addListener_def ConfigVar_ctor_def)
qed

section \<open>Two threads that set a value\<close>

text \<open>
  \<open>setValue\<close> gives up the lock between its two critical sections. \<open>pend t\<close> is the value that thread \<open>t\<close> has
  told the listeners and not stored yet.
\<close>

inductive set_step ::
  "('v, 'c, 'w) listener \<Rightarrow> ('v, 'c) config_var \<times> 'w \<times> (nat \<Rightarrow> 'v option) \<Rightarrow>
   ('v, 'c) config_var \<times> 'w \<times> (nat \<Rightarrow> 'v option) \<Rightarrow> bool" for call where
  set_notify: "pend t = None \<Longrightarrow> setValue_notify call val cv w = (w', Inr True) \<Longrightarrow>
     set_step call (cv, w, pend) (cv, w', pend(t \<mapsto> val))"
| set_skip: "pend t = None \<Longrightarrow> setValue_notify call val cv w = (w', r) \<Longrightarrow> r \<noteq> Inr True \<Longrightarrow>
     set_step call (cv, w, pend) (cv, w', pend)"
| set_store: "pend t = Some val \<Longrightarrow> set_step call (cv, w, pend) (setValue_store val cv, w, pend(t := None))"

text \<open>A listener that keeps a copy of the value it was told last.\<close>

definition mirror_call :: "(nat, unit, nat) listener" where
  "mirror_call c old new w = (new, None)"

interpretation mirror: listener_contract mirror_call "()" "\<lambda>_. True" "\<lambda>v w. w = v" "\<lambda>_ _ _. True"
  by unfold_locales (simp_all add: mirror_call_def)

text \<open>C26: When calls of \<open>setValue\<close> follow each other, a listener that copies the new value always has the
  value of the variable; when two threads call it at the same time, the value that the listeners were told
  last and the value of the variable can stay different, with no call in progress.\<close>

theorem set_value_mirror:
  "(m_cbs cv = [(1, ())] \<and> m_type cv = num_type \<and> w = m_val cv \<longrightarrow>
    (\<forall>cv' w' r. ConfigVar_setValue mirror_call val (cv, w) = ((cv', w'), r) \<longrightarrow> w' = m_val cv' \<and> r = None)) \<and>
   (\<exists>cv'. (set_step mirror_call)\<^sup>*\<^sup>* ((ConfigVar_ctor num_type ''port'' 0 '''')\<lparr>m_cbs := [(1, ())]\<rparr>, 0, Map.empty)
            (cv', 2, Map.empty) \<and> m_val cv' = 1)"
proof (intro conjI impI)
  assume cv: "m_cbs cv = [(1, ())] \<and> m_type cv = num_type \<and> w = m_val cv"
  then have "vt_eq (m_type cv) = (=)" by (simp add: num_type_def)
  with mirror.setValue_follows [of cv 1 w val] cv
  show "\<forall>cv' w' r. ConfigVar_setValue mirror_call val (cv, w) = ((cv', w'), r) \<longrightarrow> w' = m_val cv' \<and> r = None"
    by (auto simp: setValue_store_def)
next
  let ?cv = "(ConfigVar_ctor num_type ''port'' 0 '''')\<lparr>m_cbs := [(1, ())]\<rparr> :: (nat, unit) config_var"
  let ?step = "set_step mirror_call"
  have n: "setValue_notify mirror_call v ?cv w = (v, Inr True)" if "v \<noteq> 0" for v w
    using that by (simp add: setValue_notify_def mirror_call_def num_type_def ConfigVar_ctor_def)
  define p1 p2 p3 where p: "p1 = [0 :: nat \<mapsto> (1 :: nat)]" "p2 = p1(1 \<mapsto> 2)" "p3 = p2(1 := None)"
  have "p3(0 := None) = Map.empty" "p2 1 = Some 2" "p3 0 = Some 1" "p1 1 = None" by (auto simp: p)
  then have steps: "?step (?cv, 0, Map.empty) (?cv, 1, p1)" "?step (?cv, 1, p1) (?cv, 2, p2)"
    "?step (?cv, 2, p2) (setValue_store 2 ?cv, 2, p3)"
    "?step (setValue_store 2 ?cv, 2, p3) (setValue_store 1 (setValue_store 2 ?cv), 2, Map.empty)"
    using set_notify [of Map.empty 0 mirror_call 1 ?cv 0 1] set_notify [of p1 1 mirror_call 2 ?cv 1 2]
      set_store [of p2 1 2 mirror_call ?cv 2] set_store [of p3 0 1 mirror_call "setValue_store 2 ?cv" 2]
    by (simp_all only: n one_neq_zero zero_neq_numeral [symmetric] not_False_eq_True) (simp_all add: n p(1,2,3))
  have "?step\<^sup>*\<^sup>* (?cv, 0, Map.empty) (setValue_store 1 (setValue_store 2 ?cv), 2, Map.empty)"
    using steps by (simp add: converse_rtranclp_into_rtranclp)
  then show "\<exists>cv'. ?step\<^sup>*\<^sup>* (?cv, 0, Map.empty) (cv', 2, Map.empty) \<and> m_val cv' = 1"
    by (intro exI conjI, assumption) (simp add: setValue_store_def)
qed

theorem set_value_mirror_witness:
  "ConfigVar_setValue mirror_call 5 ((ConfigVar_ctor num_type ''port'' 0 '''')\<lparr>m_cbs := [(1, ())]\<rparr>, 0) =
     (((ConfigVar_ctor num_type ''port'' 5 '''')\<lparr>m_cbs := [(1, ())]\<rparr>, 5), None)"
  using set_value_mirror [of "(ConfigVar_ctor num_type ''port'' 0 '''')\<lparr>m_cbs := [(1, ())]\<rparr>" 0 5]
  by (simp add: ConfigVar_ctor_def num_type_def mirror_call_def ConfigVar_setValue_def setValue_notify_def setValue_store_def)

end
