(* ===== verification/Config.thy ===== *)
theory Config
  imports Config_Var
begin

text \<open>
  \<open>Config\<close> of \<open>src/config.h\<close> and \<open>src/config.cpp\<close>: the registry of variables, and loading values from a
  YAML document. Variables live at addresses (\<open>std::shared_ptr\<close>), the registry maps names to addresses.
  The static counter of listener ids exists once for every type. Each operation runs under the lock
  of the registry, as the code takes it; the log lines of \<open>Lookup\<close>, \<open>toString\<close> and \<open>ListAllMember\<close> are left out, the
  one of \<open>fromString\<close> is an effect on the rest of the program.
\<close>

section \<open>State\<close>

record ('v, 'c, 'w) config_world =
  cw_vars :: "nat \<Rightarrow> ('v, 'c) config_var option"
  cw_next :: nat
  s_datas :: "(string, nat) smap"
  s_fun_ids :: "string \<Rightarrow> 64 word"
  cw_env :: 'w

definition config_init :: "'w \<Rightarrow> ('v, 'c, 'w) config_world" where
  "config_init w = \<lparr>cw_vars = Map.empty, cw_next = 0, s_datas = [], s_fun_ids = (\<lambda>_. 0), cw_env = w\<rparr>"

definition name_chars :: string where
  "name_chars = ''abcdefghijklmnopqrstuvwxyz._0123456789''"

section \<open>Operations\<close>

text \<open>
  \<open>dynamic_pointer_cast<ConfigVar<T>>\<close> succeeds when the variable has type \<open>T\<close>. The message about a type that
  does not match prints the variable, which can throw.
\<close>

definition Config_Lookup ::
  "'v vtype \<Rightarrow> string \<Rightarrow> 'v \<Rightarrow> string \<Rightarrow> ('v, 'c, 'w) config_world \<Rightarrow>
   ('v, 'c, 'w) config_world \<times> nat option result" where
  "Config_Lookup T name default_value description w =
     (case smap_find name (s_datas w) of
        Some a \<Rightarrow>
          (case cw_vars w a of
             None \<Rightarrow> (w, Inl (Undefined ''iter->second''))
           | Some cv \<Rightarrow>
               if ConfigVar_getTypeName cv = vt_name T then (w, Inr (Some a))
               else (case ConfigVar_toString cv of Inl e \<Rightarrow> (w, Inl e) | Inr _ \<Rightarrow> (w, Inr None)))
      | None \<Rightarrow>
          if has_char_not_of name_chars name then (w, Inl (Invalid_Argument name))
          else
            (let a = cw_next w in
             (w\<lparr>cw_vars := (cw_vars w)(a \<mapsto> ConfigVar_ctor T name default_value description),
                cw_next := a + 1, s_datas := smap_put name a (s_datas w)\<rparr>, Inr (Some a))))"

definition Config_Lookup_existing :: "'v vtype \<Rightarrow> string \<Rightarrow> ('v, 'c, 'w) config_world \<Rightarrow> nat option result" where
  "Config_Lookup_existing T name w =
     (case smap_find name (s_datas w) of
        None \<Rightarrow> Inr None
      | Some a \<Rightarrow>
          (case cw_vars w a of
             None \<Rightarrow> Inl (Undefined ''iter->second'')
           | Some cv \<Rightarrow> if ConfigVar_getTypeName cv = vt_name T then Inr (Some a) else Inr None))"

definition Config_LookupBase :: "string \<Rightarrow> ('v, 'c, 'w) config_world \<Rightarrow> nat option" where
  "Config_LookupBase name w = smap_find name (s_datas w)"

text \<open>
  The recursion of \<open>ListAllMember\<close> follows the document, which an alias can make infinite; \<open>None\<close> is a
  call that has not returned within its fuel.
\<close>

fun list_items :: "('i \<Rightarrow> 'o list option) \<Rightarrow> 'i list \<Rightarrow> 'o list option" where
  "list_items f [] = Some []"
| "list_items f (item # items) =
     (case f item of
        None \<Rightarrow> None
      | Some out \<Rightarrow> (case list_items f items of None \<Rightarrow> None | Some out' \<Rightarrow> Some (out @ out')))"

definition member_prefix :: "string \<Rightarrow> string \<Rightarrow> string" where
  "member_prefix prefix k = (if prefix = [] then k else prefix @ ''.'' @ k)"

fun ListAllMember :: "'n yaml \<Rightarrow> nat \<Rightarrow> string \<Rightarrow> 'n \<Rightarrow> (string \<times> 'n) list option" where
  "ListAllMember y 0 prefix node = None"
| "ListAllMember y (Suc k) prefix node =
     (if has_char_not_of name_chars prefix then Some []
      else if y_is_map y node
      then (case list_items (\<lambda>item. ListAllMember y k (member_prefix prefix (y_scalar y (fst item))) (snd item))
                   (y_items y node) of
              None \<Rightarrow> None
            | Some out \<Rightarrow> Some ((prefix, node) # out))
      else Some [(prefix, node)])"

definition node_text :: "'n yaml \<Rightarrow> 'n \<Rightarrow> string result" where
  "node_text y node = (if y_is_scalar y node then Inr (y_scalar y node) else y_dump y node)"

definition load_node ::
  "'n yaml \<Rightarrow> 'w effects \<Rightarrow> ('v, 'c, 'w) listener \<Rightarrow> string \<times> 'n \<Rightarrow> ('v, 'c, 'w) config_world \<Rightarrow>
   ('v, 'c, 'w) config_world \<times> error option" where
  "load_node y fx call node w =
     (let key = fst node in
      if key = [] then (w, None)
      else
        (let key = map tolower key in
         case Config_LookupBase key w of
           None \<Rightarrow> (w, None)
         | Some a \<Rightarrow>
             (case cw_vars w a of
                None \<Rightarrow> (w, Some (Undefined ''var''))
              | Some cv \<Rightarrow>
                  (case node_text y (snd node) of
                     Inl e \<Rightarrow> (w, Some e)
                   | Inr s \<Rightarrow>
                       (case ConfigVar_fromString fx call s (cv, cw_env w) of
                          ((cv', env'), r) \<Rightarrow>
                            (w\<lparr>cw_vars := (cw_vars w)(a \<mapsto> cv'), cw_env := env'\<rparr>,
                             (case r of Inl e \<Rightarrow> Some e | Inr _ \<Rightarrow> None)))))))"

fun load_nodes ::
  "'n yaml \<Rightarrow> 'w effects \<Rightarrow> ('v, 'c, 'w) listener \<Rightarrow> (string \<times> 'n) list \<Rightarrow> ('v, 'c, 'w) config_world \<Rightarrow>
   ('v, 'c, 'w) config_world \<times> error option" where
  "load_nodes y fx call [] w = (w, None)"
| "load_nodes y fx call (node # nodes) w =
     (case load_node y fx call node w of
        (w', None) \<Rightarrow> load_nodes y fx call nodes w'
      | (w', Some e) \<Rightarrow> (w', Some e))"

definition Config_LoadFromYaml ::
  "'n yaml \<Rightarrow> nat \<Rightarrow> 'w effects \<Rightarrow> ('v, 'c, 'w) listener \<Rightarrow> 'n \<Rightarrow> ('v, 'c, 'w) config_world \<Rightarrow>
   ('v, 'c, 'w) config_world \<times> error option" where
  "Config_LoadFromYaml y fuel fx call root w =
     (case ListAllMember y fuel [] root of
        None \<Rightarrow> (w, Some No_Return)
      | Some nodes \<Rightarrow> load_nodes y fx call nodes w)"

definition Config_Visit :: "(nat \<Rightarrow> 's \<Rightarrow> 's result) \<Rightarrow> ('v, 'c, 'w) config_world \<Rightarrow> 's \<Rightarrow> 's result" where
  "Config_Visit cb w s = fold_r (\<lambda>config. cb (snd config)) (s_datas w) s"

text \<open>The calls on a variable, through its address.\<close>

definition Config_setValue ::
  "('v, 'c, 'w) listener \<Rightarrow> nat \<Rightarrow> 'v \<Rightarrow> ('v, 'c, 'w) config_world \<Rightarrow> ('v, 'c, 'w) config_world \<times> error option" where
  "Config_setValue call a v w =
     (case cw_vars w a of
        None \<Rightarrow> (w, Some (Undefined ''null''))
      | Some cv \<Rightarrow>
          (case ConfigVar_setValue call v (cv, cw_env w) of
             ((cv', env'), r) \<Rightarrow> (w\<lparr>cw_vars := (cw_vars w)(a \<mapsto> cv'), cw_env := env'\<rparr>, r)))"

definition Config_addListener ::
  "'c \<Rightarrow> nat \<Rightarrow> ('v, 'c, 'w) config_world \<Rightarrow> ('v, 'c, 'w) config_world \<times> 64 word result" where
  "Config_addListener cb a w =
     (case cw_vars w a of
        None \<Rightarrow> (w, Inl (Undefined ''null''))
      | Some cv \<Rightarrow>
          (case ConfigVar_addListener cb (s_fun_ids w (ConfigVar_getTypeName cv)) cv of
             (i, cv', n) \<Rightarrow>
               (w\<lparr>cw_vars := (cw_vars w)(a \<mapsto> cv'),
                  s_fun_ids := (s_fun_ids w)(ConfigVar_getTypeName cv := n)\<rparr>, Inr i)))"

definition Config_delListener :: "64 word \<Rightarrow> nat \<Rightarrow> ('v, 'c, 'w) config_world \<Rightarrow> ('v, 'c, 'w) config_world result" where
  "Config_delListener key a w =
     (case cw_vars w a of
        None \<Rightarrow> Inl (Undefined ''null'')
      | Some cv \<Rightarrow> Inr (w\<lparr>cw_vars := (cw_vars w)(a \<mapsto> ConfigVar_delListener key cv)\<rparr>))"

definition Config_clearListener :: "nat \<Rightarrow> ('v, 'c, 'w) config_world \<Rightarrow> ('v, 'c, 'w) config_world result" where
  "Config_clearListener a w =
     (case cw_vars w a of
        None \<Rightarrow> Inl (Undefined ''null'')
      | Some cv \<Rightarrow> Inr (w\<lparr>cw_vars := (cw_vars w)(a \<mapsto> ConfigVar_clearListener cv)\<rparr>))"

section \<open>The members of a document\<close>

text \<open>
  A node of a document is at an index path below the root: the position of the entry to follow in each map on the
  way. \<open>yaml_at\<close> gives the keys on the way and the node.
\<close>

fun yaml_at :: "'n yaml \<Rightarrow> 'n \<Rightarrow> nat list \<Rightarrow> (string list \<times> 'n) option" where
  "yaml_at y n [] = Some ([], n)"
| "yaml_at y n (i # is) =
     (if y_is_map y n \<and> i < length (y_items y n)
      then map_option (\<lambda>(ks, m). (y_scalar y (fst (y_items y n ! i)) # ks, m)) (yaml_at y (snd (y_items y n ! i)) is)
      else None)"

text \<open>The index paths at which the keys, joined by dots, consist of the characters of a name.\<close>

definition path_name :: "string \<Rightarrow> string list \<Rightarrow> string" where
  "path_name prefix ks = foldl member_prefix prefix ks"

definition valid_name :: "string \<Rightarrow> bool" where
  "valid_name s \<longleftrightarrow> set s \<subseteq> set name_chars"

lemma has_char_not_of_valid [simp]: "has_char_not_of name_chars s \<longleftrightarrow> \<not> valid_name s"
  by (simp add: has_char_not_of_iff valid_name_def)

lemma valid_name_Nil [simp]: "valid_name []"
  by (simp add: valid_name_def)

lemma valid_member_prefix: "valid_name (foldl member_prefix p ks) \<Longrightarrow> valid_name p"
proof (induction ks arbitrary: p)
  case (Cons k ks)
  then have "valid_name (member_prefix p k)" by simp
  then show ?case by (auto simp: member_prefix_def valid_name_def split: if_splits)
qed simp

lemma list_items_Some:
  "list_items f items = Some out \<longleftrightarrow> (\<forall>i\<in>set items. f i \<noteq> None) \<and> out = concat (map (\<lambda>i. the (f i)) items)"
proof (induction items arbitrary: out)
  case (Cons item items)
  show ?case
  proof (cases "f item")
    case (Some o1)
    show ?thesis
    proof (cases "list_items f items")
      case None
      then have "\<not> (\<forall>i\<in>set items. f i \<noteq> None)"
        using Cons.IH [of "concat (map (\<lambda>i. the (f i)) items)"] by simp
      then show ?thesis using None Some by simp
    next
      case (Some o2)
      then show ?thesis using \<open>f item = Some o1\<close> Cons.IH [of o2] by auto
    qed
  qed simp
qed auto

lemma list_items_None: "i \<in> set items \<Longrightarrow> f i = None \<Longrightarrow> list_items f items = None"
  by (induction items) (auto split: option.splits)

text \<open>The document under a root is a finite tree: \<open>d\<close> decreases from every node below the root to its entries.\<close>

definition depth_bound :: "'n yaml \<Rightarrow> 'n \<Rightarrow> ('n \<Rightarrow> nat) \<Rightarrow> bool" where
  "depth_bound y root d \<longleftrightarrow>
     (\<forall>is ks n item. yaml_at y root is = Some (ks, n) \<longrightarrow> y_is_map y n \<longrightarrow> item \<in> set (y_items y n) \<longrightarrow>
        d (snd item) < d n)"

lemma depth_bound_item:
  assumes "depth_bound y n d" and "y_is_map y n" and "item \<in> set (y_items y n)"
  shows "d (snd item) < d n \<and> depth_bound y (snd item) d"
proof -
  obtain i where i: "i < length (y_items y n)" "item = y_items y n ! i" using assms(3) by (auto simp: in_set_conv_nth)
  have down: "\<exists>ks'. yaml_at y n (i # is) = Some (ks', m)" if "yaml_at y (snd item) is = Some (ks, m)" for "is" ks m
    using that i assms(2) by simp
  have "yaml_at y n [] = Some ([], n)" by simp
  then have "d (snd item) < d n" using assms unfolding depth_bound_def by blast
  moreover have "depth_bound y (snd item) d"
    unfolding depth_bound_def
  proof (intro allI impI)
    fix "is" ks m it
    assume "yaml_at y (snd item) is = Some (ks, m)" "y_is_map y m" "it \<in> set (y_items y m)"
    with down assms(1) show "d (snd it) < d m" unfolding depth_bound_def by blast
  qed
  ultimately show ?thesis by blast
qed

lemma ListAllMember_total:
  assumes "depth_bound y node d" and "d node < k"
  shows "\<exists>out. ListAllMember y k prefix node = Some out"
  using assms
proof (induction k arbitrary: prefix node)
  case (Suc k)
  have "\<exists>out. list_items (\<lambda>item. ListAllMember y k (member_prefix prefix (y_scalar y (fst item))) (snd item))
          (y_items y node) = Some out" if "y_is_map y node"
  proof -
    have "d (snd item) < k \<and> depth_bound y (snd item) d" if "item \<in> set (y_items y node)" for item
      using depth_bound_item [OF Suc.prems(1) \<open>y_is_map y node\<close> that] Suc.prems(2) by simp
    then show ?thesis using Suc.IH by (simp add: list_items_Some)
  qed
  then show ?case by auto
qed simp

text \<open>The listing follows the index paths in their lexicographic order, each once.\<close>

definition member_at :: "'n yaml \<Rightarrow> string \<Rightarrow> 'n \<Rightarrow> nat list \<Rightarrow> string \<times> 'n" where
  "member_at y prefix node is = (case the (yaml_at y node is) of (ks, n) \<Rightarrow> (path_name prefix ks, n))"

definition member_paths :: "'n yaml \<Rightarrow> string \<Rightarrow> 'n \<Rightarrow> nat list set" where
  "member_paths y prefix node = {is. \<exists>ks n. yaml_at y node is = Some (ks, n) \<and> valid_name (path_name prefix ks)}"

lemma Nil_in_member_paths [simp]: "[] \<in> member_paths y prefix node \<longleftrightarrow> valid_name prefix"
  by (simp add: member_paths_def path_name_def)

lemma Cons_in_member_paths [simp]:
  "i # is \<in> member_paths y prefix node \<longleftrightarrow>
     y_is_map y node \<and> i < length (y_items y node) \<and>
     is \<in> member_paths y (member_prefix prefix (y_scalar y (fst (y_items y node ! i)))) (snd (y_items y node ! i))"
  by (auto simp: member_paths_def path_name_def)

lemma member_at_Cons:
  assumes "i # is \<in> member_paths y prefix node"
  shows "member_at y prefix node (i # is) =
           member_at y (member_prefix prefix (y_scalar y (fst (y_items y node ! i)))) (snd (y_items y node ! i)) is"
  using assms by (auto simp: member_at_def member_paths_def path_name_def)

lemma sorted_paths_below:
  assumes "\<forall>i<n. sorted_wrt (<) (f i)"
  shows "sorted_wrt (<) (concat (map (\<lambda>i. map ((#) i) (f i)) [0..<n :: nat]) :: nat list list)"
  using assms
proof (induction n)
  case (Suc n)
  then have "sorted_wrt (<) (map ((#) n) (f n))" by (simp add: sorted_wrt_map)
  with Suc show ?case by (auto simp: sorted_wrt_append)
qed simp

lemma ListAllMember_paths:
  assumes "ListAllMember y k prefix node = Some out"
  shows "\<exists>paths. sorted_wrt (<) paths \<and> set paths = member_paths y prefix node \<and> out = map (member_at y prefix node) paths"
  using assms
proof (induction k arbitrary: prefix node out)
  case (Suc k)
  let ?key = "\<lambda>i. member_prefix prefix (y_scalar y (fst (y_items y node ! i)))"
  let ?sub = "\<lambda>i. snd (y_items y node ! i)"
  let ?f = "\<lambda>item. ListAllMember y k (member_prefix prefix (y_scalar y (fst item))) (snd item)"
  have here: "member_at y prefix node [] = (prefix, node)" by (simp add: member_at_def path_name_def)
  consider (bad) "\<not> valid_name prefix" | (leaf) "valid_name prefix" "\<not> y_is_map y node"
    | (map) "valid_name prefix" "y_is_map y node" by blast
  then show ?case
  proof cases
    case bad
    then have "\<not> valid_name (path_name prefix ks)" for ks using valid_member_prefix by (auto simp: path_name_def)
    with bad Suc.prems show ?thesis by (intro exI [of _ "[]"]) (auto simp: member_paths_def)
  next
    case leaf
    then have "is \<in> member_paths y prefix node \<longleftrightarrow> is = []" for "is" by (cases "is") auto
    with leaf Suc.prems here show ?thesis by (intro exI [of _ "[[]]"]) auto
  next
    case map
    with Suc.prems obtain os where os: "list_items ?f (y_items y node) = Some os" "out = (prefix, node) # os"
      by (auto split: option.splits)
    let ?n = "length (y_items y node)"
    have "\<exists>ps. sorted_wrt (<) ps \<and> set ps = member_paths y (?key i) (?sub i) \<and>
        the (?f (y_items y node ! i)) = map (member_at y (?key i) (?sub i)) ps" if "i < ?n" for i
    proof -
      have "y_items y node ! i \<in> set (y_items y node)" using that by simp
      then have "?f (y_items y node ! i) \<noteq> None" using os(1) by (simp add: list_items_Some)
      then obtain o1 where "?f (y_items y node ! i) = Some o1" by blast
      with Suc.IH [OF this] show ?thesis by simp
    qed
    then obtain f where f: "sorted_wrt (<) (f i)" "set (f i) = member_paths y (?key i) (?sub i)"
      "the (?f (y_items y node ! i)) = map (member_at y (?key i) (?sub i)) (f i)" if "i < ?n" for i by metis
    let ?ps = "concat (map (\<lambda>i. map ((#) i) (f i)) [0..<?n])"
    have "is \<in> member_paths y prefix node \<longleftrightarrow> is \<in> set ([] # ?ps)" for "is"
      using map f(2) by (cases "is") auto
    then have paths: "set ([] # ?ps) = member_paths y prefix node" by blast
    have "sorted_wrt (<) ([] # ?ps)" using sorted_paths_below [of ?n f] f(1) by auto
    moreover have "os = map (member_at y prefix node) ?ps"
    proof -
      have "os = concat (map (\<lambda>item. the (?f item)) (y_items y node))" using os(1) by (simp add: list_items_Some)
      also have "map (\<lambda>item. the (?f item)) (y_items y node) = map (\<lambda>i. the (?f (y_items y node ! i))) [0..<?n]"
        by (rule nth_equalityI) simp_all
      also have "concat \<dots> = concat (map (\<lambda>i. map (member_at y prefix node) (map ((#) i) (f i))) [0..<?n])"
      proof (intro arg_cong [of _ _ concat] map_cong refl)
        fix i assume "i \<in> set [0..<?n]"
        then have i: "i < ?n" by simp
        have "member_at y prefix node (i # is) = member_at y (?key i) (?sub i) is" if "is \<in> set (f i)" for "is"
          by (rule member_at_Cons) (use that f(2) [OF i] i map in simp)
        then show "the (?f (y_items y node ! i)) = map (member_at y prefix node) (map ((#) i) (f i))"
          using f(3) [OF i] by simp
      qed
      also have "\<dots> = map (member_at y prefix node) ?ps" by (simp add: map_concat comp_def)
      finally show ?thesis .
    qed
    ultimately show ?thesis using os(2) here paths by (intro exI [of _ "[] # ?ps"]) simp
  qed
qed simp

lemma ListAllMember_valid: "ListAllMember y k prefix node = Some out \<Longrightarrow> (p, n) \<in> set out \<Longrightarrow> valid_name p"
  using ListAllMember_paths [of y k prefix node out] by (force simp: member_paths_def member_at_def)

section \<open>The invariant of the registry\<close>

definition config_wf :: "('v, 'c, 'w) config_world \<Rightarrow> bool" where
  "config_wf w \<longleftrightarrow>
     smap_ok (s_datas w) \<and> distinct (map snd (s_datas w)) \<and>
     (\<forall>(k, a)\<in>set (s_datas w). valid_name k \<and> (\<exists>cv. cw_vars w a = Some cv \<and> m_name cv = k)) \<and>
     (\<forall>a. cw_vars w a \<noteq> None \<longrightarrow> a < cw_next w)"

lemma config_wf_find:
  assumes "config_wf w" and "smap_find k (s_datas w) = Some a"
  shows "\<exists>cv. cw_vars w a = Some cv \<and> m_name cv = k" and "valid_name k"
  using assms smap_find_in_set [OF assms(2)] by (auto simp: config_wf_def)

lemma config_wf_update:
  assumes "config_wf w" and "cw_vars w a = Some cv" and "m_name cv' = m_name cv"
  shows "config_wf (w\<lparr>cw_vars := (cw_vars w)(a \<mapsto> cv')\<rparr>)"
  using assms by (fastforce simp: config_wf_def)

lemma config_wf_env [simp]:
  "config_wf (w\<lparr>cw_env := e\<rparr>) = config_wf w" "config_wf (w\<lparr>s_fun_ids := f\<rparr>) = config_wf w"
  by (simp_all add: config_wf_def)

lemma config_wf_init [simp]: "config_wf (config_init e)"
  by (simp add: config_wf_def config_init_def)

lemma map_tolower_valid: "valid_name s \<Longrightarrow> map tolower s = s"
proof (rule map_idI)
  fix c
  assume "valid_name s" "c \<in> set s"
  then have "c \<in> set name_chars" by (auto simp: valid_name_def)
  then have "\<not> (CHR ''A'' \<le> c \<and> c \<le> CHR ''Z'')"
    unfolding name_chars_def by (auto simp: less_eq_char_def)
  then show "tolower c = c" by (rule tolower_id)
qed

lemma snd_smap_put: "k \<notin> fst ` set m \<Longrightarrow> snd ` set (smap_put k v m) = insert v (snd ` set m)"
  by (induction k v m rule: smap_put.induct) auto

lemma distinct_snd_smap_put:
  "k \<notin> fst ` set m \<Longrightarrow> v \<notin> snd ` set m \<Longrightarrow> distinct (map snd m) \<Longrightarrow> distinct (map snd (smap_put k v m))"
proof (induction k v m rule: smap_put.induct)
  case (2 k v k' v' m)
  then show ?case using snd_smap_put [of k m v] by auto
qed simp

lemma set_smap_put: "k \<notin> fst ` set m \<Longrightarrow> set (smap_put k v m) = insert (k, v) (set m)"
  by (induction k v m rule: smap_put.induct) auto

lemma Config_Lookup_new:
  assumes "smap_find name (s_datas w) = None" and "valid_name name"
  shows "Config_Lookup T name v d w =
     (w\<lparr>cw_vars := (cw_vars w)(cw_next w \<mapsto> ConfigVar_ctor T name v d), cw_next := cw_next w + 1,
        s_datas := smap_put name (cw_next w) (s_datas w)\<rparr>, Inr (Some (cw_next w)))"
  using assms by (simp add: Config_Lookup_def Let_def del: smap_find_eq_None)

lemma config_wf_Lookup:
  assumes wf: "config_wf w"
  shows "config_wf (fst (Config_Lookup T name v d w))"
proof (cases "smap_find name (s_datas w) = None \<and> valid_name name")
  case True
  have new: "cw_vars w (cw_next w) = None" using wf by (auto simp: config_wf_def)
  then have "cw_next w \<notin> snd ` set (s_datas w)" using wf by (force simp: config_wf_def)
  with True show ?thesis
    using wf new unfolding Config_Lookup_new [OF True [THEN conjunct1] True [THEN conjunct2]]
    by (auto simp: config_wf_def distinct_snd_smap_put set_smap_put ConfigVar_ctor_def map_tolower_valid less_Suc_eq)
next
  case False
  then show ?thesis
    using wf by (auto simp: Config_Lookup_def simp del: smap_find_eq_None split: option.splits sum.splits)
qed

lemma m_name_fromString:
  "ConfigVar_fromString fx call s (cv, e) = ((cv', e'), r) \<Longrightarrow> m_name cv' = m_name cv \<and> m_type cv' = m_type cv"
  using fromString_frame [of fx call s cv e] by auto

lemma m_name_setValue:
  "ConfigVar_setValue call v (cv, e) = ((cv', e'), r) \<Longrightarrow> m_name cv' = m_name cv \<and> m_type cv' = m_type cv"
  using setValue_frame [of call v cv e] by auto

lemma config_wf_load_node:
  assumes "config_wf w"
  shows "config_wf (fst (load_node y fx call node w)) \<and> s_datas (fst (load_node y fx call node w)) = s_datas w"
  using assms config_wf_update [OF assms]
  by (auto simp: load_node_def Let_def split: option.splits sum.splits prod.splits dest: m_name_fromString)

lemma config_wf_load_nodes:
  assumes "config_wf w"
  shows "config_wf (fst (load_nodes y fx call nodes w)) \<and> s_datas (fst (load_nodes y fx call nodes w)) = s_datas w"
  using assms
proof (induction nodes arbitrary: w)
  case (Cons node nodes)
  obtain w' r where "load_node y fx call node w = (w', r)" by (cases "load_node y fx call node w")
  with Cons.IH [of w'] config_wf_load_node [OF Cons.prems, of y fx call node] show ?case
    by (cases r) auto
qed simp

section \<open>Loading a document\<close>

text \<open>The value a variable of type \<open>T\<close> has after a text, and after the nodes of a document.\<close>

definition assign :: "'v vtype \<Rightarrow> string \<Rightarrow> 'v \<Rightarrow> 'v" where
  "assign T s v = (case vt_from_str T s of Inl _ \<Rightarrow> v | Inr v' \<Rightarrow> if vt_eq T v' v then v else v')"

definition loaded :: "'n yaml \<Rightarrow> string \<Rightarrow> 'v vtype \<Rightarrow> (string \<times> 'n) list \<Rightarrow> 'v \<Rightarrow> 'v" where
  "loaded y name T nodes v =
     fold (\<lambda>(p, n) v. if p = name \<and> p \<noteq> [] then (case node_text y n of Inl _ \<Rightarrow> v | Inr s \<Rightarrow> assign T s v) else v)
       nodes v"

definition quiet :: "('v, 'c, 'w) listener \<Rightarrow> bool" where
  "quiet call \<longleftrightarrow> (\<forall>c old new w. snd (call c old new w) = None)"

definition std_casts :: "('v, 'c, 'w) config_world \<Rightarrow> bool" where
  "std_casts w \<longleftrightarrow>
     (\<forall>a cv s e. cw_vars w a = Some cv \<longrightarrow> vt_from_str (m_type cv) s = Inl e \<longrightarrow> is_std_exception e)"

lemma quiet_all_return: "quiet call \<Longrightarrow> all_return call old new is w"
  by (induction "is" arbitrary: w) (auto simp: quiet_def)

lemma fromString_quiet:
  assumes "quiet call" and "\<forall>e. vt_from_str (m_type cv) s = Inl e \<longrightarrow> is_std_exception e"
  shows "\<exists>e'. ConfigVar_fromString fx call s (cv, e) = ((cv\<lparr>m_val := assign (m_type cv) s (m_val cv)\<rparr>, e'), Inr False)"
proof (cases "vt_from_str (m_type cv) s")
  case (Inl x)
  then show ?thesis using assms(2) by (simp add: fromString_unreadable assign_def Let_def)
next
  case (Inr v)
  let ?e = "ef_print fx (vt_prints (m_type cv) s) e"
  show ?thesis
  proof (cases "vt_eq (m_type cv) v (m_val cv)")
    case True
    then show ?thesis using fromString_value [OF Inr setValue_equal [OF True, of call ?e]] Inr by (simp add: assign_def)
  next
    case False
    then show ?thesis
      using fromString_value [OF Inr setValue_return [OF False quiet_all_return [OF assms(1)], of ?e]] Inr
      by (simp add: assign_def)
  qed
qed

text \<open>What one node does: it sets the variable of its name.\<close>

definition set_loaded :: "'n yaml \<Rightarrow> (string \<times> 'n) list \<Rightarrow> ('v, 'c, 'w) config_world \<Rightarrow> nat \<Rightarrow> ('v, 'c) config_var option" where
  "set_loaded y nodes w a =
     map_option (\<lambda>cv. if smap_find (m_name cv) (s_datas w) = Some a
                      then cv\<lparr>m_val := loaded y (m_name cv) (m_type cv) nodes (m_val cv)\<rparr> else cv) (cw_vars w a)"

lemma load_node_quiet:
  assumes wf: "config_wf w" and q: "quiet call" and std: "std_casts w" and p: "valid_name p"
    and nt: "node_text y n = Inr s"
  shows "\<exists>e'. load_node y fx call (p, n) w = (w\<lparr>cw_vars := set_loaded y [(p, n)] w, cw_env := e'\<rparr>, None)"
proof (cases "p \<noteq> [] \<and> smap_find p (s_datas w) \<noteq> None")
  case False
  then have "set_loaded y [(p, n)] w = cw_vars w"
    by (auto simp: set_loaded_def loaded_def fun_eq_iff map_option_case simp del: smap_find_eq_None split: option.splits)
  with False show ?thesis
    by (intro exI [of _ "cw_env w"])
      (auto simp: load_node_def Let_def map_tolower_valid [OF p] Config_LookupBase_def simp del: smap_find_eq_None)
next
  case True
  then obtain a where a: "smap_find p (s_datas w) = Some a" by (auto simp del: smap_find_eq_None)
  obtain cv where cv: "cw_vars w a = Some cv" "m_name cv = p" using config_wf_find [OF wf a] by blast
  obtain e' where fs: "ConfigVar_fromString fx call s (cv, cw_env w) =
      ((cv\<lparr>m_val := assign (m_type cv) s (m_val cv)\<rparr>, e'), Inr False)"
    using fromString_quiet [OF q, of cv s fx "cw_env w"] std cv(1) by (auto simp: std_casts_def)
  have "set_loaded y [(p, n)] w b = ((cw_vars w)(a \<mapsto> cv\<lparr>m_val := assign (m_type cv) s (m_val cv)\<rparr>)) b" for b
  proof (cases "cw_vars w b")
    case (Some cv2)
    then show ?thesis using True a cv nt by (cases "b = a") (auto simp: set_loaded_def loaded_def)
  qed (use cv in \<open>auto simp: set_loaded_def\<close>)
  then have "set_loaded y [(p, n)] w = (cw_vars w)(a \<mapsto> cv\<lparr>m_val := assign (m_type cv) s (m_val cv)\<rparr>)"
    by (rule ext)
  with True a cv fs nt show ?thesis
    by (intro exI [of _ e'])
      (simp add: load_node_def Let_def map_tolower_valid [OF p] Config_LookupBase_def del: smap_find_eq_None)
qed

lemma load_nodes_quiet:
  assumes "config_wf w" and q: "quiet call" and "std_casts w"
    and "\<forall>(p, n)\<in>set nodes. valid_name p \<and> (\<exists>s. node_text y n = Inr s)"
  shows "\<exists>e'. load_nodes y fx call nodes w = (w\<lparr>cw_vars := set_loaded y nodes w, cw_env := e'\<rparr>, None)"
  using assms(1,3,4)
proof (induction nodes arbitrary: w)
  case Nil
  have "set_loaded y [] w = cw_vars w"
    by (auto simp: set_loaded_def loaded_def fun_eq_iff map_option_case split: option.splits)
  then show ?case by (intro exI [of _ "cw_env w"]) simp
next
  case (Cons node nodes)
  obtain p n where node: "node = (p, n)" by (cases node)
  then obtain s where s: "valid_name p" "node_text y n = Inr s" using Cons.prems(3) by auto
  obtain e where e: "load_node y fx call node w = (w\<lparr>cw_vars := set_loaded y [(p, n)] w, cw_env := e\<rparr>, None)"
    using load_node_quiet [OF Cons.prems(1) q Cons.prems(2) s] node by blast
  let ?w = "w\<lparr>cw_vars := set_loaded y [(p, n)] w, cw_env := e\<rparr>"
  have "config_wf ?w" using config_wf_load_node [OF Cons.prems(1), of y fx call node] e by simp
  moreover have "std_casts ?w" using Cons.prems(2) by (auto simp: std_casts_def set_loaded_def split: if_splits)
  ultimately obtain e' where e': "load_nodes y fx call nodes ?w = (?w\<lparr>cw_vars := set_loaded y nodes ?w, cw_env := e'\<rparr>, None)"
    using Cons.IH [of ?w] Cons.prems(3) by auto
  have "set_loaded y nodes ?w = set_loaded y (node # nodes) w"
    by (auto simp: set_loaded_def loaded_def fun_eq_iff map_option_case node split: option.splits)
  with e e' show ?case by auto
qed

section \<open>Properties\<close>

text \<open>C21: \<open>ListAllMember\<close> on a document that is a finite tree under the root returns, with fuel beyond its
  depth, and lists, in the order of the document, a map before its entries, and each exactly once, the nodes whose
  path of keys, joined by dots, consists of the characters of a name; a key with any other
  character, an upper-case letter included, hides the whole subtree below it.\<close>

theorem list_all_member_spec:
  assumes "depth_bound y root d"
  shows "\<exists>paths. ListAllMember y (Suc (d root)) [] root = Some (map (member_at y [] root) paths) \<and>
           sorted_wrt (<) paths \<and>
           set paths = {is. \<exists>ks n. yaml_at y root is = Some (ks, n) \<and> valid_name (path_name [] ks)} \<and>
           (\<forall>is ks n. yaml_at y root is = Some (ks, n) \<longrightarrow> member_at y [] root is = (path_name [] ks, n))"
proof -
  obtain out where out: "ListAllMember y (Suc (d root)) [] root = Some out"
    using ListAllMember_total [OF assms, of "Suc (d root)" "[]"] by blast
  from ListAllMember_paths [OF out] out show ?thesis by (auto simp: member_paths_def member_at_def)
qed

text \<open>The example documents are finite trees.\<close>

fun doc_depth :: "doc \<Rightarrow> nat" where
  "doc_depth (Doc c s ds) = Suc (\<Sum>d\<leftarrow>ds. doc_depth d)"

lemma doc_depth_bound: "depth_bound doc_yaml root doc_depth"
proof -
  have "doc_depth (snd (doc_entry e)) < Suc (\<Sum>d\<leftarrow>ds. doc_depth d)" if "e \<in> set ds" for e ds
  proof (cases e)
    case (Doc c s es)
    have "doc_depth e \<le> (\<Sum>d\<leftarrow>ds. doc_depth d)" by (rule member_le_sum_list) (use that in auto)
    moreover have "doc_depth (snd (doc_entry e)) \<le> doc_depth e"
      unfolding Doc by (cases es) simp_all
    ultimately show ?thesis by simp
  qed
  then have "doc_depth (snd (doc_entry e)) < doc_depth n" if "e \<in> set (doc_children n)" for e n
    using that by (cases n) simp
  then show ?thesis by (auto simp: depth_bound_def doc_yaml_def) (metis snd_conv)
qed

text \<open>\<open>port: 11\<close> and \<open>Port: 111\<close> under \<open>system\<close>.\<close>

definition demo_doc :: doc where
  "demo_doc =
     (let scalar = \<lambda>s. Doc CHR ''s'' s []; entry = \<lambda>k d. Doc CHR ''e'' k [d] in
      Doc CHR ''m'' [] [entry ''system'' (Doc CHR ''m'' []
        [entry ''port'' (scalar ''11''), entry ''Port'' (scalar ''111'')])])"

theorem list_all_member_spec_witness:
  "\<exists>paths. ListAllMember doc_yaml (Suc (doc_depth demo_doc)) [] demo_doc = Some (map (member_at doc_yaml [] demo_doc) paths) \<and>
     sorted_wrt (<) paths \<and> [0, 0] \<in> set paths \<and> [0, 1] \<notin> set paths \<and>
     member_at doc_yaml [] demo_doc [0, 0] = (''system.port'', Doc CHR ''s'' ''11'' [])"
proof -
  have at: "yaml_at doc_yaml demo_doc [0, 0] = Some ([''system'', ''port''], Doc CHR ''s'' ''11'' [])"
    "yaml_at doc_yaml demo_doc [0, 1] = Some ([''system'', ''Port''], Doc CHR ''s'' ''111'' [])"
    by (simp_all add: demo_doc_def doc_yaml_def)
  have names: "path_name [] [''system'', ''port''] = ''system.port''" "path_name [] [''system'', ''Port''] = ''system.Port''"
    by (simp_all add: path_name_def member_prefix_def)
  have valid: "valid_name ''system.port''" "\<not> valid_name ''system.Port''"
    by (simp_all add: valid_name_def name_chars_def)
  from list_all_member_spec [OF doc_depth_bound, of demo_doc] obtain paths where
    paths: "ListAllMember doc_yaml (Suc (doc_depth demo_doc)) [] demo_doc = Some (map (member_at doc_yaml [] demo_doc) paths)"
      "sorted_wrt (<) paths"
      "set paths = {is. \<exists>ks n. yaml_at doc_yaml demo_doc is = Some (ks, n) \<and> valid_name (path_name [] ks)}"
      "\<forall>is ks n. yaml_at doc_yaml demo_doc is = Some (ks, n) \<longrightarrow> member_at doc_yaml [] demo_doc is = (path_name [] ks, n)"
    by blast
  have "[0, 0] \<in> set paths" "[0, 1] \<notin> set paths"
    unfolding paths(3) mem_Collect_eq at using names valid by auto
  moreover have "member_at doc_yaml [] demo_doc [0, 0] = (''system.port'', Doc CHR ''s'' ''11'' [])"
    using paths(4) at(1) names(1) by simp
  ultimately show ?thesis using paths(1,2) by blast
qed

text \<open>C20: What \<open>LoadFromYaml\<close> does to a well-formed registry, when no listener throws and every
  conversion that fails does so with a \<open>std::exception\<close>: it returns normally, and the only thing that changes
  beside the effects of listeners, of what casts print and of ERROR lines is that every registered variable takes, one after the other, the values
  of the nodes listed under its own name that convert. A value that does not convert is skipped.\<close>

theorem load_from_yaml_spec:
  assumes "config_wf w" and "quiet call" and "std_casts w"
    and "ListAllMember y fuel [] root = Some nodes" and "\<forall>(p, n)\<in>set nodes. \<exists>s. node_text y n = Inr s"
  shows "\<exists>e'. Config_LoadFromYaml y fuel fx call root w = (w\<lparr>cw_vars := set_loaded y nodes w, cw_env := e'\<rparr>, None)"
proof -
  have "\<forall>(p, n)\<in>set nodes. valid_name p \<and> (\<exists>s. node_text y n = Inr s)"
    using ListAllMember_valid [OF assms(4)] assms(5) by fast
  from load_nodes_quiet [OF assms(1-3) this] show ?thesis
    by (simp add: Config_LoadFromYaml_def assms(4))
qed

lemma demo_names [simp]: "valid_name ''system.port''" "valid_name ''system''" "\<not> valid_name ''system.Port''"
  by (simp_all add: valid_name_def name_chars_def)

text \<open>A registry with \<open>system.port\<close>, and a listener that does nothing.\<close>

definition demo_config :: "(nat, unit, unit) config_world" where
  "demo_config = fst (Config_Lookup num_type ''system.port'' 1 ''the port'' (config_init ()))"

definition no_effects :: "unit effects" where
  "no_effects = \<lparr>ef_print = (\<lambda>_ w. w), ef_log_error = (\<lambda>_ w. w)\<rparr>"

definition no_call :: "(nat, unit, unit) listener" where
  "no_call c old new w = (w, None)"

lemma demo_config_eq:
  "demo_config = \<lparr>cw_vars = [0 \<mapsto> ConfigVar_ctor num_type ''system.port'' 1 ''the port''], cw_next = 1,
     s_datas = [(''system.port'', 0)], s_fun_ids = (\<lambda>_. 0), cw_env = ()\<rparr>"
  by (simp add: demo_config_def Config_Lookup_def config_init_def)

theorem load_from_yaml_spec_witness:
  "\<exists>w'. Config_LoadFromYaml doc_yaml 9 no_effects no_call demo_doc demo_config = (w', None) \<and>
        map_option m_val (cw_vars w' 0) = Some 2"
proof -
  have wf: "config_wf demo_config"
    unfolding demo_config_def by (rule config_wf_Lookup) simp
  have std: "std_casts demo_config"
    unfolding demo_config_eq by (auto simp: std_casts_def ConfigVar_ctor_def num_type_def split: if_splits)
  have q: "quiet no_call" by (simp add: quiet_def no_call_def)
  define nodes where "nodes = the (ListAllMember doc_yaml 9 [] demo_doc)"
  have nodes: "ListAllMember doc_yaml 9 [] demo_doc = Some nodes"
    by (simp add: nodes_def demo_doc_def doc_yaml_def eval_nat_numeral member_prefix_def)
  have texts: "\<forall>(p, n)\<in>set nodes. \<exists>s. node_text doc_yaml n = Inr s"
    by (auto simp: node_text_def doc_yaml_def)
  have "map_option m_val (set_loaded doc_yaml nodes demo_config 0) = Some 2"
    by (simp add: set_loaded_def demo_config_eq ConfigVar_ctor_def loaded_def nodes_def demo_doc_def doc_yaml_def
        eval_nat_numeral member_prefix_def smap_find_def node_text_def assign_def
        num_type_def tolower_def)
  then show ?thesis using load_from_yaml_spec [OF wf q std nodes texts] by auto
qed

text \<open>C22: \<open>Lookup\<close> with a default on a well-formed registry: a registered name gives its variable when the
  type matches and null when not, and changes nothing; an unregistered name with an illegal character
  throws \<open>std::invalid_argument\<close>; any other creates a variable with the default, which \<open>Lookup\<close> without a
  default then finds, and leaves all other variables as they were.\<close>

theorem config_lookup_spec:
  assumes wf: "config_wf w"
  shows "case smap_find name (s_datas w) of
           Some a \<Rightarrow> (\<exists>cv. cw_vars w a = Some cv \<and> m_name cv = name \<and>
             (ConfigVar_getTypeName cv = vt_name T \<longrightarrow> Config_Lookup T name v d w = (w, Inr (Some a))) \<and>
             (ConfigVar_getTypeName cv \<noteq> vt_name T \<and> ConfigVar_toString cv = Inr s \<longrightarrow>
                Config_Lookup T name v d w = (w, Inr None)))
         | None \<Rightarrow>
             (if valid_name name
              then \<exists>w' a. Config_Lookup T name v d w = (w', Inr (Some a)) \<and> cw_vars w a = None \<and>
                     cw_vars w' = (cw_vars w)(a \<mapsto> ConfigVar_ctor T name v d) \<and>
                     m_name (ConfigVar_ctor T name v d) = name \<and>
                     Config_Lookup_existing T name w' = Inr (Some a) \<and>
                     (\<forall>j. j \<noteq> name \<longrightarrow> Config_LookupBase j w' = Config_LookupBase j w)
              else Config_Lookup T name v d w = (w, Inl (Invalid_Argument name)))"
proof (cases "smap_find name (s_datas w)")
  case None
  have new: "cw_vars w (cw_next w) = None" using wf by (auto simp: config_wf_def)
  show ?thesis
  proof (cases "valid_name name")
    case True
    show ?thesis
      using None True new unfolding Config_Lookup_new [OF None True]
      by (simp add: Config_Lookup_existing_def Config_LookupBase_def ConfigVar_getTypeName_def ConfigVar_ctor_def
          map_tolower_valid del: smap_find_eq_None)
  qed (use None in \<open>simp add: Config_Lookup_def del: smap_find_eq_None\<close>)
next
  case (Some a)
  with config_wf_find(1) [OF wf Some] show ?thesis by (auto simp: Config_Lookup_def)
qed

lemma demo_config_wf: "config_wf demo_config"
  unfolding demo_config_def by (rule config_wf_Lookup) simp

theorem config_lookup_spec_witness:
  "Config_Lookup num_type ''Bad'' 1 '''' demo_config = (demo_config, Inl (Invalid_Argument ''Bad''))"
proof -
  have "smap_find ''Bad'' (s_datas demo_config) = None" "\<not> valid_name ''Bad''"
    by (simp_all add: demo_config_eq valid_name_def name_chars_def)
  then show ?thesis
    using config_lookup_spec [OF demo_config_wf, of "''Bad''" num_type 1 "''''" "[]"] by (simp del: smap_find_eq_None)
qed

text \<open>Sequences of calls; an exception leaves what the call has done, and the caller goes on.\<close>

datatype ('v, 'c, 'n) config_call =
    Call_Lookup "'v vtype" string 'v string
  | Call_Load 'n
  | Call_Set nat 'v
  | Call_Add 'c nat
  | Call_Del "64 word" nat
  | Call_Clear nat

fun config_exec ::
  "'n yaml \<Rightarrow> nat \<Rightarrow> 'w effects \<Rightarrow> ('v, 'c, 'w) listener \<Rightarrow> ('v, 'c, 'n) config_call \<Rightarrow>
   ('v, 'c, 'w) config_world \<Rightarrow> ('v, 'c, 'w) config_world" where
  "config_exec y fuel fx call (Call_Lookup T name v d) w = fst (Config_Lookup T name v d w)"
| "config_exec y fuel fx call (Call_Load root) w = fst (Config_LoadFromYaml y fuel fx call root w)"
| "config_exec y fuel fx call (Call_Set a v) w = fst (Config_setValue call a v w)"
| "config_exec y fuel fx call (Call_Add cb a) w = fst (Config_addListener cb a w)"
| "config_exec y fuel fx call (Call_Del key a) w = (case Config_delListener key a w of Inl _ \<Rightarrow> w | Inr w' \<Rightarrow> w')"
| "config_exec y fuel fx call (Call_Clear a) w = (case Config_clearListener a w of Inl _ \<Rightarrow> w | Inr w' \<Rightarrow> w')"

text \<open>Registered names keep their addresses.\<close>

definition datas_grow :: "('v, 'c, 'w) config_world \<Rightarrow> ('v, 'c, 'w) config_world \<Rightarrow> bool" where
  "datas_grow w w' \<longleftrightarrow>
     (\<forall>k a. smap_find k (s_datas w) = Some a \<longrightarrow> smap_find k (s_datas w') = Some a)"

lemma datas_grow_refl [simp]: "s_datas w' = s_datas w \<Longrightarrow> datas_grow w w'"
  by (simp add: datas_grow_def)

lemma datas_grow_Lookup: "datas_grow w (fst (Config_Lookup T name v d w))"
proof (cases "smap_find name (s_datas w) = None \<and> valid_name name")
  case True
  show ?thesis
    unfolding Config_Lookup_new [OF True [THEN conjunct1] True [THEN conjunct2]]
    using True by (auto simp: datas_grow_def simp del: smap_find_eq_None)
next
  case False
  then have "s_datas (fst (Config_Lookup T name v d w)) = s_datas w"
    by (auto simp: Config_Lookup_def simp del: smap_find_eq_None split: option.splits sum.splits)
  then show ?thesis by simp
qed

lemma config_exec_wf:
  assumes wf: "config_wf w"
  shows "config_wf (config_exec y fuel fx call c w) \<and> datas_grow w (config_exec y fuel fx call c w)"
proof (cases c)
  case (Call_Lookup T name v d)
  then show ?thesis using config_wf_Lookup [OF wf] datas_grow_Lookup by auto
next
  case (Call_Load root)
  then show ?thesis
    using wf config_wf_load_nodes [OF wf, of y fx call]
    by (auto simp: Config_LoadFromYaml_def split: option.splits)
next
  case (Call_Set a v)
  then show ?thesis
    using wf config_wf_update [OF wf]
    by (auto simp: Config_setValue_def split: option.splits prod.splits dest: m_name_setValue)
next
  case (Call_Add cb a)
  then show ?thesis
    using wf config_wf_update [OF wf]
    by (auto simp: Config_addListener_def ConfigVar_addListener_def Let_def split: option.splits)
next
  case (Call_Del key a)
  then show ?thesis
    using wf config_wf_update [OF wf]
    by (auto simp: Config_delListener_def ConfigVar_delListener_def split: option.splits)
next
  case (Call_Clear a)
  then show ?thesis
    using wf config_wf_update [OF wf]
    by (auto simp: Config_clearListener_def ConfigVar_clearListener_def split: option.splits)
qed

lemma config_run_wf:
  "config_wf w \<Longrightarrow> config_wf (fold (config_exec y fuel fx call) calls w) \<and>
     datas_grow w (fold (config_exec y fuel fx call) calls w)"
proof (induction calls arbitrary: w)
  case (Cons c calls)
  from Cons.IH [of "config_exec y fuel fx call c w"] config_exec_wf [OF Cons.prems, of y fuel fx call c] show ?case
    by (auto simp: datas_grow_def)
qed simp

text \<open>C23: Whatever calls are made on an empty registry, each registered variable is alive and carries the
  name it is registered under, which consists of the permitted characters and so is in lower case already;
  no variable is registered twice; and further calls never change the variable a name is registered for,
  so a pointer obtained from \<open>Lookup\<close> stays the one that \<open>LoadFromYaml\<close> sets.\<close>

theorem config_registry_invariant:
  assumes "w = fold (config_exec y fuel fx call) calls (config_init e)" and "Config_LookupBase k w = Some a"
  shows "(\<exists>cv. cw_vars w a = Some cv \<and> m_name cv = k) \<and> valid_name k \<and> map tolower k = k \<and>
         (\<forall>j. Config_LookupBase j w = Some a \<longrightarrow> j = k) \<and>
         Config_LookupBase k (fold (config_exec y fuel fx call) later w) = Some a"
proof -
  have wf: "config_wf w" using config_run_wf [of "config_init e" y fuel fx call calls] assms(1) by simp
  have k: "smap_find k (s_datas w) = Some a" using assms(2) by (simp add: Config_LookupBase_def)
  note found = config_wf_find [OF wf k]
  have "j = k" if "smap_find j (s_datas w) = Some a" for j
    using config_wf_find(1) [OF wf that] found(1) by auto
  moreover have "smap_find k (s_datas (fold (config_exec y fuel fx call) later w)) = Some a"
    using config_run_wf [OF wf, of y fuel fx call later] k by (auto simp: datas_grow_def)
  ultimately show ?thesis
    using found map_tolower_valid [OF found(2)] by (simp add: Config_LookupBase_def)
qed

theorem config_registry_invariant_witness:
  "Config_LookupBase ''system.port''
     (fold (config_exec doc_yaml 9 no_effects no_call) [Call_Load demo_doc, Call_Lookup num_type ''system.port'' 8 ''''] demo_config) = Some 0"
proof -
  have "demo_config = fold (config_exec doc_yaml 9 no_effects no_call) [Call_Lookup num_type ''system.port'' 1 ''the port''] (config_init ())"
    by (simp add: demo_config_def)
  moreover have "Config_LookupBase ''system.port'' demo_config = Some 0"
    by (simp add: demo_config_eq Config_LookupBase_def smap_find_def)
  ultimately show ?thesis by (rule config_registry_invariant [THEN conjunct2, THEN conjunct2, THEN conjunct2, THEN conjunct2])
qed

text \<open>C29: A document in which a map contains itself, as an alias to an enclosing node makes it, never comes
  to an end: \<open>ListAllMember\<close> does not return with any fuel, and so neither does \<open>LoadFromYaml\<close>.\<close>

theorem list_all_member_cyclic:
  assumes "y_is_map y n" and "(k, n) \<in> set (y_items y n)" and "valid_name (y_scalar y k)"
  shows "(valid_name prefix \<longrightarrow> ListAllMember y fuel prefix n = None) \<and>
         Config_LoadFromYaml y fuel fx call n w = (w, Some No_Return)"
proof -
  have loop: "valid_name prefix \<longrightarrow> ListAllMember y fuel prefix n = None" for prefix
  proof (induction fuel arbitrary: prefix)
    case (Suc fuel)
    show ?case
    proof
      assume p: "valid_name prefix"
      then have "valid_name (member_prefix prefix (y_scalar y k))"
        using assms(3) by (auto simp: member_prefix_def valid_name_def name_chars_def)
      with Suc.IH have "ListAllMember y fuel (member_prefix prefix (y_scalar y k)) n = None" by blast
      then have "list_items (\<lambda>item. ListAllMember y fuel (member_prefix prefix (y_scalar y (fst item))) (snd item))
          (y_items y n) = None"
        by (intro list_items_None [OF assms(2)]) simp
      then show "ListAllMember y (Suc fuel) prefix n = None" using assms(1) p by simp
    qed
  qed simp
  then show ?thesis using loop [of "[]"] by (simp add: Config_LoadFromYaml_def)
qed

text \<open>One node that is a map from \<open>a\<close> to itself.\<close>

definition cyclic_yaml :: "unit yaml" where
  "cyclic_yaml =
     \<lparr>y_load = (\<lambda>_. Inr ()), y_dump = (\<lambda>_. Inr ''&a {a: *a}''), y_null = (), y_defined = (\<lambda>_. True),
      y_is_map = (\<lambda>_. True), y_is_scalar = (\<lambda>_. False), y_scalar = (\<lambda>_. ''a''), y_size = (\<lambda>_. 1),
      y_at = (\<lambda>_ _. ()), y_items = (\<lambda>_. [((), ())]), y_get = (\<lambda>_ _. Inr ()), y_push = (\<lambda>_ _. Inr ()),
      y_set = (\<lambda>_ _ _. Inr ()), y_as_string = (\<lambda>_. Inr []), y_of_string = (\<lambda>_. ())\<rparr>"

theorem list_all_member_cyclic_witness:
  "ListAllMember cyclic_yaml 1000 [] () = None"
proof -
  have "y_is_map cyclic_yaml ()" "((), ()) \<in> set (y_items cyclic_yaml ())"
    "valid_name (y_scalar cyclic_yaml ())"
    by (simp_all add: cyclic_yaml_def valid_name_def name_chars_def)
  from list_all_member_cyclic [OF this, of "[]" 1000, THEN conjunct1] show ?thesis by (rule mp) simp
qed

end
