(* ===== verification/Log_Config.thy ===== *)
theory Log_Config
  imports Log_Define Config
begin

text \<open>
  \<open>LogIniter\<close> of \<open>src/log.cpp\<close>: the listener of the variable \<open>logs\<close> that makes the loggers follow the
  configuration, the state relation it keeps (each configured logger conforms to its definition), and its
  composition with \<open>ConfigVar::fromString\<close> and \<open>setValue\<close>.
\<close>

section \<open>The listener\<close>

text \<open>\<open>std::set::find\<close>: the element that is neither less nor greater.\<close>

definition set_find :: "log_define \<Rightarrow> log_define list \<Rightarrow> log_define option" where
  "set_find d ds = List.find (\<lambda>e. \<not> LogDefine_less d e \<and> \<not> LogDefine_less e d) ds"

definition SYLAR_LOG_NAME :: "string \<Rightarrow> log_world \<Rightarrow> nat \<times> log_world" where
  "SYLAR_LOG_NAME name w = LoggerManager_getLogger name w"

definition SYLAR_LOG_ROOT :: "log_world \<Rightarrow> nat" where
  "SYLAR_LOG_ROOT w = lw_root w"

text \<open>
  The loop over the appenders of a definition. The first value of \<open>m_last_time\<close> of a file appender, which
  no constructor sets, is \<open>junk\<close> of its address. With another type the pointer \<open>appender\<close> stays null.
\<close>

definition make_appender :: "(nat \<Rightarrow> 64 word) \<Rightarrow> log_appender_define \<Rightarrow> log_world \<Rightarrow> (nat \<times> log_world) result" where
  "make_appender junk ad w =
     (if ad_type ad = 1 then FileLogAppender_ctor (junk (lw_next_appender w)) (ad_file ad) w
      else if ad_type ad = 2 then Inr (StdoutLogAppender_ctor w)
      else Inl (Undefined ''appender''))"

definition configure_appender :: "string \<Rightarrow> log_appender_define \<Rightarrow> nat \<Rightarrow> log_world \<Rightarrow> log_world result" where
  "configure_appender name ad p w =
     bind_r (LogAppender_setLevel p (ad_level ad) w) (\<lambda>w.
       if ad_formatter ad \<noteq> [] then
         (let fmt = LogFormatter_ctor (ad_formatter ad); w = write_cout (LogFormatter_cout (ad_formatter ad)) w
          in if \<not> fm_error fmt then LogAppender_setFormatter p (Some fmt) w
             else Inr (write_cout (''logger name='' @ name @ '' appender type='' @ dec_of_int (ad_type ad) @
                         '' formatter='' @ ad_formatter ad @ '' is invalid'' @ [CHR 0x0A]) w))
       else Inr w)"

definition add_appender_define ::
  "(nat \<Rightarrow> 64 word) \<Rightarrow> string \<Rightarrow> nat \<Rightarrow> log_appender_define \<Rightarrow> log_world \<Rightarrow> log_world result" where
  "add_appender_define junk name logger ad w =
     bind_r (make_appender junk ad w) (\<lambda>(p, w).
       bind_r (configure_appender name ad p w) (Logger_addAppender logger p))"

definition apply_define :: "(nat \<Rightarrow> 64 word) \<Rightarrow> log_define \<Rightarrow> log_world \<Rightarrow> log_world result" where
  "apply_define junk d w =
     (case SYLAR_LOG_NAME (ld_name d) w of
        (logger, w) \<Rightarrow>
          bind_r (Logger_setLevel logger (ld_level d) w) (\<lambda>w.
            bind_r (if ld_formatter d \<noteq> [] then Logger_setFormatter_pattern logger (ld_formatter d) w else Inr w) (\<lambda>w.
              bind_r (Logger_clearAppenders logger w)
                (fold_r (add_appender_define junk (ld_name d) logger) (ld_appenders d)))))"

text \<open>The two loops: new and changed definitions, then the deleted ones.\<close>

definition on_define ::
  "(nat \<Rightarrow> 64 word) \<Rightarrow> log_define list \<Rightarrow> log_define \<Rightarrow> log_world \<Rightarrow> log_world result" where
  "on_define junk old d w =
     (case set_find d old of
        None \<Rightarrow> apply_define junk d w
      | Some e \<Rightarrow> if \<not> LogDefine_eq d e then apply_define junk d w else Inr w)"

definition on_deleted :: "log_define list \<Rightarrow> log_define \<Rightarrow> log_world \<Rightarrow> log_world result" where
  "on_deleted new d w =
     (case set_find d new of
        None \<Rightarrow>
          (case SYLAR_LOG_NAME (ld_name d) w of
             (logger, w) \<Rightarrow> bind_r (Logger_setLevel logger LEVEL_100 w) (Logger_clearAppenders logger))
      | Some e \<Rightarrow> Inr w)"

definition LogIniter_listener ::
  "log_site \<Rightarrow> (nat \<Rightarrow> 64 word) \<Rightarrow> log_define list \<Rightarrow> log_define list \<Rightarrow> log_world \<Rightarrow> log_world result" where
  "LogIniter_listener st junk old new w =
     bind_r (SYLAR_LOG_LEVEL 2 st (SYLAR_LOG_ROOT w) INFO ''on_logger_conf_changed'' w) (\<lambda>w.
       bind_r (fold_r (on_define junk old) new w) (fold_r (on_deleted new) old))"

section \<open>Conformance\<close>

text \<open>The formatter a pattern gives: none when the pattern is empty or has an error.\<close>

definition valid_formatter :: "string \<Rightarrow> log_formatter option" where
  "valid_formatter s =
     (if s \<noteq> [] \<and> \<not> fm_error (LogFormatter_ctor s) then Some (LogFormatter_ctor s) else None)"

definition appender_conforms :: "log_world \<Rightarrow> logger \<Rightarrow> nat \<Rightarrow> log_appender_define \<Rightarrow> bool" where
  "appender_conforms w l p ad \<longleftrightarrow>
     (\<exists>ap. lw_appenders w p = Some ap \<and> ap_level ap = ad_level ad \<and>
        sink_file (ap_sink ap) = (if ad_type ad = 1 then Some (ad_file ad) else None) \<and>
        (case valid_formatter (ad_formatter ad) of
           Some fm \<Rightarrow> ap_has_formatter ap \<and> ap_formatter ap = Some fm
         | None \<Rightarrow> \<not> ap_has_formatter ap \<and> ap_formatter ap = lg_formatter l))"

definition logger_conforms :: "log_world \<Rightarrow> logger \<Rightarrow> log_define \<Rightarrow> bool" where
  "logger_conforms w l d \<longleftrightarrow>
     lg_level l = ld_level d \<and>
     (\<forall>fm. valid_formatter (ld_formatter d) = Some fm \<longrightarrow> lg_formatter l = Some fm) \<and>
     list_all2 (appender_conforms w l) (lg_appenders l) (ld_appenders d)"

definition conforms :: "log_world \<Rightarrow> log_define \<Rightarrow> bool" where
  "conforms w d \<longleftrightarrow>
     (\<exists>a l. smap_find (ld_name d) (lw_loggers_map w) = Some a \<and> lw_loggers w a = Some l \<and> logger_conforms w l d)"

definition silenced :: "log_world \<Rightarrow> string \<Rightarrow> bool" where
  "silenced w name \<longleftrightarrow>
     (\<exists>a l. smap_find name (lw_loggers_map w) = Some a \<and> lw_loggers w a = Some l \<and>
            lg_level l = LEVEL_100 \<and> lg_appenders l = [])"

text \<open>No appender belongs to two loggers.\<close>

definition apart :: "log_world \<Rightarrow> bool" where
  "apart w \<longleftrightarrow>
     (\<forall>a b l k. lw_loggers w a = Some l \<longrightarrow> lw_loggers w b = Some k \<longrightarrow> a \<noteq> b \<longrightarrow>
        set (lg_appenders l) \<inter> set (lg_appenders k) = {})"

text \<open>A name keeps its logger, and the logger its state and its appenders.\<close>

definition name_kept :: "string \<Rightarrow> log_world \<Rightarrow> log_world \<Rightarrow> bool" where
  "name_kept n w w' \<longleftrightarrow>
     (\<forall>a l. smap_find n (lw_loggers_map w) = Some a \<longrightarrow> lw_loggers w a = Some l \<longrightarrow>
        smap_find n (lw_loggers_map w') = Some a \<and> lw_loggers w' a = Some l \<and>
        (\<forall>p\<in>set (lg_appenders l). lw_appenders w' p = lw_appenders w p))"

lemma name_kept_refl [simp]: "name_kept n w w"
  by (simp add: name_kept_def)

lemma name_kept_trans: "name_kept n w w' \<Longrightarrow> name_kept n w' w'' \<Longrightarrow> name_kept n w w''"
  by (simp add: name_kept_def)

lemma appender_conforms_cong:
  "lw_appenders w' p = lw_appenders w p \<Longrightarrow> appender_conforms w' l p ad = appender_conforms w l p ad"
  by (simp add: appender_conforms_def)

lemma conforms_kept:
  assumes "name_kept (ld_name d) w w'" and "conforms w d"
  shows "conforms w' d"
proof -
  obtain a l where l: "smap_find (ld_name d) (lw_loggers_map w) = Some a" "lw_loggers w a = Some l" "logger_conforms w l d"
    using assms(2) by (auto simp: conforms_def)
  have same: "lw_appenders w' p = lw_appenders w p" if "p \<in> set (lg_appenders l)" for p
    using assms(1) l(1,2) that by (simp add: name_kept_def)
  have "list_all2 (appender_conforms w l) (lg_appenders l) (ld_appenders d)"
    using l(3) by (simp add: logger_conforms_def)
  then have "list_all2 (appender_conforms w' l) (lg_appenders l) (ld_appenders d)"
    by (rule list.rel_mono_strong) (simp add: appender_conforms_cong [OF same])
  then have "logger_conforms w' l d" using l(3) by (simp add: logger_conforms_def)
  then show ?thesis using l assms(1) by (auto simp: conforms_def name_kept_def)
qed

lemma silenced_kept: "name_kept n w w' \<Longrightarrow> silenced w n \<Longrightarrow> silenced w' n"
  by (auto simp: silenced_def name_kept_def)

text \<open>What an operation on the logger at \<open>a\<close> may change: that logger, its appenders, and new appenders.\<close>

definition touches :: "nat \<Rightarrow> log_world \<Rightarrow> log_world \<Rightarrow> bool" where
  "touches a w w' \<longleftrightarrow>
     lw_loggers_map w' = lw_loggers_map w \<and> lw_root w' = lw_root w \<and>
     (\<forall>b. b \<noteq> a \<longrightarrow> lw_loggers w' b = lw_loggers w b) \<and>
     (\<forall>b l. b \<noteq> a \<longrightarrow> lw_loggers w b = Some l \<longrightarrow> (\<forall>p\<in>set (lg_appenders l). lw_appenders w' p = lw_appenders w p))"

lemma touches_refl [simp]: "touches a w w"
  by (simp add: touches_def)

lemma touches_trans: "touches a w w' \<Longrightarrow> touches a w' w'' \<Longrightarrow> touches a w w''"
  by (simp add: touches_def)

lemma touches_name_kept:
  assumes "log_wf w" and "touches a w w'" and "smap_find name (lw_loggers_map w) = Some a" and "n \<noteq> name"
  shows "name_kept n w w'"
  unfolding name_kept_def
proof (intro allI impI)
  fix b l
  assume b: "smap_find n (lw_loggers_map w) = Some b" and "lw_loggers w b = Some l"
  have "b \<noteq> a" using log_wf_names_distinct [OF assms(1)] assms(3,4) b by blast
  with assms(2) b \<open>lw_loggers w b = Some l\<close>
  show "smap_find n (lw_loggers_map w') = Some b \<and> lw_loggers w' b = Some l \<and>
      (\<forall>p\<in>set (lg_appenders l). lw_appenders w' p = lw_appenders w p)"
    by (simp add: touches_def)
qed

lemma touches_put_logger [simp]: "touches a w (put_logger a l w)"
  by (simp add: touches_def put_logger_def)

lemma touches_write_cout [simp]: "touches a w (write_cout s w)"
  by (simp add: touches_def write_cout_def)

lemma apart_cout [simp]: "apart (write_cout s w) = apart w"
  by (simp add: apart_def write_cout_def)

lemma apart_put_logger:
  assumes "apart w" and "\<And>b k. b \<noteq> a \<Longrightarrow> lw_loggers w b = Some k \<Longrightarrow> set (lg_appenders l) \<inter> set (lg_appenders k) = {}"
  shows "apart (put_logger a l w)"
  using assms unfolding apart_def put_logger_def by (auto; fast)

section \<open>Adding one appender\<close>

definition same_loggers :: "log_world \<Rightarrow> log_world \<Rightarrow> bool" where
  "same_loggers w w' \<longleftrightarrow>
     lw_loggers w' = lw_loggers w \<and> lw_loggers_map w' = lw_loggers_map w \<and> lw_root w' = lw_root w"

lemma log_wf_fresh: "log_wf w \<Longrightarrow> lw_appenders w (lw_next_appender w) = None"
  by (cases "lw_appenders w (lw_next_appender w)") (auto dest: log_wfD_alloc)

lemma make_appender_spec:
  assumes wf: "log_wf w" and "ad_type ad = 1 \<or> ad_type ad = 2"
  obtains p ap w' where "make_appender junk ad w = Inr (p, w')" "log_wf w'" "same_loggers w w'"
    "lw_appenders w p = None" "lw_appenders w' = (lw_appenders w)(p \<mapsto> ap)"
    "\<not> ap_has_formatter ap" "ap_formatter ap = None"
    "sink_file (ap_sink ap) = (if ad_type ad = 1 then Some (ad_file ad) else None)"
proof (cases "ad_type ad = 1")
  case True
  let ?f = "FileLogAppender_reopen_stream (lw_can_open w (ad_file ad)) \<lparr>fs_open = False, fs_fail = False\<rparr>"
  let ?ap = "\<lparr>ap_level = DEBUG, ap_has_formatter = False, ap_formatter = None,
    ap_sink = File_Sink (ad_file ad) ?f (junk (lw_next_appender w))\<rparr>"
  let ?w = "w\<lparr>lw_appenders := (lw_appenders w)(lw_next_appender w \<mapsto> ?ap), lw_next_appender := Suc (lw_next_appender w)\<rparr>"
  have run: "make_appender junk ad w = Inr (lw_next_appender w, ?w)"
    using True by (simp add: make_appender_def FileLogAppender_ctor_def new_appender_def FileLogAppender_reopen_def
      deref_appender_def put_appender_def Let_def)
  moreover have "log_wf ?w"
    using FileLogAppender_ctor_wf [OF wf] run True by (simp add: make_appender_def)
  ultimately show thesis
    using True log_wf_fresh [OF wf] by (intro that [of "lw_next_appender w" ?w ?ap]) (simp_all add: same_loggers_def)
next
  case False
  let ?ap = "\<lparr>ap_level = DEBUG, ap_has_formatter = False, ap_formatter = None, ap_sink = Stdout_Sink\<rparr>"
  let ?w = "w\<lparr>lw_appenders := (lw_appenders w)(lw_next_appender w \<mapsto> ?ap), lw_next_appender := Suc (lw_next_appender w)\<rparr>"
  have run: "make_appender junk ad w = Inr (lw_next_appender w, ?w)"
    using False assms(2) by (simp add: make_appender_def StdoutLogAppender_ctor_def new_appender_def put_appender_def)
  moreover have "log_wf ?w"
    using new_appender_wf [OF wf] run False assms(2) by (simp add: make_appender_def StdoutLogAppender_ctor_def)
  ultimately show thesis
    using False log_wf_fresh [OF wf] by (intro that [of "lw_next_appender w" ?w ?ap]) (simp_all add: same_loggers_def)
qed

lemma configure_appender_spec:
  assumes wf: "log_wf w" and ap: "lw_appenders w p = Some ap" "\<not> ap_has_formatter ap" "ap_formatter ap = None"
  obtains w' ap' where "configure_appender name ad p w = Inr w'" "log_wf w'" "same_loggers w w'"
    "lw_appenders w' = (lw_appenders w)(p \<mapsto> ap')" "ap_level ap' = ad_level ad" "ap_sink ap' = ap_sink ap"
    "ap_has_formatter ap' = (valid_formatter (ad_formatter ad) \<noteq> None)"
    "ap_formatter ap' = valid_formatter (ad_formatter ad)"
proof -
  let ?w1 = "put_appender p (ap\<lparr>ap_level := ad_level ad\<rparr>) w"
  have w1: "LogAppender_setLevel p (ad_level ad) w = Inr ?w1"
    using ap by (simp add: LogAppender_setLevel_def deref_appender_def)
  note wf1 = LogAppender_setLevel_wf [OF wf w1]
  let ?w2 = "write_cout (LogFormatter_cout (ad_formatter ad)) ?w1"
  show thesis
  proof (cases "valid_formatter (ad_formatter ad)")
    case None
    then have "\<exists>s. configure_appender name ad p w = Inr (write_cout s ?w1)"
    proof (cases "ad_formatter ad = []")
      case True
      have "write_cout [] ?w1 = ?w1" by (simp add: write_cout_def)
      then show ?thesis using True w1 by (intro exI [of _ "[]"]) (simp add: configure_appender_def)
    next
      case False
      have "write_cout t (write_cout s v) = write_cout (s @ t) v" for s t v by (simp add: write_cout_def)
      then show ?thesis
        using False None w1 by (auto simp: configure_appender_def valid_formatter_def Let_def split: if_splits)
    qed
    then obtain s where "configure_appender name ad p w = Inr (write_cout s ?w1)" by blast
    then show thesis
      using None ap write_cout_wf [OF wf1]
      by (intro that [of "write_cout s ?w1" "ap\<lparr>ap_level := ad_level ad\<rparr>"]) (simp_all add: same_loggers_def put_appender_def write_cout_def)
  next
    case (Some fm)
    let ?ap = "ap\<lparr>ap_level := ad_level ad, ap_formatter := Some fm, ap_has_formatter := True\<rparr>"
    have w2: "LogAppender_setFormatter p (Some fm) ?w2 = Inr (put_appender p ?ap ?w2)"
      by (simp add: LogAppender_setFormatter_def deref_appender_def put_appender_def write_cout_def)
    have "configure_appender name ad p w = Inr (put_appender p ?ap ?w2)"
      using Some w1 w2 by (auto simp: configure_appender_def valid_formatter_def Let_def split: if_splits)
    then show thesis
      using Some LogAppender_setFormatter_wf [OF write_cout_wf [OF wf1] _ w2]
      by (intro that [of "put_appender p ?ap ?w2" ?ap]) (simp_all add: same_loggers_def put_appender_def write_cout_def)
  qed
qed

lemma add_appender_define_spec:
  assumes wf: "log_wf w" and l: "lw_loggers w a = Some l" and ty: "ad_type ad = 1 \<or> ad_type ad = 2"
  obtains p ap w' where "add_appender_define junk name a ad w = Inr w'" "log_wf w'"
    "lw_loggers_map w' = lw_loggers_map w" "lw_root w' = lw_root w" "lw_appenders w p = None"
    "lw_loggers w' = (lw_loggers w)(a \<mapsto> l\<lparr>lg_appenders := lg_appenders l @ [p]\<rparr>)"
    "lw_appenders w' = (lw_appenders w)(p \<mapsto> ap)" "appender_conforms w' l p ad"
proof -
  obtain p ap1 w1 where w1: "make_appender junk ad w = Inr (p, w1)" "log_wf w1" "same_loggers w w1"
    "lw_appenders w p = None" "lw_appenders w1 = (lw_appenders w)(p \<mapsto> ap1)"
    "\<not> ap_has_formatter ap1" "ap_formatter ap1 = None"
    "sink_file (ap_sink ap1) = (if ad_type ad = 1 then Some (ad_file ad) else None)"
    by (rule make_appender_spec [OF wf ty])
  have p1: "lw_appenders w1 p = Some ap1" using w1(5) by simp
  obtain w2 ap2 where w2: "configure_appender name ad p w1 = Inr w2" "log_wf w2" "same_loggers w1 w2"
    "lw_appenders w2 = (lw_appenders w1)(p \<mapsto> ap2)" "ap_level ap2 = ad_level ad" "ap_sink ap2 = ap_sink ap1"
    "ap_has_formatter ap2 = (valid_formatter (ad_formatter ad) \<noteq> None)"
    "ap_formatter ap2 = valid_formatter (ad_formatter ad)"
    by (rule configure_appender_spec [OF w1(2) p1 w1(6,7)])
  let ?ap = "if ap_formatter ap2 = None then ap2\<lparr>ap_formatter := lg_formatter l\<rparr> else ap2"
  let ?w = "put_logger a (l\<lparr>lg_appenders := lg_appenders l @ [p]\<rparr>) (put_appender p ?ap w2)"
  have "lw_loggers w2 a = Some l" "lw_appenders w2 p = Some ap2"
    using w1(3) w2(3,4) l by (simp_all add: same_loggers_def)
  then have add: "Logger_addAppender a p w2 = Inr ?w"
    by (auto simp: Logger_addAppender_def LogAppender_getFormatter_def deref_logger_def deref_appender_def
        put_appender_def put_logger_def Let_def intro!: log_world.equality)
  show thesis
  proof (rule that)
    show "add_appender_define junk name a ad w = Inr ?w"
      using w1(1) w2(1) add by (simp add: add_appender_define_def)
    show "log_wf ?w" by (rule Logger_addAppender_wf [OF w2(2) add])
    show "lw_appenders ?w = (lw_appenders w)(p \<mapsto> ?ap)"
      using w1(5) w2(4) by (simp add: put_logger_def put_appender_def)
    show "appender_conforms ?w l p ad"
      using w1(8) w2(5-8) by (auto simp: appender_conforms_def put_logger_def put_appender_def split: option.split)
  qed (use w1(3,4) w2(3) in \<open>simp_all add: same_loggers_def put_logger_def put_appender_def\<close>)
qed

section \<open>Applying a definition\<close>

lemma appender_conforms_old:
  "lw_appenders w p = None \<Longrightarrow> lw_appenders w' = (lw_appenders w)(p \<mapsto> ap) \<Longrightarrow>
   appender_conforms w l q ad \<Longrightarrow> appender_conforms w' l q ad"
  by (auto simp: appender_conforms_def)

lemma appender_conforms_logger:
  "lg_formatter l' = lg_formatter l \<Longrightarrow> appender_conforms w l' = appender_conforms w l"
  by (simp add: appender_conforms_def fun_eq_iff split: option.split)

lemma log_wf_owned: "log_wf w \<Longrightarrow> lw_loggers w b = Some k \<Longrightarrow> lw_appenders w p = None \<Longrightarrow> p \<notin> set (lg_appenders k)"
  using log_wfD_live [of True w b k p] by (auto simp: appender_inv_def)

text \<open>The loop over the appenders of a definition.\<close>

lemma add_appender_defines_spec:
  assumes "log_wf w" and "apart w" and "lw_loggers w a = Some l" and "\<forall>ad\<in>set ads. ad_type ad = 1 \<or> ad_type ad = 2"
    and "list_all2 (appender_conforms w l) (lg_appenders l) done_ads"
  shows "\<exists>w' l'. fold_r (add_appender_define junk name a) ads w = Inr w' \<and> log_wf w' \<and> apart w' \<and> touches a w w' \<and>
           lw_loggers w' a = Some l' \<and> lg_level l' = lg_level l \<and> lg_formatter l' = lg_formatter l \<and>
           list_all2 (appender_conforms w' l') (lg_appenders l') (done_ads @ ads)"
  using assms
proof (induction ads arbitrary: w l done_ads)
  case Nil
  then show ?case by auto
next
  case (Cons ad ads)
  have ty: "ad_type ad = 1 \<or> ad_type ad = 2" using Cons.prems(4) by simp
  obtain p ap w1 where w1: "add_appender_define junk name a ad w = Inr w1" "log_wf w1"
    "lw_loggers_map w1 = lw_loggers_map w" "lw_root w1 = lw_root w" "lw_appenders w p = None"
    "lw_loggers w1 = (lw_loggers w)(a \<mapsto> l\<lparr>lg_appenders := lg_appenders l @ [p]\<rparr>)"
    "lw_appenders w1 = (lw_appenders w)(p \<mapsto> ap)" "appender_conforms w1 l p ad"
    by (rule add_appender_define_spec [OF Cons.prems(1,3) ty])
  let ?l = "l\<lparr>lg_appenders := lg_appenders l @ [p]\<rparr>"
  note owned = log_wf_owned [OF Cons.prems(1) _ w1(5)]
  have "touches a w w1"
    using w1(3,4,6,7) owned by (fastforce simp: touches_def)
  have "apart w1"
    using Cons.prems(2,3) w1(6) owned unfolding apart_def by (auto split: if_splits; fast)
  moreover have "list_all2 (appender_conforms w1 l) (lg_appenders l) done_ads"
    using Cons.prems(5) by (rule list.rel_mono_strong) (rule appender_conforms_old [OF w1(5,7)])
  then have "list_all2 (appender_conforms w1 ?l) (lg_appenders ?l) (done_ads @ [ad])"
    using w1(8) by (simp add: list_all2_appendI appender_conforms_logger [of ?l l])
  moreover have "lw_loggers w1 a = Some ?l" using w1(6) by simp
  ultimately obtain w' l' where "fold_r (add_appender_define junk name a) ads w1 = Inr w'" "log_wf w'" "apart w'"
    "touches a w1 w'" "lw_loggers w' a = Some l'" "lg_level l' = lg_level ?l" "lg_formatter l' = lg_formatter ?l"
    "list_all2 (appender_conforms w' l') (lg_appenders l') ((done_ads @ [ad]) @ ads)"
    using Cons.IH [OF w1(2), of ?l "done_ads @ [ad]"] Cons.prems(4) by auto
  then show ?case
    using w1(1) touches_trans [OF \<open>touches a w w1\<close>] by (intro exI [of _ w'] exI [of _ l']) simp
qed

lemma SYLAR_LOG_NAME_spec:
  assumes wf: "log_wf w" and ap: "apart w"
  obtains a l w' where "SYLAR_LOG_NAME name w = (a, w')" "log_wf w'" "apart w'"
    "smap_find name (lw_loggers_map w') = Some a" "lw_loggers w' a = Some l" "\<And>n. n \<noteq> name \<Longrightarrow> name_kept n w w'"
proof -
  obtain a w' where w': "LoggerManager_getLogger name w = (a, w')" by fastforce
  note wf' = LoggerManager_getLogger_wf [OF wf w'] and found = LoggerManager_getLogger_found [OF w']
  obtain l where l: "lw_loggers w' a = Some l" using log_wfD_map [OF wf' found] by blast
  have "apart w'"
  proof (cases "smap_find name (lw_loggers_map w)")
    case (Some b)
    then show ?thesis using w' ap by (simp add: LoggerManager_getLogger_def)
  next
    case None
    let ?l = "\<lparr>lg_name = name, lg_level = DEBUG, lg_appenders = [],
      lg_formatter = Some (LogFormatter_ctor default_pattern), lg_root = Some (lw_root w)\<rparr>"
    have "lw_loggers w' = (lw_loggers w)(lw_next_logger w \<mapsto> ?l)"
      using w' None by (auto simp: LoggerManager_getLogger_def Logger_ctor_def put_logger_def)
    then show ?thesis using ap unfolding apart_def by auto
  qed
  moreover have "name_kept n w w'" if "n \<noteq> name" for n
    using that LoggerManager_getLogger_keeps [OF wf w'] w'
    by (auto simp: name_kept_def LoggerManager_getLogger_def Logger_ctor_def put_logger_def
          split: option.splits simp del: smap_find_eq_None)
  ultimately show thesis using that w' wf' found l by (simp add: SYLAR_LOG_NAME_def)
qed

lemma Logger_setFormatter_pattern_spec:
  assumes wf: "log_wf w" and ap: "apart w" and l: "lw_loggers w a = Some l" and "s \<noteq> []"
  obtains w' l' where "Logger_setFormatter_pattern a s w = Inr w'" "log_wf w'" "apart w'" "touches a w w'"
    "lw_loggers w' a = Some l'" "lg_level l' = lg_level l" "lg_appenders l' = lg_appenders l"
    "\<And>fm. valid_formatter s = Some fm \<Longrightarrow> lg_formatter l' = Some fm"
proof (cases "fm_error (LogFormatter_ctor s)")
  case True
  then obtain t where t: "Logger_setFormatter_pattern a s w = Inr (write_cout t w)"
    using l by (auto simp: Logger_setFormatter_pattern_def deref_logger_def write_cout_def Let_def)
  show thesis
    using that [OF t write_cout_wf [OF wf]] ap l True by (simp add: write_cout_def valid_formatter_def)
      (simp add: touches_def apart_def)
next
  case False
  let ?w = "write_cout (LogFormatter_cout s) w" and ?fm = "LogFormatter_ctor s"
  obtain w' where w': "Logger_setFormatter a (Some ?fm) ?w = Inr w'"
    "lw_loggers w' = (lw_loggers ?w)(a \<mapsto> l\<lparr>lg_formatter := Some ?fm\<rparr>)"
    "lw_appenders w' = (\<lambda>p. map_option (\<lambda>ap. if p \<in> set (lg_appenders l) \<and> \<not> ap_has_formatter ap
       then ap\<lparr>ap_formatter := Some ?fm\<rparr> else ap) (lw_appenders ?w p))"
    by (rule Logger_setFormatter_spec [OF write_cout_wf [OF wf], of _ a l "Some ?fm"])
       (use l in \<open>auto simp: write_cout_def\<close>)
  have run: "Logger_setFormatter_pattern a s w = Inr w'"
    using w'(1) l False by (simp add: Logger_setFormatter_pattern_def deref_logger_def Let_def)
  have maps: "lw_loggers_map w' = lw_loggers_map w \<and> lw_root w' = lw_root w"
  proof -
    have "fold_r (inherit_formatter (Some ?fm)) (lg_appenders l) (put_logger a (l\<lparr>lg_formatter := Some ?fm\<rparr>) ?w) = Inr w'"
      using w'(1) l by (simp add: Logger_setFormatter_def deref_logger_def write_cout_def)
    then show ?thesis
      by (rule fold_r_invariant [where P = "\<lambda>v. lw_loggers_map v = lw_loggers_map w \<and> lw_root v = lw_root w"])
         (auto simp: put_logger_def write_cout_def inherit_formatter_def put_appender_def split: if_splits)
  qed
  have "lw_appenders w' p = lw_appenders w p" if "b \<noteq> a" "lw_loggers w b = Some k" "p \<in> set (lg_appenders k)" for b k p
  proof -
    have "p \<notin> set (lg_appenders l)" using ap l that unfolding apart_def by fast
    then show ?thesis using w'(3) by (simp add: write_cout_def option.map_ident)
  qed
  then have "touches a w w'" using maps w'(2) by (auto simp: touches_def write_cout_def)
  moreover have "apart w'"
    using ap l w'(2) unfolding apart_def write_cout_def by (auto split: if_splits)
  ultimately show thesis
    using that [OF run Logger_setFormatter_pattern_wf [OF wf run]] w'(2) False
    by (auto simp: valid_formatter_def assms(4))
qed

lemma apply_define_spec:
  assumes wf: "log_wf w" and ap: "apart w" and ty: "\<forall>ad\<in>set (ld_appenders d). ad_type ad = 1 \<or> ad_type ad = 2"
  obtains w' where "apply_define junk d w = Inr w'" "log_wf w'" "apart w'" "conforms w' d"
    "\<And>n. n \<noteq> ld_name d \<Longrightarrow> name_kept n w w'"
proof -
  obtain a l w1 where w1: "SYLAR_LOG_NAME (ld_name d) w = (a, w1)" "log_wf w1" "apart w1"
    "smap_find (ld_name d) (lw_loggers_map w1) = Some a" "lw_loggers w1 a = Some l"
    "\<And>n. n \<noteq> ld_name d \<Longrightarrow> name_kept n w w1"
    by (rule SYLAR_LOG_NAME_spec [OF wf ap, of "ld_name d"]) (rule that)
  let ?w2 = "put_logger a (l\<lparr>lg_level := ld_level d\<rparr>) w1"
  have w2: "Logger_setLevel a (ld_level d) w1 = Inr ?w2" using w1(5) by (simp add: Logger_setLevel_def deref_logger_def)
  note wf2 = Logger_setLevel_wf [OF w1(2) w2]
  have ap2: "apart ?w2" using w1(3,5) unfolding apart_def put_logger_def by (auto split: if_splits)
  have l2: "lw_loggers ?w2 a = Some (l\<lparr>lg_level := ld_level d\<rparr>)" by (simp add: put_logger_def)
  obtain w3 l3 where w3: "(if ld_formatter d \<noteq> [] then Logger_setFormatter_pattern a (ld_formatter d) ?w2 else Inr ?w2) = Inr w3"
    "log_wf w3" "apart w3" "touches a ?w2 w3" "lw_loggers w3 a = Some l3" "lg_level l3 = ld_level d"
    "\<And>fm. valid_formatter (ld_formatter d) = Some fm \<Longrightarrow> lg_formatter l3 = Some fm"
  proof (cases "ld_formatter d = []")
    case True
    then show thesis using that [of ?w2 "l\<lparr>lg_level := ld_level d\<rparr>"] wf2 ap2 l2 by (simp add: valid_formatter_def)
  next
    case False
    obtain v k where v: "Logger_setFormatter_pattern a (ld_formatter d) ?w2 = Inr v" "log_wf v" "apart v"
      "touches a ?w2 v" "lw_loggers v a = Some k" "lg_level k = lg_level (l\<lparr>lg_level := ld_level d\<rparr>)"
      "\<And>fm. valid_formatter (ld_formatter d) = Some fm \<Longrightarrow> lg_formatter k = Some fm"
      by (rule Logger_setFormatter_pattern_spec [OF wf2 ap2 l2 False]) (rule that)
    show thesis by (rule that [of v k]) (use v False in simp_all)
  qed
  let ?w4 = "put_logger a (l3\<lparr>lg_appenders := []\<rparr>) w3"
  have w4: "Logger_clearAppenders a w3 = Inr ?w4" using w3(5) by (simp add: Logger_clearAppenders_def deref_logger_def)
  note wf4 = Logger_clearAppenders_wf [OF w3(2) w4]
  have ap4: "apart ?w4" by (rule apart_put_logger [OF w3(3)]) simp
  have l4: "lw_loggers ?w4 a = Some (l3\<lparr>lg_appenders := []\<rparr>)" by (simp add: put_logger_def)
  obtain w5 l5 where w5: "fold_r (add_appender_define junk (ld_name d) a) (ld_appenders d) ?w4 = Inr w5"
    "log_wf w5" "apart w5" "touches a ?w4 w5" "lw_loggers w5 a = Some l5" "lg_level l5 = lg_level l3"
    "lg_formatter l5 = lg_formatter l3" "list_all2 (appender_conforms w5 l5) (lg_appenders l5) (ld_appenders d)"
    using add_appender_defines_spec [OF wf4 ap4 l4 ty, of "[]" junk "ld_name d"] by auto
  have touch: "touches a w1 w5"
    by (rule touches_trans [OF touches_put_logger touches_trans [OF w3(4) touches_trans [OF touches_put_logger w5(4)]]])
  show thesis
  proof (rule that)
    show "apply_define junk d w = Inr w5"
      using w1(1) w2 w3(1) w4 w5(1) by (simp add: apply_define_def)
    have "smap_find (ld_name d) (lw_loggers_map w5) = Some a" using touch w1(4) by (simp add: touches_def)
    then show "conforms w5 d"
      using w5(5-8) w3(6,7) by (auto simp: conforms_def logger_conforms_def)
    show "name_kept n w w5" if "n \<noteq> ld_name d" for n
      using name_kept_trans [OF w1(6) [OF that] touches_name_kept [OF w1(2) touch w1(4) that]] .
  qed (fact w5)+
qed

lemma Logger_setFormatter_pattern_bad:
  assumes "lw_loggers w a = Some l" and "fm_error (LogFormatter_ctor s)"
  shows "\<exists>t. Logger_setFormatter_pattern a s w = Inr (write_cout t w)"
  using assms by (auto simp: Logger_setFormatter_pattern_def deref_logger_def write_cout_def Let_def)

text \<open>A definition without a valid formatter leaves the formatter an existing logger has.\<close>

lemma apply_define_formatter:
  assumes wf: "log_wf w" and ap: "apart w" and ty: "\<forall>ad\<in>set (ld_appenders d). ad_type ad = 1 \<or> ad_type ad = 2"
    and a: "smap_find (ld_name d) (lw_loggers_map w) = Some a" and l: "lw_loggers w a = Some l"
    and none: "valid_formatter (ld_formatter d) = None"
  shows "\<exists>w' l'. apply_define junk d w = Inr w' \<and> lw_loggers w' a = Some l' \<and> lg_formatter l' = lg_formatter l"
proof -
  let ?w2 = "put_logger a (l\<lparr>lg_level := ld_level d\<rparr>) w"
  have w2: "Logger_setLevel a (ld_level d) w = Inr ?w2" using l by (simp add: Logger_setLevel_def deref_logger_def)
  note wf2 = Logger_setLevel_wf [OF wf w2]
  have ap2: "apart ?w2" using ap l unfolding apart_def put_logger_def by (auto split: if_splits)
  have l2: "lw_loggers ?w2 a = Some (l\<lparr>lg_level := ld_level d\<rparr>)" by (simp add: put_logger_def)
  obtain t where w3: "(if ld_formatter d \<noteq> [] then Logger_setFormatter_pattern a (ld_formatter d) ?w2 else Inr ?w2) =
      Inr (write_cout t ?w2)"
  proof (cases "ld_formatter d = []")
    case True
    then show thesis by (intro that [of "[]"]) (simp add: write_cout_def)
  next
    case False
    then show thesis
      using none Logger_setFormatter_pattern_bad [OF l2] that by (auto simp: valid_formatter_def split: if_splits)
  qed
  let ?w3 = "write_cout t ?w2"
  have l3: "lw_loggers ?w3 a = Some (l\<lparr>lg_level := ld_level d\<rparr>)" using l2 by (simp add: write_cout_def)
  let ?l4 = "l\<lparr>lg_level := ld_level d, lg_appenders := []\<rparr>"
  have w4: "Logger_clearAppenders a ?w3 = Inr (put_logger a ?l4 ?w3)"
    using l3 by (simp add: Logger_clearAppenders_def deref_logger_def)
  have "apart (put_logger a ?l4 ?w3)" using ap2 by (intro apart_put_logger) simp_all
  from add_appender_defines_spec [OF Logger_clearAppenders_wf [OF write_cout_wf [OF wf2] w4] this _ ty, of a ?l4 "[]" junk "ld_name d"]
  obtain w5 l5 where "fold_r (add_appender_define junk (ld_name d) a) (ld_appenders d) (put_logger a ?l4 ?w3) = Inr w5"
    "lw_loggers w5 a = Some l5" "lg_formatter l5 = lg_formatter l"
    by (auto simp: put_logger_def)
  then show ?thesis
    using w2 w3 w4 LoggerManager_getLogger_again [OF a] by (simp add: apply_define_def SYLAR_LOG_NAME_def)
qed

lemma silence_spec:
  assumes wf: "log_wf w" and ap: "apart w"
  obtains w' where "(case SYLAR_LOG_NAME name w of
      (logger, w) \<Rightarrow> bind_r (Logger_setLevel logger LEVEL_100 w) (Logger_clearAppenders logger)) = Inr w'"
    "log_wf w'" "apart w'" "silenced w' name" "\<And>n. n \<noteq> name \<Longrightarrow> name_kept n w w'"
proof -
  obtain a l w1 where w1: "SYLAR_LOG_NAME name w = (a, w1)" "log_wf w1" "apart w1"
    "smap_find name (lw_loggers_map w1) = Some a" "lw_loggers w1 a = Some l" "\<And>n. n \<noteq> name \<Longrightarrow> name_kept n w w1"
    by (rule SYLAR_LOG_NAME_spec [OF wf ap, of name]) (rule that)
  let ?w2 = "put_logger a (l\<lparr>lg_level := LEVEL_100\<rparr>) w1"
  let ?w3 = "put_logger a (l\<lparr>lg_level := LEVEL_100, lg_appenders := []\<rparr>) ?w2"
  have w2: "Logger_setLevel a LEVEL_100 w1 = Inr ?w2" using w1(5) by (simp add: Logger_setLevel_def deref_logger_def)
  have w3: "Logger_clearAppenders a ?w2 = Inr ?w3"
    by (simp add: Logger_clearAppenders_def deref_logger_def put_logger_def)
  have touch: "touches a w1 ?w3" by (rule touches_trans [OF touches_put_logger touches_put_logger])
  show thesis
  proof (rule that)
    show "log_wf ?w3" by (rule Logger_clearAppenders_wf [OF Logger_setLevel_wf [OF w1(2) w2] w3])
    show "apart ?w3" using w1(3,5) unfolding apart_def put_logger_def by (auto split: if_splits)
    show "silenced ?w3 name" using w1(4) by (simp add: silenced_def put_logger_def)
    show "name_kept n w ?w3" if "n \<noteq> name" for n
      using name_kept_trans [OF w1(6) [OF that] touches_name_kept [OF w1(2) touch w1(4) that]] .
  qed (use w1(1) w2 w3 in simp)
qed

section \<open>The two loops\<close>

lemma set_find_Some:
  assumes "set_find d ds = Some e"
  shows "e \<in> set ds \<and> ld_name e = ld_name d"
proof -
  obtain i where "i < length ds" "e = ds ! i" "\<not> LogDefine_less d e" "\<not> LogDefine_less e d"
    using assms by (auto simp: set_find_def find_Some_iff)
  then show ?thesis by (auto simp: LogDefine_less_def)
qed

lemma set_find_None: "set_find d ds = None \<longleftrightarrow> ld_name d \<notin> ld_name ` set ds"
proof -
  have "(\<not> LogDefine_less d e \<and> \<not> LogDefine_less e d) = (ld_name e = ld_name d)" for e
    by (auto simp: LogDefine_less_def)
  then show ?thesis by (auto simp: set_find_def find_None_iff image_iff)
qed

lemma log_defines_types: "log_defines_ok ds \<Longrightarrow> d \<in> set ds \<Longrightarrow> \<forall>ad\<in>set (ld_appenders d). ad_type ad = 1 \<or> ad_type ad = 2"
  by (auto simp: log_defines_ok_def log_define_ok_def appender_define_ok_def)

lemma on_define_spec:
  assumes wf: "log_wf w" and ap: "apart w" and ty: "\<forall>ad\<in>set (ld_appenders d). ad_type ad = 1 \<or> ad_type ad = 2"
    and old: "d \<in> set old \<Longrightarrow> conforms w d"
  obtains w' where "on_define junk old d w = Inr w'" "log_wf w'" "apart w'" "conforms w' d"
    "\<And>n. n \<noteq> ld_name d \<Longrightarrow> name_kept n w w'"
proof (cases "set_find d old = Some d")
  case True
  then show thesis using that [of w] wf ap old set_find_Some [OF True] by (simp add: on_define_def)
next
  case False
  obtain w' where w': "apply_define junk d w = Inr w'" "log_wf w'" "apart w'" "conforms w' d"
    "\<And>n. n \<noteq> ld_name d \<Longrightarrow> name_kept n w w'"
    by (rule apply_define_spec [OF wf ap ty]) (rule that)
  have "on_define junk old d w = Inr w'"
    using False w'(1) by (auto simp: on_define_def split: option.split)
  then show thesis using w' by (intro that)
qed

lemma on_defines_spec:
  assumes "log_wf w" and "apart w" and "distinct (map ld_name ds)"
    and "\<forall>d\<in>set ds. \<forall>ad\<in>set (ld_appenders d). ad_type ad = 1 \<or> ad_type ad = 2"
    and "\<forall>d\<in>set ds. d \<in> set old \<longrightarrow> conforms w d"
  shows "\<exists>w'. fold_r (on_define junk old) ds w = Inr w' \<and> log_wf w' \<and> apart w' \<and>
           (\<forall>d\<in>set ds. conforms w' d) \<and> (\<forall>n. n \<notin> ld_name ` set ds \<longrightarrow> name_kept n w w')"
  using assms
proof (induction ds arbitrary: w)
  case (Cons d ds)
  have ty: "\<forall>ad\<in>set (ld_appenders d). ad_type ad = 1 \<or> ad_type ad = 2" and old: "d \<in> set old \<Longrightarrow> conforms w d"
    using Cons.prems(4,5) by simp_all
  obtain w1 where w1: "on_define junk old d w = Inr w1" "log_wf w1" "apart w1" "conforms w1 d"
    "\<And>n. n \<noteq> ld_name d \<Longrightarrow> name_kept n w w1"
    by (rule on_define_spec [OF Cons.prems(1,2) ty old]) (assumption, rule that)
  have "\<forall>e\<in>set ds. e \<in> set old \<longrightarrow> conforms w1 e"
  proof (intro ballI impI)
    fix e assume "e \<in> set ds" "e \<in> set old"
    moreover from this have "ld_name e \<noteq> ld_name d" using Cons.prems(3) by (metis distinct.simps(2) imageI list.set_map list.simps(9))
    ultimately have "conforms w e" "ld_name e \<noteq> ld_name d" using Cons.prems(5) by simp_all
    then show "conforms w1 e" using conforms_kept w1(5) by blast
  qed
  then obtain w2 where w2: "fold_r (on_define junk old) ds w1 = Inr w2" "log_wf w2" "apart w2"
    "\<forall>d\<in>set ds. conforms w2 d" "\<forall>n. n \<notin> ld_name ` set ds \<longrightarrow> name_kept n w1 w2"
    using Cons.IH [OF w1(2,3)] Cons.prems(3,4) by auto
  have "conforms w2 d" using conforms_kept [OF _ w1(4)] w2(5) Cons.prems(3) by simp
  moreover have "name_kept n w w2" if "n \<notin> ld_name ` set (d # ds)" for n
    using name_kept_trans [OF w1(5)] w2(5) that by simp
  ultimately show ?case using w1(1) w2 by (intro exI [of _ w2]) simp
qed simp

lemma on_deleteds_spec:
  assumes "log_wf w" and "apart w"
  shows "\<exists>w'. fold_r (on_deleted new) ds w = Inr w' \<and> log_wf w' \<and> apart w' \<and>
           (\<forall>d\<in>set ds. ld_name d \<notin> ld_name ` set new \<longrightarrow> silenced w' (ld_name d)) \<and>
           (\<forall>n. n \<in> ld_name ` set new \<or> n \<notin> ld_name ` set ds \<longrightarrow> name_kept n w w')"
  using assms
proof (induction ds arbitrary: w)
  case (Cons d ds)
  let ?gone = "ld_name d \<notin> ld_name ` set new"
  obtain w1 where w1: "on_deleted new d w = Inr w1" "log_wf w1" "apart w1" "?gone \<Longrightarrow> silenced w1 (ld_name d)"
    "\<And>n. n \<noteq> ld_name d \<or> \<not> ?gone \<Longrightarrow> name_kept n w w1"
  proof (cases ?gone)
    case True
    obtain v where v: "(case SYLAR_LOG_NAME (ld_name d) w of
        (logger, w) \<Rightarrow> bind_r (Logger_setLevel logger LEVEL_100 w) (Logger_clearAppenders logger)) = Inr v"
      "log_wf v" "apart v" "silenced v (ld_name d)" "\<And>n. n \<noteq> ld_name d \<Longrightarrow> name_kept n w v"
      by (rule silence_spec [OF Cons.prems]) (rule that)
    show thesis by (rule that [of v]) (use v True set_find_None [of d new] in \<open>simp_all add: on_deleted_def\<close>)
  next
    case False
    then obtain e where "set_find d new = Some e" using set_find_None [of d new] by blast
    with False Cons.prems show thesis by (intro that [of w]) (simp_all add: on_deleted_def)
  qed
  obtain w2 where w2: "fold_r (on_deleted new) ds w1 = Inr w2" "log_wf w2" "apart w2"
    "\<forall>d\<in>set ds. ld_name d \<notin> ld_name ` set new \<longrightarrow> silenced w2 (ld_name d)"
    "\<forall>n. n \<in> ld_name ` set new \<or> n \<notin> ld_name ` set ds \<longrightarrow> name_kept n w1 w2"
    using Cons.IH [OF w1(2,3)] by auto
  have "silenced w2 (ld_name d)" if ?gone
  proof (cases "ld_name d \<in> ld_name ` set ds")
    case True
    then obtain e where "e \<in> set ds" "ld_name e = ld_name d" by auto
    then show ?thesis using w2(4) that by metis
  next
    case False
    then show ?thesis using silenced_kept w1(4) w2(5) that by blast
  qed
  moreover have "name_kept n w w2" if "n \<in> ld_name ` set new \<or> n \<notin> ld_name ` set (d # ds)" for n
    using that by (intro name_kept_trans [OF w1(5) w2(5) [rule_format]]) auto
  ultimately show ?case using w1(1) w2 by (intro exI [of _ w2]) auto
qed simp

section \<open>The listener keeps loggers and configuration together\<close>

lemma appender_conforms_frame:
  assumes "log_frame w w'" and "appender_conforms w l p ad"
  shows "appender_conforms w' l p ad"
proof -
  obtain ap where ap: "lw_appenders w p = Some ap" using assms(2) by (auto simp: appender_conforms_def)
  obtain ap' where "lw_appenders w' p = Some ap'" "ap_level ap' = ap_level ap"
    "ap_has_formatter ap' = ap_has_formatter ap" "ap_formatter ap' = ap_formatter ap"
    "sink_file (ap_sink ap') = sink_file (ap_sink ap)"
    by (rule log_frame_appender [OF assms(1) ap])
  then show ?thesis using assms(2) ap by (simp add: appender_conforms_def split: option.splits)
qed

lemma conforms_frame: "log_frame w w' \<Longrightarrow> conforms w d \<Longrightarrow> conforms w' d"
proof -
  assume fr: "log_frame w w'" and "conforms w d"
  then obtain a l where l: "smap_find (ld_name d) (lw_loggers_map w) = Some a" "lw_loggers w a = Some l" "logger_conforms w l d"
    by (auto simp: conforms_def)
  have "list_all2 (appender_conforms w l) (lg_appenders l) (ld_appenders d)"
    using l(3) by (simp add: logger_conforms_def)
  then have "list_all2 (appender_conforms w' l) (lg_appenders l) (ld_appenders d)"
    by (rule list.rel_mono_strong) (rule appender_conforms_frame [OF fr])
  then have "logger_conforms w' l d" using l(3) by (simp add: logger_conforms_def)
  then show "conforms w' d" using l(1,2) fr by (auto simp: conforms_def log_frame_def)
qed

lemma apart_frame: "log_frame w w' \<Longrightarrow> apart w \<Longrightarrow> apart w'"
  by (simp add: apart_def log_frame_def)

lemma LogIniter_listener_spec:
  assumes wf: "log_wf w" and ap: "apart w" and old: "\<forall>d\<in>set old. conforms w d"
    and new: "log_defines_ok new"
  shows "\<exists>w'. LogIniter_listener st junk old new w = Inr w' \<and> log_wf w' \<and> apart w' \<and>
           (\<forall>d\<in>set new. conforms w' d) \<and>
           (\<forall>d\<in>set old. ld_name d \<notin> ld_name ` set new \<longrightarrow> silenced w' (ld_name d)) \<and>
           (\<forall>n a l. n \<notin> ld_name ` set new \<union> ld_name ` set old \<longrightarrow> smap_find n (lw_loggers_map w) = Some a \<longrightarrow>
              lw_loggers w a = Some l \<longrightarrow> smap_find n (lw_loggers_map w') = Some a \<and> lw_loggers w' a = Some l)"
proof -
  have "live_call w (Call_log st (lw_root w) INFO ''on_logger_conf_changed'')"
    using log_wfD_root [OF wf] by auto
  from exec_call_total [OF wf this]
  obtain w1 where w1: "SYLAR_LOG_LEVEL 2 st (lw_root w) INFO ''on_logger_conf_changed'' w = Inr w1" by auto
  note fr = SYLAR_LOG_LEVEL_frame [OF w1]
  have "distinct (map ld_name new)"
  proof -
    have "LogDefine_less = (\<lambda>a b. ld_name a < ld_name b)" by (simp add: fun_eq_iff LogDefine_less_def)
    then have "sorted_wrt (<) (map ld_name new)"
      using new by (simp add: log_defines_ok_def sorted_wrt_map)
    then show ?thesis by (simp add: strict_sorted_iff)
  qed
  moreover have "\<forall>d\<in>set new. d \<in> set old \<longrightarrow> conforms w1 d" using old conforms_frame [OF fr] by blast
  ultimately obtain w2 where w2: "fold_r (on_define junk old) new w1 = Inr w2" "log_wf w2" "apart w2"
    "\<forall>d\<in>set new. conforms w2 d" "\<forall>n. n \<notin> ld_name ` set new \<longrightarrow> name_kept n w1 w2"
    using on_defines_spec [OF log_frame_wf [OF fr wf] apart_frame [OF fr ap], of new old junk]
      log_defines_types [OF new] by auto
  obtain w3 where w3: "fold_r (on_deleted new) old w2 = Inr w3" "log_wf w3" "apart w3"
    "\<forall>d\<in>set old. ld_name d \<notin> ld_name ` set new \<longrightarrow> silenced w3 (ld_name d)"
    "\<forall>n. n \<in> ld_name ` set new \<or> n \<notin> ld_name ` set old \<longrightarrow> name_kept n w2 w3"
    using on_deleteds_spec [OF w2(2,3)] by blast
  have "\<forall>d\<in>set new. conforms w3 d" using w2(4) w3(5) conforms_kept by blast
  moreover have "smap_find n (lw_loggers_map w3) = Some a \<and> lw_loggers w3 a = Some l"
    if "n \<notin> ld_name ` set new \<union> ld_name ` set old" "smap_find n (lw_loggers_map w) = Some a" "lw_loggers w a = Some l" for n a l
  proof -
    have "name_kept n w1 w3" using that(1) w2(5) w3(5) name_kept_trans by blast
    then show ?thesis using that(2,3) fr by (simp add: name_kept_def log_frame_def)
  qed
  ultimately show ?thesis
    using w1 w2(1) w3 by (intro exI [of _ w3]) (simp add: LogIniter_listener_def SYLAR_LOG_ROOT_def)
qed

section \<open>The variable \<open>logs\<close>\<close>

text \<open>
  The type argument of the variable, its one listener, and static initialisation: the variable is looked
  up with an empty set as default, and \<open>LogIniter\<close> adds the listener. \<open>tn\<close> is \<open>typeid(T).name()\<close>. A listener run that
  fails, which the lemmas exclude, leaves the loggers as they were.
\<close>

datatype log_cb = On_Logger_Conf_Changed

definition logs_type :: "'n yaml \<Rightarrow> string \<Rightarrow> log_define list vtype" where
  "logs_type y tn =
     \<lparr>vt_name = tn, vt_from_str = from_string (LexicalCast_log_defines y),
      vt_to_str = to_string (LexicalCast_log_defines y), vt_eq = list_all2 LogDefine_eq,
      vt_prints = (\<lambda>s. fst (LogDefines_from_string y s))\<rparr>"

definition log_listener :: "log_site \<Rightarrow> (nat \<Rightarrow> 64 word) \<Rightarrow> (log_define list, log_cb, log_world) listener" where
  "log_listener st junk cb old new w =
     (case LogIniter_listener st junk old new w of Inr w' \<Rightarrow> (w', None) | Inl e \<Rightarrow> (w, Some e))"

text \<open>What the cast prints goes to \<open>std::cout\<close>, and an ERROR line of the configuration is logged by the root logger.\<close>

definition log_effects :: "log_site \<Rightarrow> log_world effects" where
  "log_effects st =
     \<lparr>ef_print = write_cout,
      ef_log_error = (\<lambda>s w. case SYLAR_LOG_LEVEL 2 st (SYLAR_LOG_ROOT w) ERROR s w of Inr w' \<Rightarrow> w' | Inl e \<Rightarrow> w)\<rparr>"

definition g_log_defines ::
  "'n yaml \<Rightarrow> string \<Rightarrow> (log_define list, log_cb, log_world) config_world \<Rightarrow>
   (log_define list, log_cb, log_world) config_world \<times> nat option result" where
  "g_log_defines y tn w = Config_Lookup (logs_type y tn) ''logs'' [] ''logs config'' w"

definition LogIniter_ctor ::
  "nat \<Rightarrow> (log_define list, log_cb, log_world) config_world \<Rightarrow>
   (log_define list, log_cb, log_world) config_world \<times> 64 word result" where
  "LogIniter_ctor a w = Config_addListener On_Logger_Conf_Changed a w"

type_synonym log_conf_state = "(log_define list, log_cb) config_var \<times> log_world"

definition log_config_inv :: "'n yaml \<Rightarrow> string \<Rightarrow> log_conf_state \<Rightarrow> bool" where
  "log_config_inv y tn s \<longleftrightarrow>
     (case s of (cv, w) \<Rightarrow>
        log_wf w \<and> apart w \<and> log_defines_ok (m_val cv) \<and> (\<forall>d\<in>set (m_val cv). conforms w d) \<and>
        m_type cv = logs_type y tn \<and> (\<exists>i. m_cbs cv = [(i, On_Logger_Conf_Changed)]))"

lemma list_all2_LogDefine_eq [simp]: "list_all2 LogDefine_eq xs ys \<longleftrightarrow> xs = ys"
proof -
  have "LogDefine_eq = (=)" by (simp add: fun_eq_iff)
  then show ?thesis by (simp add: list_all2_eq)
qed

text \<open>The listener of \<open>logs\<close> follows the variable: the loggers conform, and those without a definition are silenced.\<close>

interpretation logs: listener_contract "log_listener st junk" On_Logger_Conf_Changed log_defines_ok
    "\<lambda>ds w. log_wf w \<and> apart w \<and> (\<forall>d\<in>set ds. conforms w d)"
    "\<lambda>old new w. \<forall>d\<in>set old. ld_name d \<notin> ld_name ` set new \<longrightarrow> silenced w (ld_name d)"
  for st junk
proof unfold_locales
  fix old w new
  assume "log_wf w \<and> apart w \<and> (\<forall>d\<in>set old. conforms w d)" and new: "log_defines_ok new"
  then obtain w' where "LogIniter_listener st junk old new w = Inr w'" "log_wf w'" "apart w'" "\<forall>d\<in>set new. conforms w' d"
    "\<forall>d\<in>set old. ld_name d \<notin> ld_name ` set new \<longrightarrow> silenced w' (ld_name d)"
    using LogIniter_listener_spec [of w old new st junk] by blast
  then show "\<exists>w'. log_listener st junk On_Logger_Conf_Changed old new w = (w', None) \<and>
      (log_wf w' \<and> apart w' \<and> (\<forall>d\<in>set new. conforms w' d)) \<and>
      (\<forall>d\<in>set old. ld_name d \<notin> ld_name ` set new \<longrightarrow> silenced w' (ld_name d))"
    by (simp add: log_listener_def)
qed simp

lemma logs_type_eq: "vt_eq (logs_type y tn) = (=)"
  by (simp add: logs_type_def fun_eq_iff)

lemma write_cout_frame: "log_frame w (write_cout t w)"
  by (simp add: log_frame_def write_cout_def)

lemma log_config_inv_frame:
  assumes "log_frame w w'" and "log_config_inv y tn (cv, w)"
  shows "log_config_inv y tn (cv, w')"
  using assms(2) log_frame_wf [OF assms(1)] apart_frame [OF assms(1)] conforms_frame [OF assms(1)]
  by (auto simp: log_config_inv_def)

text \<open>A text that cannot be read: what was printed and the ERROR line are all that happens.\<close>

lemma fromString_logs_unreadable:
  assumes inv: "log_config_inv y tn (cv, w)" and e: "from_string (LexicalCast_log_defines y) s = Inl e"
  obtains w' where
    "ConfigVar_fromString (log_effects st') (log_listener st junk) s (cv, w) =
       ((cv, w'), if is_std_exception e then Inr False else Inl e)"
    "log_frame w w'"
    "if is_std_exception e
     then SYLAR_LOG_LEVEL 2 st' (lw_root w) ERROR (fromString_complaint e cv)
            (write_cout (fst (LogDefines_from_string y s)) w) = Inr w'
     else w' = write_cout (fst (LogDefines_from_string y s)) w"
proof -
  let ?w1 = "write_cout (fst (LogDefines_from_string y s)) w"
  have "m_type cv = logs_type y tn" and wf: "log_wf w" using inv by (simp_all add: log_config_inv_def)
  then have run: "ConfigVar_fromString (log_effects st') (log_listener st junk) s (cv, w) =
      (if is_std_exception e then ((cv, ef_log_error (log_effects st') (fromString_complaint e cv) ?w1), Inr False)
       else ((cv, ?w1), Inl e))"
    using fromString_unreadable [of cv s e "log_effects st'" "log_listener st junk" w] e
    by (simp add: logs_type_def log_effects_def Let_def)
  have "live_call ?w1 (Call_log st' (lw_root w) ERROR (fromString_complaint e cv))"
    using log_wfD_root [OF wf] by (auto simp: write_cout_def)
  from exec_call_total [OF write_cout_wf [OF wf] this] obtain w2
    where w2: "SYLAR_LOG_LEVEL 2 st' (lw_root w) ERROR (fromString_complaint e cv) ?w1 = Inr w2" by auto
  have root: "SYLAR_LOG_ROOT ?w1 = lw_root w" by (simp add: SYLAR_LOG_ROOT_def write_cout_def)
  note fr = log_frame_trans [OF write_cout_frame SYLAR_LOG_LEVEL_frame [OF w2]]
  show thesis
  proof (cases "is_std_exception e")
    case True
    then show thesis using that [of w2] fr w2 run root by (simp add: log_effects_def)
  next
    case False
    then show thesis using that [of ?w1] write_cout_frame run by simp
  qed
qed

lemma fromString_logs:
  assumes inv: "log_config_inv y tn (cv, w)"
  obtains ds w' where "from_string (LexicalCast_log_defines y) s = Inr ds"
    "ConfigVar_fromString (log_effects st') (log_listener st junk) s (cv, w) = ((setValue_store ds cv, w'), Inr False)"
    "log_config_inv y tn (setValue_store ds cv, w')"
    "\<forall>d\<in>set (m_val cv). ld_name d \<notin> ld_name ` set ds \<longrightarrow> silenced w' (ld_name d)"
  | e w' r where "from_string (LexicalCast_log_defines y) s = Inl e"
    "ConfigVar_fromString (log_effects st') (log_listener st junk) s (cv, w) = ((cv, w'), r)"
    "log_config_inv y tn (cv, w')"
proof (cases "from_string (LexicalCast_log_defines y) s")
  case (Inl e)
  obtain w' where "ConfigVar_fromString (log_effects st') (log_listener st junk) s (cv, w) =
       ((cv, w'), if is_std_exception e then Inr False else Inl e)" "log_frame w w'"
    by (rule fromString_logs_unreadable [OF inv Inl, of st' st junk])
  with that(2) [OF Inl] log_config_inv_frame [OF _ inv] show thesis by blast
next
  case (Inr ds)
  let ?w1 = "write_cout (fst (LogDefines_from_string y s)) w"
  have inv1: "log_config_inv y tn (cv, ?w1)" by (rule log_config_inv_frame [OF write_cout_frame inv])
  from inv1 obtain i where cv: "m_cbs cv = [(i, On_Logger_Conf_Changed)]" "m_type cv = logs_type y tn"
    and w1: "log_wf ?w1 \<and> apart ?w1 \<and> (\<forall>d\<in>set (m_val cv). conforms ?w1 d)"
    by (auto simp: log_config_inv_def)
  have eq: "vt_eq (m_type cv) = (=)" and read: "vt_from_str (m_type cv) s = Inr ds"
    and pr: "ef_print (log_effects st') (vt_prints (m_type cv) s) w = ?w1"
    using Inr by (simp add: cv logs_type_eq, simp add: cv logs_type_def, simp add: cv logs_type_def log_effects_def)
  note ok = log_defines_ok_read [OF Inr]
  from logs.fromString_follows [OF cv(1) eq w1 [folded pr] read ok, of st junk] obtain w' where
    w': "ConfigVar_fromString (log_effects st') (log_listener st junk) s (cv, w) = ((setValue_store ds cv, w'), Inr False)"
      "log_wf w' \<and> apart w' \<and> (\<forall>d\<in>set ds. conforms w' d)"
      "\<forall>d\<in>set (m_val cv). ld_name d \<notin> ld_name ` set ds \<longrightarrow> silenced w' (ld_name d)" by blast
  then have "log_config_inv y tn (setValue_store ds cv, w')"
    using cv ok by (simp add: log_config_inv_def setValue_store_def)
  with Inr w' that(1) show thesis by blast
qed

section \<open>Runs\<close>

text \<open>
  The steps of a program that only configures, looks loggers up and logs: loading a text into the variable, whether
  it can be read or not, \<open>SYLAR_LOG_NAME\<close>, and a logging macro.
\<close>

inductive log_conf_step :: "log_site \<Rightarrow> (nat \<Rightarrow> 64 word) \<Rightarrow> log_conf_state \<Rightarrow> log_conf_state \<Rightarrow> bool" for st junk where
  step_load: "fst (ConfigVar_fromString (log_effects st') (log_listener st junk) s (cv, w)) = (cv', w') \<Longrightarrow>
     log_conf_step st junk (cv, w) (cv', w')"
| step_name: "SYLAR_LOG_NAME name w = (a, w') \<Longrightarrow> log_conf_step st junk (cv, w) (cv, w')"
| step_log: "SYLAR_LOG_LEVEL 2 st' a lv content w = Inr w' \<Longrightarrow> log_conf_step st junk (cv, w) (cv, w')"

text \<open>After static initialisation: the manager, and the variable with its listener.\<close>

definition log_conf_init :: "'n yaml \<Rightarrow> string \<Rightarrow> log_world \<Rightarrow> log_conf_state result" where
  "log_conf_init y tn w =
     bind_r (LoggerManager_ctor w) (\<lambda>w.
       case g_log_defines y tn (config_init w) of
         (cw, r) \<Rightarrow>
           bind_r r (\<lambda>ptr.
             case ptr of
               None \<Rightarrow> Inl (Undefined ''g_log_defines'')
             | Some a \<Rightarrow>
                 (case LogIniter_ctor a cw of
                    (cw', i) \<Rightarrow>
                      (case cw_vars cw' a of
                         None \<Rightarrow> Inl (Undefined ''g_log_defines'')
                       | Some cv \<Rightarrow> Inr (cv, cw_env cw')))))"

lemma LoggerManager_ctor_apart:
  assumes "LoggerManager_ctor w = Inr w'" and "lw_loggers w = Map.empty"
  shows "apart w'"
  using assms
  by (auto simp: LoggerManager_ctor_def Logger_ctor_def StdoutLogAppender_ctor_def new_appender_def
             Logger_addAppender_def LogAppender_getFormatter_def log_simps apart_def split: if_splits)

lemma log_conf_init_run:
  "log_conf_init y tn w =
     bind_r (LoggerManager_ctor w) (\<lambda>w.
       Inr (\<lparr>m_name = ''logs'', m_description = ''logs config'', m_type = logs_type y tn, m_val = [],
              m_cbs = [(1, On_Logger_Conf_Changed)]\<rparr>, w))"
  by (cases "LoggerManager_ctor w")
     (simp_all add: log_conf_init_def g_log_defines_def Config_Lookup_def config_init_def
        has_char_not_of_def name_chars_def LogIniter_ctor_def Config_addListener_def ConfigVar_ctor_def
        ConfigVar_addListener_def ConfigVar_getTypeName_def Let_def tolower_def logs_type_def)

lemma log_conf_init_inv:
  assumes "log_conf_init y tn w = Inr s"
    and "lw_loggers w = Map.empty" and "lw_appenders w = Map.empty" and "lw_loggers_map w = []"
  shows "log_config_inv y tn s"
proof -
  obtain w1 where w1: "LoggerManager_ctor w = Inr w1"
    "s = (\<lparr>m_name = ''logs'', m_description = ''logs config'', m_type = logs_type y tn, m_val = [],
            m_cbs = [(1, On_Logger_Conf_Changed)]\<rparr>, w1)"
    using assms(1) by (auto simp: log_conf_init_run)
  from LoggerManager_ctor_wf [OF w1(1) assms(2-4)] LoggerManager_ctor_apart [OF w1(1) assms(2)] w1(2)
  show ?thesis by (simp add: log_config_inv_def log_defines_ok_def)
qed

lemma log_conf_step_inv:
  assumes "log_conf_step st junk s s'" and "log_config_inv y tn s"
  shows "log_config_inv y tn s'"
  using assms
proof (induction rule: log_conf_step.induct)
  case (step_load st' t cv w cv' w')
  show ?case
    by (rule fromString_logs [OF step_load.prems, of t st' st junk]) (use step_load in auto)
next
  case (step_name name w a w' cv)
  then have wf: "log_wf w" and ap: "apart w" by (auto simp: log_config_inv_def)
  obtain b l v where v: "SYLAR_LOG_NAME name w = (b, v)" "log_wf v" "apart v"
    "\<And>n. n \<noteq> name \<Longrightarrow> name_kept n w v"
    by (rule SYLAR_LOG_NAME_spec [OF wf ap, of name]) (rule that)
  have "conforms v d" if d: "conforms w d" for d
  proof (cases "ld_name d = name")
    case True
    with d obtain c where "smap_find name (lw_loggers_map w) = Some c" by (auto simp: conforms_def)
    from LoggerManager_getLogger_again [OF this] v(1) have "v = w" by (simp add: SYLAR_LOG_NAME_def)
    with d show ?thesis by simp
  next
    case False
    then show ?thesis using conforms_kept [OF v(4) d] by blast
  qed
  then show ?case using step_name v by (auto simp: log_config_inv_def)
next
  case (step_log st' a lv content w w' cv)
  note fr = SYLAR_LOG_LEVEL_frame [OF step_log.hyps]
  show ?case
    using step_log.prems log_frame_wf [OF fr] apart_frame [OF fr] conforms_frame [OF fr]
    by (auto simp: log_config_inv_def)
qed

lemma log_conf_steps_inv:
  "(log_conf_step st junk)\<^sup>*\<^sup>* s s' \<Longrightarrow> log_config_inv y tn s \<Longrightarrow> log_config_inv y tn s'"
  by (induction rule: rtranclp_induct) (auto intro: log_conf_step_inv)

lemma silenced_logger_silent:
  assumes "lw_loggers w a = Some l" and "lg_level l = LEVEL_100" and "lv \<noteq> LEVEL_100"
  shows "SYLAR_LOG_LEVEL 2 st a lv content w = Inr w"
  using assms by (simp add: SYLAR_LOG_LEVEL_def deref_logger_def)

lemma silenced_silent:
  assumes "silenced w n"
  shows "\<exists>a l. smap_find n (lw_loggers_map w) = Some a \<and> lw_loggers w a = Some l \<and> lg_appenders l = [] \<and>
           (\<forall>st lv content. lv \<noteq> LEVEL_100 \<longrightarrow> SYLAR_LOG_LEVEL 2 st a lv content w = Inr w)"
  using assms silenced_logger_silent unfolding silenced_def by blast

section \<open>Properties\<close>

text \<open>The state after static initialisation in an empty world, and a configuration with one logger.\<close>

definition demo_conf :: log_conf_state where
  "demo_conf =
     (\<lparr>m_name = ''logs'', m_description = ''logs config'', m_type = logs_type doc_yaml ''set'', m_val = [],
       m_cbs = [(1, On_Logger_Conf_Changed)]\<rparr>, demo_world_0)"

definition demo_define :: log_define where
  "demo_define =
     \<lparr>ld_name = ''http'', ld_level = WARN,
      ld_appenders = [\<lparr>ad_type = 1, ad_level = UNKNOW, ad_formatter = ''%m%n'', ad_file = ''http.txt''\<rparr>,
                      \<lparr>ad_type = 2, ad_level = UNKNOW, ad_formatter = [], ad_file = []\<rparr>],
      ld_formatter = ''%p''\<rparr>"

definition demo_text :: string where
  "demo_text = (case to_string (LexicalCast_log_defines doc_yaml) [demo_define] of Inr t \<Rightarrow> t | Inl e \<Rightarrow> [])"

lemma demo_text_read: "from_string (LexicalCast_log_defines doc_yaml) demo_text = Inr [demo_define]"
proof -
  have "log_defines_ok [demo_define]"
    by (simp add: log_defines_ok_def log_define_ok_def appender_define_ok_def demo_define_def)
  from log_defines_cast_ok [OF doc_yaml_laws this] show ?thesis by (auto simp: cast_ok_def demo_text_def)
qed

lemma demo_conf: "log_conf_init doc_yaml ''set'' blank_world = Inr demo_conf"
  by (simp add: log_conf_init_run demo_world_0 demo_conf_def)

lemma demo_conf_inv: "log_config_inv doc_yaml ''set'' demo_conf"
  by (rule log_conf_init_inv [OF demo_conf]) (simp_all add: blank_world_def)

text \<open>C7: The loggers always match the configuration. From static initialisation on, whatever texts are loaded
  into the variable \<open>logs\<close> (readable or not), whatever loggers are looked up and whatever is logged in
  between: every definition in the variable's value has its logger, registered under its name, with the
  level of the definition, its formatter when the definition has a valid one, and one appender per appender
  definition in order, of that type, file, level and formatter. No appender belongs to two loggers.\<close>

theorem loggers_match_config:
  assumes "log_conf_init y tn w0 = Inr s0"
    and "lw_loggers w0 = Map.empty" and "lw_appenders w0 = Map.empty" and "lw_loggers_map w0 = []"
    and "(log_conf_step st junk)\<^sup>*\<^sup>* s0 (cv, w)"
  shows "(\<forall>d\<in>set (m_val cv). conforms w d) \<and> apart w \<and> log_wf w"
  using log_conf_steps_inv [OF assms(5) log_conf_init_inv [OF assms(1-4)]] by (simp add: log_config_inv_def)

theorem loggers_match_config_witness:
  "\<exists>cv w. (log_conf_step demo_site (\<lambda>a. 0))\<^sup>*\<^sup>* demo_conf (cv, w) \<and> m_val cv = [demo_define] \<and> conforms w demo_define"
proof -
  obtain cv0 where cv0: "demo_conf = (cv0, demo_world_0)" by (simp add: demo_conf_def)
  obtain w' where w': "ConfigVar_fromString (log_effects demo_site) (log_listener demo_site (\<lambda>a. 0)) demo_text (cv0, demo_world_0) =
      ((setValue_store [demo_define] cv0, w'), Inr False)"
    by (rule fromString_logs [OF demo_conf_inv [unfolded cv0], of demo_text demo_site demo_site "\<lambda>a. 0"])
       (use demo_text_read that in auto)
  have run: "(log_conf_step demo_site (\<lambda>a. 0))\<^sup>*\<^sup>* demo_conf (setValue_store [demo_define] cv0, w')"
    by (rule r_into_rtranclp, unfold cv0, rule step_load [of demo_site _ _ demo_text]) (simp add: w')
  have "\<forall>d\<in>set (m_val (setValue_store [demo_define] cv0)). conforms w' d"
    using loggers_match_config [OF demo_conf _ _ _ run] by (simp add: blank_world_def)
  with run show ?thesis by (intro exI [of _ "setValue_store [demo_define] cv0"] exI [of _ w']) (simp add: setValue_store_def)
qed

text \<open>C8: What loading a text does to the loggers. When the text cannot be read as a set of definitions, the variable
  stays as it was, no logger changes, and neither do level, formatter and file of any appender: what the cast
  prints about malformed definitions goes to \<open>std::cout\<close>, and, if the exception is a \<open>std::exception\<close>, the root logger
  logs one ERROR line with its text; another exception gets through. Otherwise the call
  returns without an exception, the value is the set read, its
  loggers conform to it, and each logger whose definition is gone has no appenders and level 100, so that a
  logging macro on it at any level of the program does nothing at all.\<close>

theorem load_logs_result:
  assumes "log_config_inv y tn (cv, w)"
  shows "case from_string (LexicalCast_log_defines y) s of
           Inl e \<Rightarrow>
             (\<exists>w'. ConfigVar_fromString (log_effects st') (log_listener st junk) s (cv, w) =
                     ((cv, w'), if is_std_exception e then Inr False else Inl e) \<and>
                log_frame w w' \<and>
                (if is_std_exception e
                 then SYLAR_LOG_LEVEL 2 st' (lw_root w) ERROR (fromString_complaint e cv)
                        (write_cout (fst (LogDefines_from_string y s)) w) = Inr w'
                 else w' = write_cout (fst (LogDefines_from_string y s)) w))
         | Inr ds \<Rightarrow>
             (\<exists>w'. ConfigVar_fromString (log_effects st') (log_listener st junk) s (cv, w) =
                     ((setValue_store ds cv, w'), Inr False) \<and>
                (\<forall>d\<in>set ds. conforms w' d) \<and>
                (\<forall>d\<in>set (m_val cv). ld_name d \<notin> ld_name ` set ds \<longrightarrow>
                   (\<exists>a l. smap_find (ld_name d) (lw_loggers_map w') = Some a \<and> lw_loggers w' a = Some l \<and>
                      lg_appenders l = [] \<and>
                      (\<forall>st'' lv content. lv \<noteq> LEVEL_100 \<longrightarrow> SYLAR_LOG_LEVEL 2 st'' a lv content w' = Inr w'))))"
proof (cases "from_string (LexicalCast_log_defines y) s")
  case (Inl e)
  show ?thesis
  proof (rule fromString_logs_unreadable [OF assms Inl, of st' st junk], unfold Inl sum.case)
    fix w'
    assume "ConfigVar_fromString (log_effects st') (log_listener st junk) s (cv, w) =
        ((cv, w'), if is_std_exception e then Inr False else Inl e)" "log_frame w w'"
      "if is_std_exception e
       then SYLAR_LOG_LEVEL 2 st' (lw_root w) ERROR (fromString_complaint e cv)
              (write_cout (fst (LogDefines_from_string y s)) w) = Inr w'
       else w' = write_cout (fst (LogDefines_from_string y s)) w"
    then show "\<exists>w'. ConfigVar_fromString (log_effects st') (log_listener st junk) s (cv, w) =
        ((cv, w'), if is_std_exception e then Inr False else Inl e) \<and> log_frame w w' \<and>
      (if is_std_exception e
       then SYLAR_LOG_LEVEL 2 st' (lw_root w) ERROR (fromString_complaint e cv)
              (write_cout (fst (LogDefines_from_string y s)) w) = Inr w'
       else w' = write_cout (fst (LogDefines_from_string y s)) w)"
      by (intro exI [of _ w'] conjI)
  qed
next
  case (Inr ds)
  show ?thesis
  proof (rule fromString_logs [OF assms, of s st' st junk])
    fix ds' w'
    assume read: "from_string (LexicalCast_log_defines y) s = Inr ds'"
      and w': "ConfigVar_fromString (log_effects st') (log_listener st junk) s (cv, w) = ((setValue_store ds' cv, w'), Inr False)"
        "log_config_inv y tn (setValue_store ds' cv, w')"
        "\<forall>d\<in>set (m_val cv). ld_name d \<notin> ld_name ` set ds' \<longrightarrow> silenced w' (ld_name d)"
    have "\<forall>d\<in>set ds'. conforms w' d"
      using w'(2) by (simp add: log_config_inv_def setValue_store_def)
    moreover have "\<forall>d\<in>set (m_val cv). ld_name d \<notin> ld_name ` set ds' \<longrightarrow>
        (\<exists>a l. smap_find (ld_name d) (lw_loggers_map w') = Some a \<and> lw_loggers w' a = Some l \<and> lg_appenders l = [] \<and>
          (\<forall>st'' lv content. lv \<noteq> LEVEL_100 \<longrightarrow> SYLAR_LOG_LEVEL 2 st'' a lv content w' = Inr w'))"
      using w'(3) silenced_silent [of w'] by blast
    ultimately show ?thesis using read w'(1) by simp
  qed (use Inr in simp)
qed

theorem load_logs_result_witness:
  "(\<exists>cv w'. ConfigVar_fromString (log_effects demo_site) (log_listener demo_site (\<lambda>a. 0)) demo_text demo_conf =
     ((setValue_store [demo_define] cv, w'), Inr False) \<and> conforms w' demo_define) \<and>
   (\<exists>w'. from_string (LexicalCast_log_defines doc_yaml) ''?'' = Inl (Lib_Exception ''yaml'') \<and>
     ConfigVar_fromString (log_effects demo_site) (log_listener demo_site (\<lambda>a. 0)) ''?'' demo_conf =
       ((fst demo_conf, w'), Inr False) \<and> lw_loggers w' = lw_loggers demo_world_0)"
proof -
  obtain cv0 where cv0: "demo_conf = (cv0, demo_world_0)" by (simp add: demo_conf_def)
  note loaded = load_logs_result [OF demo_conf_inv [unfolded cv0], where st' = demo_site and st = demo_site and junk = "\<lambda>a. 0"]
  have "doc_load ''?'' = Inl (Lib_Exception ''yaml'')" by code_simp
  then have "from_string (LexicalCast_log_defines doc_yaml) ''?'' = Inl (Lib_Exception ''yaml'')"
    by (simp add: LexicalCast_log_defines_def LexicalCast_set_def load_seq_def doc_yaml_def)
  then show ?thesis
    using loaded [of demo_text] loaded [of "''?''"] by (auto simp: demo_text_read cv0 log_frame_def)
qed

text \<open>C28: What the cast of the variable \<open>logs\<close> reads is well-formed: the set is strictly sorted by name, so a name
  has one definition and \<open>std::set::find\<close> finds it; no level is the one reserved for deleted loggers; and every
  appender is a file appender or a console appender, the latter without file and formatter, so the
  listener never dereferences a null appender.\<close>

theorem log_defines_type:
  assumes "from_string (LexicalCast_log_defines y) s = Inr ds"
  shows "sorted_wrt LogDefine_less ds \<and>
         (\<forall>d\<in>set ds. set_find d ds = Some d \<and> ld_level d \<noteq> LEVEL_100 \<and>
            (\<forall>a\<in>set (ld_appenders d). ad_type a = 1 \<or> ad_type a = 2 \<and> ad_file a = [] \<and> ad_formatter a = []))"
proof -
  have ok: "log_defines_ok ds" by (rule log_defines_ok_read [OF assms])
  have "LogDefine_less = (\<lambda>a b. ld_name a < ld_name b)" by (simp add: fun_eq_iff LogDefine_less_def)
  then have dist: "distinct (map ld_name ds)"
    using ok strict_sorted_iff [of "map ld_name ds"] by (simp add: log_defines_ok_def sorted_wrt_map)
  have "set_find d ds = Some d" if d: "d \<in> set ds" for d
  proof -
    obtain e where e: "set_find d ds = Some e" using d set_find_None [of d ds] by fastforce
    moreover have "e = d"
      using set_find_Some [OF e] d dist by (auto simp: distinct_map dest: inj_onD)
    ultimately show ?thesis by simp
  qed
  with ok show ?thesis by (auto simp: log_defines_ok_def log_define_ok_def appender_define_ok_def)
qed

theorem log_defines_type_witness:
  "\<exists>ds. from_string (LexicalCast_log_defines doc_yaml) demo_text = Inr ds \<and> sorted_wrt LogDefine_less ds \<and>
     set_find demo_define ds = Some demo_define \<and> ld_level demo_define \<noteq> LEVEL_100"
proof -
  have "demo_define \<in> set [demo_define]" by simp
  with log_defines_type [OF demo_text_read] demo_text_read show ?thesis by blast
qed

text \<open>The key \<open>level\<close> of an appender, which the documentation describes, is never read.\<close>

lemma appender_level_not_read:
  assumes "from_string (LexicalCast_log_defines y) s = Inr ds" and "d \<in> set ds" and "a \<in> set (ld_appenders d)"
  shows "ad_level a = UNKNOW"
  using log_defines_ok_read [OF assms(1)] assms(2,3)
  by (auto simp: log_defines_ok_def log_define_ok_def appender_define_ok_def)

text \<open>C9: The configuration survives being written. For any text that can be read as a set of definitions of loggers,
  \<open>toString\<close> writes a text that is read as the same set.\<close>

theorem log_defines_roundtrip:
  assumes "yaml_laws y" and "from_string (LexicalCast_log_defines y) s = Inr ds"
  shows "\<exists>t. to_string (LexicalCast_log_defines y) ds = Inr t \<and> from_string (LexicalCast_log_defines y) t = Inr ds"
  using log_defines_cast_ok [OF assms(1) log_defines_ok_read [OF assms(2)]] by (auto simp: cast_ok_def)

theorem log_defines_roundtrip_witness:
  "\<exists>t. to_string (LexicalCast_log_defines doc_yaml) [demo_define] = Inr t \<and>
       from_string (LexicalCast_log_defines doc_yaml) t = Inr [demo_define]"
  by (rule log_defines_roundtrip [OF doc_yaml_laws demo_text_read])

text \<open>C10: What an export says. \<open>LoggerManager::toYamlString\<close> of a well-formed manager is read by the cast of the
  variable \<open>logs\<close> as one definition per logger, in the order of the names: its name, its level (a deleted
  logger's 100 is written \<open>UNKNOW\<close> and read as that), the pattern of its formatter, and type, file and own
  formatter of its file appenders; the appenders' levels and console formatters are written but not read.\<close>

theorem manager_export_reads_back:
  assumes "yaml_laws y" and "log_wf w"
  shows "\<exists>t. LoggerManager_toYamlString y w = Inr t \<and>
           from_string (LexicalCast_log_defines y) t =
             Inr (map (\<lambda>(name, a). exported_logger w (the (lw_loggers w a))) (lw_loggers_map w))"
  by (rule LoggerManager_export [OF assms])

theorem manager_export_reads_back_witness:
  "\<exists>t r s. LoggerManager_toYamlString doc_yaml demo_world_1 = Inr t \<and>
     from_string (LexicalCast_log_defines doc_yaml) t = Inr [r, s] \<and> ld_name s = ''system'' \<and>
     ld_appenders s = [\<lparr>ad_type = 1, ad_level = UNKNOW, ad_formatter = [], ad_file = ''system.txt''\<rparr>]"
proof -
  have map: "lw_loggers_map demo_world_1 = [(''root'', 0), (''system'', 1)]"
    by (simp add: demo_world_1_def demo_world_0_def)
  show ?thesis
    using manager_export_reads_back [OF doc_yaml_laws demo_world_1_wf]
    by (auto simp: map exported_logger_def exported_appender_def demo_world_1_facts LogAppenderDefine_ctor_def
          simp del: One_nat_def)
qed

text \<open>A reloaded definition does not restore the default formatter. When the definition of a logger is changed to one
  whose formatter is missing or has an error, the logger keeps the formatter of its earlier configuration, and so
  the result of loading a configuration depends on the ones loaded before it; the comment in the code
  says that the formatter then stays at the default.\<close>

theorem reload_keeps_formatter:
  assumes "log_wf w" and "apart w" and "log_define_ok d"
    and "smap_find (ld_name d) (lw_loggers_map w) = Some a" and "lw_loggers w a = Some l"
    and "valid_formatter (ld_formatter d) = None" and "\<not> LogDefine_eq d e" and "ld_name e = ld_name d"
  shows "\<exists>w' l'. on_define junk [e] d w = Inr w' \<and> lw_loggers w' a = Some l' \<and> lg_formatter l' = lg_formatter l"
proof -
  have "\<forall>ad\<in>set (ld_appenders d). ad_type ad = 1 \<or> ad_type ad = 2"
    using assms(3) by (auto simp: log_define_ok_def appender_define_ok_def)
  from apply_define_formatter [OF assms(1,2) this assms(4-6)] assms(7,8) show ?thesis
    by (simp add: on_define_def set_find_def LogDefine_less_def)
qed

text \<open>A logger \<open>system\<close> that a configuration has given the pattern \<open>%m\<close>.\<close>

definition stale_world :: log_world where
  "stale_world =
     put_logger 1 \<lparr>lg_name = ''system'', lg_level = DEBUG, lg_appenders = [1],
       lg_formatter = Some (LogFormatter_ctor ''%m''), lg_root = Some 0\<rparr> demo_world_1"

theorem reload_keeps_formatter_witness:
  "\<exists>w' l'. on_define (\<lambda>a. 0) [\<lparr>ld_name = ''system'', ld_level = DEBUG, ld_appenders = [], ld_formatter = ''%m''\<rparr>]
       \<lparr>ld_name = ''system'', ld_level = INFO, ld_appenders = [], ld_formatter = ''%d{''\<rparr> stale_world = Inr w' \<and>
     lw_loggers w' 1 = Some l' \<and> lg_formatter l' = Some (LogFormatter_ctor ''%m'')"
proof -
  have bad: "fm_error (LogFormatter_ctor ''%d{'')" by code_simp
  have map: "lw_loggers_map stale_world = [(''root'', 0), (''system'', 1)]"
    by (simp add: stale_world_def put_logger_def demo_world_1_def demo_world_0_def)
  have l: "lw_loggers stale_world 1 = Some \<lparr>lg_name = ''system'', lg_level = DEBUG, lg_appenders = [1],
       lg_formatter = Some (LogFormatter_ctor ''%m''), lg_root = Some 0\<rparr>"
    by (simp add: stale_world_def put_logger_def)
  have root: "lw_root demo_world_1 = 0"
    by (simp add: demo_world_1_def demo_world_0_def blank_world_def)
  have "log_wf stale_world"
    unfolding stale_world_def
    by (rule put_logger_wf [OF demo_world_1_wf demo_world_1_facts(3)])
       (use log_wfD_logger [OF demo_world_1_wf demo_world_1_facts(3)] root in \<open>simp_all add: logger_inv_def\<close>)
  moreover have "apart stale_world"
    by (auto simp: apart_def stale_world_def put_logger_def demo_world_1_def demo_world_0_def split: if_splits)
  ultimately show ?thesis
    using reload_keeps_formatter [of stale_world "\<lparr>ld_name = ''system'', ld_level = INFO, ld_appenders = [], ld_formatter = ''%d{''\<rparr>"
        1 _ "\<lparr>ld_name = ''system'', ld_level = DEBUG, ld_appenders = [], ld_formatter = ''%m''\<rparr>" "\<lambda>a. 0"] l map bad
    by (simp add: log_define_ok_def valid_formatter_def smap_find_def)
qed

end
