(* ===== verification/Util.thy ===== *)
theory Util
  imports Log_Invariant
begin

text \<open>
  \<open>src/util.cpp\<close>, \<open>src/macro.h\<close> and \<open>src/singleton.h\<close>: backtraces, the assertion macros that print them,
  and the function-local statics behind \<open>Singleton\<close>. The C library's \<open>backtrace\<close> and
  \<open>backtrace_symbols\<close> are parameters; \<open>malloc\<close> of the array does not fail in the model.
\<close>

section \<open>Backtraces\<close>

text \<open>
  \<open>c_backtrace size\<close> is the number of frames that \<open>backtrace\<close> stores in an array of that size, and
  \<open>c_symbols n\<close> is what \<open>backtrace_symbols\<close> makes of them: one string per frame, or null. \<open>g_logger\<close> is the
  logger of \<open>util.cpp\<close>, and \<open>bt_site\<close> the place of its log line.
\<close>

record backtrace_env =
  c_backtrace :: "int \<Rightarrow> 32 word"
  c_symbols :: "64 word \<Rightarrow> string list option"
  g_logger :: nat
  bt_site :: log_site

lemma unat_Suc_less:
  fixes i s :: "64 word"
  assumes "i < s"
  shows "unat (i + 1) = Suc (unat i)"
proof -
  have "unat i < unat s" using assms by (simp add: word_less_nat_alt)
  moreover have "unat s < 2 ^ 64" using unsigned_less [of s] by simp
  ultimately show ?thesis by (simp add: unat_word_ariths)
qed

text \<open>The loop \<open>for (size_t i = skip; i < s; ++i)\<close>.\<close>

function copy_frames :: "string list \<Rightarrow> 64 word \<Rightarrow> 64 word \<Rightarrow> string list \<Rightarrow> string list" where
  "copy_frames strings i s bt =
     (if i < s then copy_frames strings (i + 1) s (bt @ [strings ! unat i]) else bt)"
  by pat_completeness auto
termination
  by (relation "measure (\<lambda>(strings, i, s, bt). unat s - unat i)")
     (auto simp: unat_Suc_less word_less_nat_alt intro!: diff_less_mono2)

declare copy_frames.simps [simp del]

text \<open>The \<open>int\<close> that \<open>backtrace\<close> returns and the \<open>int\<close> argument \<open>skip\<close> become \<open>size_t\<close>.\<close>

definition size_of_int :: "32 word \<Rightarrow> 64 word" where
  "size_of_int n = scast n"

definition Backtrace ::
  "backtrace_env \<Rightarrow> string list \<Rightarrow> int \<Rightarrow> 32 word \<Rightarrow> log_world \<Rightarrow> (string list \<times> log_world) result" where
  "Backtrace env bt n skip w =
     (let s = size_of_int (c_backtrace env n) in
      case c_symbols env s of
        None \<Rightarrow>
          bind_r (SYLAR_LOG_LEVEL 2 (bt_site env) (g_logger env) ERROR ''backtrace_symbols error'' w) (\<lambda>w. Inr (bt, w))
      | Some strings \<Rightarrow> Inr (copy_frames strings (size_of_int skip) s bt, w))"

definition BacktraceToString ::
  "backtrace_env \<Rightarrow> int \<Rightarrow> 32 word \<Rightarrow> string \<Rightarrow> log_world \<Rightarrow> (string \<times> log_world) result" where
  "BacktraceToString env n skip prefix w =
     bind_r (Backtrace env [] n skip w) (\<lambda>(bt, w).
       Inr (concat (map (\<lambda>line. prefix @ line @ [CHR 0x0A]) bt), w))"

section \<open>Assertions\<close>

text \<open>
  A macro call whose streamed text is computed by a call that can log itself: it is evaluated only when the
  level admits the event, after the event was made and before it is logged.
\<close>

definition log_computed ::
  "log_site \<Rightarrow> nat \<Rightarrow> level \<Rightarrow> (log_world \<Rightarrow> (string \<times> log_world) result) \<Rightarrow> log_world \<Rightarrow> log_world result" where
  "log_computed st a lv content w =
     bind_r (deref_logger w a) (\<lambda>l.
       if lg_level l \<le> lv
       then bind_r (content w) (\<lambda>(s, w'). LogEventWrap_dtor 2 ((site_event st a lv w)\<lparr>ev_ss := s\<rparr>) w')
       else Inr w)"

text \<open>
  \<open>SYLAR_ASSERT(x)\<close> and \<open>SYLAR_ASSERT2(x, what)\<close>, with the text of \<open>x\<close>. The result is the world in which the
  program goes on, or the world and the reason it ended with. \<open>ndebug\<close> is a build with \<open>NDEBUG\<close>, in which the
  \<open>assert\<close> inside the macro does nothing.
\<close>

definition SYLAR_ASSERT2_text :: "string \<Rightarrow> string \<Rightarrow> string" where
  "SYLAR_ASSERT2_text x msg =
     ''ASSERTION: '' @ x @ [CHR 0x0A] @ msg @ [CHR 0x0A] @ ''backtrace:'' @ [CHR 0x0A]"

definition SYLAR_ASSERT_text :: "string \<Rightarrow> string" where
  "SYLAR_ASSERT_text x = ''ASSERTION: '' @ x @ [CHR 0x0A] @ ''backtrace:'' @ [CHR 0x0A]"

definition assert_failed ::
  "bool \<Rightarrow> backtrace_env \<Rightarrow> log_site \<Rightarrow> string \<Rightarrow> string \<Rightarrow> log_world \<Rightarrow> log_world \<times> error option" where
  "assert_failed ndebug env st x msg w =
     (case log_computed st (lw_root w) ERROR
             (\<lambda>w. bind_r (BacktraceToString env 100 2 ''    '' w) (\<lambda>(s, w). Inr (msg @ s, w))) w of
        Inl e \<Rightarrow> (w, Some e)
      | Inr w' \<Rightarrow> (w', if ndebug then None else Some (Assert_Failed x)))"

definition SYLAR_ASSERT ::
  "bool \<Rightarrow> backtrace_env \<Rightarrow> log_site \<Rightarrow> bool \<Rightarrow> string \<Rightarrow> log_world \<Rightarrow> log_world \<times> error option" where
  "SYLAR_ASSERT ndebug env st cond x w =
     (if \<not> cond then assert_failed ndebug env st x (SYLAR_ASSERT_text x) w else (w, None))"

definition SYLAR_ASSERT2 ::
  "bool \<Rightarrow> backtrace_env \<Rightarrow> log_site \<Rightarrow> bool \<Rightarrow> string \<Rightarrow> string \<Rightarrow> log_world \<Rightarrow> log_world \<times> error option" where
  "SYLAR_ASSERT2 ndebug env st cond x msg w =
     (if \<not> cond then assert_failed ndebug env st x (SYLAR_ASSERT2_text x msg) w else (w, None))"

section \<open>Singletons\<close>

text \<open>
  A function-local static: constructed by the first call that gets through the constructor, and returned by
  every later one. The static of \<open>Singleton\<close> is the object, whose address is returned; the one of
  \<open>Singletonptr\<close> is a shared pointer to an object made by \<open>std::make_shared\<close>.
\<close>

definition Singleton_GetInstance :: "('w \<Rightarrow> ('v \<times> 'w) result) \<Rightarrow> 'v option \<times> 'w \<Rightarrow> ('v \<times> 'v option \<times> 'w) result" where
  "Singleton_GetInstance ctor = (\<lambda>(v, w).
     case v of
       Some a \<Rightarrow> Inr (a, v, w)
     | None \<Rightarrow> bind_r (ctor w) (\<lambda>(a, w'). Inr (a, Some a, w')))"

definition Singletonptr_GetInstance :: "('w \<Rightarrow> ('v \<times> 'w) result) \<Rightarrow> 'v option \<times> 'w \<Rightarrow> ('v \<times> 'v option \<times> 'w) result" where
  "Singletonptr_GetInstance make_shared = (\<lambda>(v, w).
     case v of
       Some ptr \<Rightarrow> Inr (ptr, v, w)
     | None \<Rightarrow> bind_r (make_shared w) (\<lambda>(ptr, w'). Inr (ptr, Some ptr, w')))"

section \<open>What they do\<close>

lemma copy_frames_eq:
  "unat s \<le> length strings \<Longrightarrow>
   copy_frames strings i s bt = bt @ drop (unat i) (take (unat s) strings)"
proof (induction strings i s bt rule: copy_frames.induct)
  case (1 strings i s bt)
  show ?case
  proof (cases "i < s")
    case True
    have less: "unat i < unat s" using True by (simp add: word_less_nat_alt)
    note unat_Suc_less [OF True]
    moreover have "drop (unat i) (take (unat s) strings) = strings ! unat i # drop (Suc (unat i)) (take (unat s) strings)"
      using less 1(2) by (subst Cons_nth_drop_Suc [symmetric]) auto
    ultimately show ?thesis using 1 True by (subst copy_frames.simps) simp
  next
    case False
    then show ?thesis by (subst copy_frames.simps) (simp add: word_less_nat_alt)
  qed
qed

lemma uint_size_of_int: "uint (size_of_int n) = sint n mod 2 ^ 64"
proof -
  have "size_of_int n = word_of_int (sint n)" unfolding size_of_int_def by (rule scast_eq)
  then show ?thesis by (simp only: uint_word_of_int) simp
qed

lemma size_of_int_nonneg:
  assumes "0 \<le> sint n"
  shows "unat (size_of_int n) = nat (sint n)"
proof -
  have "sint n < 2 ^ 31" using sint_lt [of n] by simp
  then have "uint (size_of_int n) = sint n" using assms by (simp add: uint_size_of_int)
  then show ?thesis by (simp add: unat_eq_nat_uint)
qed

lemma size_of_int_neg:
  assumes "sint n < 0"
  shows "2 ^ 63 \<le> unat (size_of_int n)"
proof -
  have "- (2 ^ 31) \<le> sint n" using sint_ge [of n] by simp
  moreover have "sint n mod 2 ^ 64 = (sint n + 2 ^ 64) mod 2 ^ 64" by simp
  ultimately have "uint (size_of_int n) = sint n + 2 ^ 64"
    using assms by (simp add: uint_size_of_int del: mod_add_self2)
  then show ?thesis using \<open>- (2 ^ 31) \<le> sint n\<close> by (simp add: unat_eq_nat_uint)
qed

lemma copy_frames_skip:
  assumes "length strings = unat (size_of_int n)" and "0 \<le> sint n"
  shows "copy_frames strings (size_of_int skip) (size_of_int n) bt =
           bt @ (if 0 \<le> sint skip then drop (nat (sint skip)) strings else [])"
proof -
  have "unat (size_of_int n) < 2 ^ 63"
    using size_of_int_nonneg [OF assms(2)] sint_lt [of n] by (simp add: nat_less_iff)
  then show ?thesis
    using assms size_of_int_nonneg [of skip] size_of_int_neg [of skip] by (auto simp: copy_frames_eq)
qed

lemma BacktraceToString_eq:
  assumes "c_symbols env (size_of_int (c_backtrace env n)) = Some strings"
    and "length strings = unat (size_of_int (c_backtrace env n))" and "0 \<le> sint (c_backtrace env n)"
  shows "BacktraceToString env n skip prefix w =
           Inr (concat (map (\<lambda>line. prefix @ line @ [CHR 0x0A])
                  (if 0 \<le> sint skip then drop (nat (sint skip)) strings else [])), w)"
  using assms by (simp add: BacktraceToString_def Backtrace_def copy_frames_skip Let_def)

text \<open>A static is constructed once: a call after one that returned gives the same value and runs no constructor.\<close>

lemma Singleton_once:
  assumes "Singleton_GetInstance ctor (v, w) = Inr (a, v', w')"
  shows "Singleton_GetInstance ctor (v', w2) = Inr (a, v', w2)"
  using assms by (auto simp: Singleton_GetInstance_def split: option.splits)

lemma Singletonptr_once:
  assumes "Singletonptr_GetInstance make_shared (v, w) = Inr (a, v', w')"
  shows "Singletonptr_GetInstance make_shared (v', w2) = Inr (a, v', w2)"
  using assms by (auto simp: Singletonptr_GetInstance_def split: option.splits)

section \<open>Properties\<close>

text \<open>A call stack of four frames, for the witnesses.\<close>

definition demo_stack :: backtrace_env where
  "demo_stack =
     \<lparr>c_backtrace = (\<lambda>n. 4), c_symbols = (\<lambda>n. Some [''Backtrace'', ''BacktraceToString'', ''f'', ''main'']),
      g_logger = 0, bt_site = demo_site\<rparr>"

text \<open>The lines of a backtrace. The frames after the first \<open>skip\<close> ones are printed in order, each after the prefix
  and with its own line end; a \<open>skip\<close> beyond the stack gives the empty text, and so does a negative one, which
  becomes a huge \<open>size_t\<close>. No log line is written.\<close>

theorem backtrace_lines:
  assumes "c_symbols env (size_of_int (c_backtrace env n)) = Some strings"
    and "length strings = unat (size_of_int (c_backtrace env n))" and "0 \<le> sint (c_backtrace env n)"
  shows "BacktraceToString env n skip prefix w =
           Inr (concat (map (\<lambda>line. prefix @ line @ [CHR 0x0A])
                  (if 0 \<le> sint skip then drop (nat (sint skip)) strings else [])), w)"
  by (rule BacktraceToString_eq [OF assms])

theorem backtrace_lines_witness:
  "BacktraceToString demo_stack 64 2 ''> '' blank_world = Inr (''> f'' @ [CHR 0x0A] @ ''> main'' @ [CHR 0x0A], blank_world)"
proof -
  have four: "size_of_int 4 = (4 :: 64 word)" by (simp add: size_of_int_def scast_eq)
  show ?thesis
    using backtrace_lines [of demo_stack 64 "[''Backtrace'', ''BacktraceToString'', ''f'', ''main'']" 2 "''> ''" blank_world]
    by (simp add: demo_stack_def four)
qed

text \<open>C39: A failed assertion is reported before the process ends. In a well-formed store, \<open>SYLAR_ASSERT\<close> on a
  false condition first writes one line with the text of the condition and the backtrace from the third frame on to
  each console appender that the root logger's level and the appender's admit, changes nothing else but files,
  and then aborts; a true condition changes nothing.\<close>

theorem assert_reports:
  assumes "log_wf w" and "c_symbols env (size_of_int (c_backtrace env 100)) = Some strings"
    and "length strings = unat (size_of_int (c_backtrace env 100))" and "0 \<le> sint (c_backtrace env 100)"
  shows "SYLAR_ASSERT False env st True x w = (w, None) \<and>
         (\<exists>w' e. SYLAR_ASSERT False env st False x w = (w', Some (Assert_Failed x)) \<and> log_frame w w' \<and>
            ev_ss e = SYLAR_ASSERT_text x @ concat (map (\<lambda>line. ''    '' @ line @ [CHR 0x0A]) (drop 2 strings)) \<and>
            lw_cout w' = lw_cout w @ concat (map (cout_of w ERROR e) (targets w (lw_root w) ERROR)))"
proof -
  obtain l where l: "lw_loggers w (lw_root w) = Some l" using log_wfD_root [OF assms(1)] by blast
  let ?text = "SYLAR_ASSERT_text x @ concat (map (\<lambda>line. ''    '' @ line @ [CHR 0x0A]) (drop 2 strings))"
  let ?e = "(site_event st (lw_root w) ERROR w)\<lparr>ev_ss := ?text\<rparr>"
  have two: "sint (2 :: 32 word) = 2" by simp
  have content: "bind_r (BacktraceToString env 100 2 ''    '' w) (\<lambda>(s, w). Inr (SYLAR_ASSERT_text x @ s, w)) = Inr (?text, w)"
    by (simp add: BacktraceToString_eq [OF assms(2-4)] two)
  show ?thesis
  proof (cases "lg_level l \<le> ERROR")
    case True
    obtain w' where w': "Logger_log (Suc (Suc 0)) (lw_root w) ERROR ?e w = Inr w'" "log_frame w w'"
      "lw_cout w' = lw_cout w @ concat (map (cout_of w ERROR ?e) (targets w (lw_root w) ERROR))"
      by (rule Logger_log_spec [OF assms(1) l, of 0 ERROR ?e]) blast
    have "log_computed st (lw_root w) ERROR
        (\<lambda>w. bind_r (BacktraceToString env 100 2 ''    '' w) (\<lambda>(s, w). Inr (SYLAR_ASSERT_text x @ s, w))) w = Inr w'"
      using True l content w'(1)
      by (simp add: log_computed_def deref_logger_def LogEventWrap_dtor_def site_event_def LogEvent_ctor_def numeral_2_eq_2)
    then have "SYLAR_ASSERT False env st False x w = (w', Some (Assert_Failed x))"
      by (simp add: SYLAR_ASSERT_def assert_failed_def)
    then show ?thesis using w'(2,3)
      by (intro conjI exI [of _ w'] exI [of _ ?e]) (simp_all add: SYLAR_ASSERT_def)
  next
    case False
    then have "SYLAR_ASSERT False env st False x w = (w, Some (Assert_Failed x))"
      using l by (simp add: SYLAR_ASSERT_def assert_failed_def log_computed_def deref_logger_def)
    moreover have "targets w (lw_root w) ERROR = []" using False l by (simp add: targets_def)
    ultimately show ?thesis
      by (intro conjI exI [of _ w] exI [of _ ?e]) (simp_all add: SYLAR_ASSERT_def)
  qed
qed

theorem assert_reports_witness:
  "\<exists>w' (e :: log_event). SYLAR_ASSERT False demo_stack demo_site False ''m_stopping'' demo_world_0 = (w', Some (Assert_Failed ''m_stopping'')) \<and>
     ev_ss e = ''ASSERTION: m_stopping'' @ [CHR 0x0A] @ ''backtrace:'' @ [CHR 0x0A] @
                 ''    f'' @ [CHR 0x0A] @ ''    main'' @ [CHR 0x0A]"
proof -
  have four: "size_of_int 4 = (4 :: 64 word)" by (simp add: size_of_int_def scast_eq)
  show ?thesis
    using assert_reports [OF demo_world_0_wf, of demo_stack "[''Backtrace'', ''BacktraceToString'', ''f'', ''main'']"
        demo_site "''m_stopping''"]
    by (simp add: demo_stack_def four SYLAR_ASSERT_text_def) (elim conjE exE, intro conjI exI, assumption+)
qed

end
