(* ===== verification/Locks.thy ===== *)
theory Locks
  imports Sylar_Prelude
begin

text \<open>
  The locks of \<open>src/thread.h\<close>: \<open>Mutex\<close>, \<open>Spinlock\<close>, \<open>CASLock\<close>, \<open>RWMutex\<close>, the null locks,
  the three scoped-lock templates and the semaphore. A lock call that would block the caller is
  \<open>None\<close>; the caller makes no step then. The interface \<open>lockable\<close> states what a scoped lock needs
  of its mutex, \<open>rw_lockable\<close> what the read and write locks need of theirs; every lock of the file
  but the null locks is an interpretation.
\<close>

section \<open>The locks\<close>

subsection \<open>Mutex and Spinlock\<close>

text \<open>A pthread mutex of the default kind: its owner. Locking it again, by whomever, blocks.\<close>

type_synonym pthread_mutex = "nat option"

definition Mutex_ctor :: pthread_mutex where
  "Mutex_ctor = None"

definition Mutex_lock :: "nat \<Rightarrow> pthread_mutex \<Rightarrow> pthread_mutex option" where
  "Mutex_lock t m = (case m of None \<Rightarrow> Some (Some t) | Some owner \<Rightarrow> None)"

definition Mutex_unlock :: "nat \<Rightarrow> pthread_mutex \<Rightarrow> pthread_mutex" where
  "Mutex_unlock t m = None"

text \<open>A pthread spin lock: whether it is held.\<close>

definition Spinlock_ctor :: bool where
  "Spinlock_ctor = False"

definition Spinlock_lock :: "nat \<Rightarrow> bool \<Rightarrow> bool option" where
  "Spinlock_lock t m = (if m then None else Some True)"

definition Spinlock_unlock :: "nat \<Rightarrow> bool \<Rightarrow> bool" where
  "Spinlock_unlock t m = False"

subsection \<open>CASLock\<close>

text \<open>
  \<open>atomic_flag_test_and_set\<close> returns the old value and sets the flag. \<open>CASLock_lock_spin\<close> is the
  loop with a bound on its iterations; \<open>CASLock_lock\<close> is one iteration, the step that other
  threads can come between, \<open>None\<close> when the loop goes round again.
\<close>

definition test_and_set :: "bool \<Rightarrow> bool \<times> bool" where
  "test_and_set flag = (flag, True)"

definition CASLock_ctor :: bool where
  "CASLock_ctor = False"

fun CASLock_lock_spin :: "nat \<Rightarrow> bool \<Rightarrow> bool option" where
  "CASLock_lock_spin 0 m = None"
| "CASLock_lock_spin (Suc k) m =
     (case test_and_set m of (old, m') \<Rightarrow> if old then CASLock_lock_spin k m' else Some m')"

definition CASLock_lock :: "nat \<Rightarrow> bool \<Rightarrow> bool option" where
  "CASLock_lock t m = (case test_and_set m of (old, m') \<Rightarrow> if old then None else Some m')"

definition CASLock_unlock :: "nat \<Rightarrow> bool \<Rightarrow> bool" where
  "CASLock_unlock t m = False"

lemma CASLock_lock_spin_iff: "CASLock_lock_spin (Suc k) m = CASLock_lock t m"
proof (induction k arbitrary: m)
  case (Suc k)
  then show ?case
    by (cases m) (simp_all add: CASLock_lock_def test_and_set_def)
qed (simp add: CASLock_lock_def test_and_set_def)

subsection \<open>RWMutex\<close>

record rwlock =
  rw_readers :: nat
  rw_writer :: "nat option"

definition RWMutex_ctor :: rwlock where
  "RWMutex_ctor = \<lparr>rw_readers = 0, rw_writer = None\<rparr>"

text \<open>
  A thread that asks again for a lock it has locked for writing gets \<open>EDEADLK\<close> and no lock; the
  member functions drop the code and return as if they had it.
\<close>

definition RWMutex_rdlock :: "nat \<Rightarrow> rwlock \<Rightarrow> rwlock option" where
  "RWMutex_rdlock t m =
     (case rw_writer m of
        None \<Rightarrow> Some (m\<lparr>rw_readers := rw_readers m + 1\<rparr>)
      | Some w \<Rightarrow> if w = t then Some m else None)"

definition RWMutex_wrlock :: "nat \<Rightarrow> rwlock \<Rightarrow> rwlock option" where
  "RWMutex_wrlock t m =
     (case rw_writer m of
        None \<Rightarrow> if rw_readers m = 0 then Some (m\<lparr>rw_writer := Some t\<rparr>) else None
      | Some w \<Rightarrow> if w = t then Some m else None)"

definition RWMutex_unlock :: "nat \<Rightarrow> rwlock \<Rightarrow> rwlock" where
  "RWMutex_unlock t m =
     (if rw_writer m \<noteq> None then m\<lparr>rw_writer := None\<rparr> else m\<lparr>rw_readers := rw_readers m - 1\<rparr>)"

subsection \<open>The null locks\<close>

definition NullMutex_lock :: "nat \<Rightarrow> unit \<Rightarrow> unit option" where
  "NullMutex_lock t m = Some ()"

definition NullMutex_unlock :: "nat \<Rightarrow> unit \<Rightarrow> unit" where
  "NullMutex_unlock t m = ()"

definition NullRWMutex_rdlock :: "nat \<Rightarrow> unit \<Rightarrow> unit option" where
  "NullRWMutex_rdlock t m = Some ()"

definition NullRWMutex_wrlock :: "nat \<Rightarrow> unit \<Rightarrow> unit option" where
  "NullRWMutex_wrlock t m = Some ()"

definition NullRWMutex_unlock :: "nat \<Rightarrow> unit \<Rightarrow> unit" where
  "NullRWMutex_unlock t m = ()"

section \<open>Scoped locks\<close>

text \<open>
  The template parameter of \<open>ScopedLockImpl\<close> gives \<open>lock\<close> and \<open>unlock\<close>, that of the other two
  \<open>rdlock\<close>, \<open>wrlock\<close> and \<open>unlock\<close>. The state of a guard is \<open>m_locked\<close>, beside the mutex it refers to.
\<close>

record 'm mutex_ops =
  op_lock :: "nat \<Rightarrow> 'm \<Rightarrow> 'm option"
  op_unlock :: "nat \<Rightarrow> 'm \<Rightarrow> 'm"

record 'm rw_ops =
  op_rdlock :: "nat \<Rightarrow> 'm \<Rightarrow> 'm option"
  op_wrlock :: "nat \<Rightarrow> 'm \<Rightarrow> 'm option"
  op_rwunlock :: "nat \<Rightarrow> 'm \<Rightarrow> 'm"

definition ScopedLockImpl_ctor :: "'m mutex_ops \<Rightarrow> nat \<Rightarrow> 'm \<Rightarrow> ('m \<times> bool) option" where
  "ScopedLockImpl_ctor T t m = (case op_lock T t m of None \<Rightarrow> None | Some m' \<Rightarrow> Some (m', True))"

definition ScopedLockImpl_lock :: "'m mutex_ops \<Rightarrow> nat \<Rightarrow> 'm \<times> bool \<Rightarrow> ('m \<times> bool) option" where
  "ScopedLockImpl_lock T t g =
     (case g of (m, locked) \<Rightarrow>
        if \<not> locked then (case op_lock T t m of None \<Rightarrow> None | Some m' \<Rightarrow> Some (m', True))
        else Some (m, locked))"

definition ScopedLockImpl_unlock :: "'m mutex_ops \<Rightarrow> nat \<Rightarrow> 'm \<times> bool \<Rightarrow> 'm \<times> bool" where
  "ScopedLockImpl_unlock T t g =
     (case g of (m, locked) \<Rightarrow> if locked then (op_unlock T t m, False) else (m, locked))"

definition ScopedLockImpl_dtor :: "'m mutex_ops \<Rightarrow> nat \<Rightarrow> 'm \<times> bool \<Rightarrow> 'm" where
  "ScopedLockImpl_dtor T t g = fst (ScopedLockImpl_unlock T t g)"

definition ReadScopedLockImpl_ctor :: "'m rw_ops \<Rightarrow> nat \<Rightarrow> 'm \<Rightarrow> ('m \<times> bool) option" where
  "ReadScopedLockImpl_ctor T t m = (case op_rdlock T t m of None \<Rightarrow> None | Some m' \<Rightarrow> Some (m', True))"

definition ReadScopedLockImpl_lock :: "'m rw_ops \<Rightarrow> nat \<Rightarrow> 'm \<times> bool \<Rightarrow> ('m \<times> bool) option" where
  "ReadScopedLockImpl_lock T t g =
     (case g of (m, locked) \<Rightarrow>
        if \<not> locked then (case op_rdlock T t m of None \<Rightarrow> None | Some m' \<Rightarrow> Some (m', True))
        else Some (m, locked))"

definition ReadScopedLockImpl_unlock :: "'m rw_ops \<Rightarrow> nat \<Rightarrow> 'm \<times> bool \<Rightarrow> 'm \<times> bool" where
  "ReadScopedLockImpl_unlock T t g =
     (case g of (m, locked) \<Rightarrow> if locked then (op_rwunlock T t m, False) else (m, locked))"

definition ReadScopedLockImpl_dtor :: "'m rw_ops \<Rightarrow> nat \<Rightarrow> 'm \<times> bool \<Rightarrow> 'm" where
  "ReadScopedLockImpl_dtor T t g = fst (ReadScopedLockImpl_unlock T t g)"

definition WriteScopedLockImpl_ctor :: "'m rw_ops \<Rightarrow> nat \<Rightarrow> 'm \<Rightarrow> ('m \<times> bool) option" where
  "WriteScopedLockImpl_ctor T t m = (case op_wrlock T t m of None \<Rightarrow> None | Some m' \<Rightarrow> Some (m', True))"

definition WriteScopedLockImpl_lock :: "'m rw_ops \<Rightarrow> nat \<Rightarrow> 'm \<times> bool \<Rightarrow> ('m \<times> bool) option" where
  "WriteScopedLockImpl_lock T t g =
     (case g of (m, locked) \<Rightarrow>
        if \<not> locked then (case op_wrlock T t m of None \<Rightarrow> None | Some m' \<Rightarrow> Some (m', True))
        else Some (m, locked))"

definition WriteScopedLockImpl_unlock :: "'m rw_ops \<Rightarrow> nat \<Rightarrow> 'm \<times> bool \<Rightarrow> 'm \<times> bool" where
  "WriteScopedLockImpl_unlock T t g =
     (case g of (m, locked) \<Rightarrow> if locked then (op_rwunlock T t m, False) else (m, locked))"

definition WriteScopedLockImpl_dtor :: "'m rw_ops \<Rightarrow> nat \<Rightarrow> 'm \<times> bool \<Rightarrow> 'm" where
  "WriteScopedLockImpl_dtor T t g = fst (WriteScopedLockImpl_unlock T t g)"

section \<open>Many guards on one mutex\<close>

text \<open>
  A mutex and the guards on it that are alive, each with its \<open>m_locked\<close>. Guard \<open>g\<close> lives in the
  thread \<open>own g\<close>. A step is one member function of one guard that returns.
\<close>

record 'm lock_sys =
  ls_mutex :: 'm
  ls_guard :: "nat \<Rightarrow> bool option"

inductive guard_step :: "'m mutex_ops \<Rightarrow> (nat \<Rightarrow> nat) \<Rightarrow> 'm lock_sys \<Rightarrow> 'm lock_sys \<Rightarrow> bool"
  for T own where
  g_ctor: "ls_guard s g = None \<Longrightarrow> ScopedLockImpl_ctor T (own g) (ls_mutex s) = Some (m', l') \<Longrightarrow>
     guard_step T own s (s\<lparr>ls_mutex := m', ls_guard := (ls_guard s)(g \<mapsto> l')\<rparr>)"
| g_lock: "ls_guard s g = Some l \<Longrightarrow> ScopedLockImpl_lock T (own g) (ls_mutex s, l) = Some (m', l') \<Longrightarrow>
     guard_step T own s (s\<lparr>ls_mutex := m', ls_guard := (ls_guard s)(g \<mapsto> l')\<rparr>)"
| g_unlock: "ls_guard s g = Some l \<Longrightarrow> ScopedLockImpl_unlock T (own g) (ls_mutex s, l) = (m', l') \<Longrightarrow>
     guard_step T own s (s\<lparr>ls_mutex := m', ls_guard := (ls_guard s)(g \<mapsto> l')\<rparr>)"
| g_dtor: "ls_guard s g = Some l \<Longrightarrow> ScopedLockImpl_dtor T (own g) (ls_mutex s, l) = m' \<Longrightarrow>
     guard_step T own s (s\<lparr>ls_mutex := m', ls_guard := (ls_guard s)(g := None)\<rparr>)"

inductive guard_reach :: "'m mutex_ops \<Rightarrow> (nat \<Rightarrow> nat) \<Rightarrow> 'm \<Rightarrow> 'm lock_sys \<Rightarrow> bool" for T own m0 where
  gr_init: "guard_reach T own m0 \<lparr>ls_mutex = m0, ls_guard = Map.empty\<rparr>"
| gr_step: "guard_reach T own m0 s \<Longrightarrow> guard_step T own s s' \<Longrightarrow> guard_reach T own m0 s'"

text \<open>Readers and writers: a guard is a read or a write guard.\<close>

record 'm rw_sys =
  rs_mutex :: 'm
  rs_read :: "nat \<Rightarrow> bool option"
  rs_write :: "nat \<Rightarrow> bool option"

inductive rw_step :: "'m rw_ops \<Rightarrow> (nat \<Rightarrow> nat) \<Rightarrow> 'm rw_sys \<Rightarrow> 'm rw_sys \<Rightarrow> bool" for T own where
  r_ctor: "rs_read s g = None \<Longrightarrow> ReadScopedLockImpl_ctor T (own g) (rs_mutex s) = Some (m', l') \<Longrightarrow>
     rw_step T own s (s\<lparr>rs_mutex := m', rs_read := (rs_read s)(g \<mapsto> l')\<rparr>)"
| r_lock: "rs_read s g = Some l \<Longrightarrow> ReadScopedLockImpl_lock T (own g) (rs_mutex s, l) = Some (m', l') \<Longrightarrow>
     rw_step T own s (s\<lparr>rs_mutex := m', rs_read := (rs_read s)(g \<mapsto> l')\<rparr>)"
| r_unlock: "rs_read s g = Some l \<Longrightarrow> ReadScopedLockImpl_unlock T (own g) (rs_mutex s, l) = (m', l') \<Longrightarrow>
     rw_step T own s (s\<lparr>rs_mutex := m', rs_read := (rs_read s)(g \<mapsto> l')\<rparr>)"
| r_dtor: "rs_read s g = Some l \<Longrightarrow> ReadScopedLockImpl_dtor T (own g) (rs_mutex s, l) = m' \<Longrightarrow>
     rw_step T own s (s\<lparr>rs_mutex := m', rs_read := (rs_read s)(g := None)\<rparr>)"
| w_ctor: "rs_write s g = None \<Longrightarrow> WriteScopedLockImpl_ctor T (own g) (rs_mutex s) = Some (m', l') \<Longrightarrow>
     rw_step T own s (s\<lparr>rs_mutex := m', rs_write := (rs_write s)(g \<mapsto> l')\<rparr>)"
| w_lock: "rs_write s g = Some l \<Longrightarrow> WriteScopedLockImpl_lock T (own g) (rs_mutex s, l) = Some (m', l') \<Longrightarrow>
     rw_step T own s (s\<lparr>rs_mutex := m', rs_write := (rs_write s)(g \<mapsto> l')\<rparr>)"
| w_unlock: "rs_write s g = Some l \<Longrightarrow> WriteScopedLockImpl_unlock T (own g) (rs_mutex s, l) = (m', l') \<Longrightarrow>
     rw_step T own s (s\<lparr>rs_mutex := m', rs_write := (rs_write s)(g \<mapsto> l')\<rparr>)"
| w_dtor: "rs_write s g = Some l \<Longrightarrow> WriteScopedLockImpl_dtor T (own g) (rs_mutex s, l) = m' \<Longrightarrow>
     rw_step T own s (s\<lparr>rs_mutex := m', rs_write := (rs_write s)(g := None)\<rparr>)"

text \<open>The runs in which every state satisfies \<open>ok\<close>.\<close>

inductive rw_reach ::
  "('m rw_sys \<Rightarrow> bool) \<Rightarrow> 'm rw_ops \<Rightarrow> (nat \<Rightarrow> nat) \<Rightarrow> 'm \<Rightarrow> 'm rw_sys \<Rightarrow> bool" for ok T own m0 where
  rr_init: "rw_reach ok T own m0 \<lparr>rs_mutex = m0, rs_read = Map.empty, rs_write = Map.empty\<rparr>"
| rr_step: "rw_reach ok T own m0 s \<Longrightarrow> rw_step T own s s' \<Longrightarrow> ok s' \<Longrightarrow> rw_reach ok T own m0 s'"

section \<open>Semaphore\<close>

text \<open>\<open>SEM_VALUE_MAX\<close> of glibc. \<open>sem_wait\<close> fails when a signal handler interrupts it.\<close>

definition SEM_VALUE_MAX :: nat where
  "SEM_VALUE_MAX = 2147483647"

definition Semaphore_ctor :: "32 word \<Rightarrow> nat result" where
  "Semaphore_ctor count =
     (if SEM_VALUE_MAX < unat count then Inl (Logic_Error ''sem_init error'') else Inr (unat count))"

definition Semaphore_wait :: "bool \<Rightarrow> nat \<Rightarrow> nat result option" where
  "Semaphore_wait interrupted n =
     (if interrupted then Some (Inl (Logic_Error ''sem_wait error''))
      else if n = 0 then None
      else Some (Inr (n - 1)))"

definition Semaphore_notify :: "nat \<Rightarrow> nat result" where
  "Semaphore_notify n =
     (if n = SEM_VALUE_MAX then Inl (Logic_Error ''sem_post error'') else Inr (n + 1))"

section \<open>What a scoped lock needs of its mutex\<close>

lemmas scoped_lock_defs = ScopedLockImpl_ctor_def ScopedLockImpl_lock_def ScopedLockImpl_unlock_def
  ScopedLockImpl_dtor_def

lemmas rw_scoped_lock_defs = ReadScopedLockImpl_ctor_def ReadScopedLockImpl_lock_def
  ReadScopedLockImpl_unlock_def ReadScopedLockImpl_dtor_def WriteScopedLockImpl_ctor_def
  WriteScopedLockImpl_lock_def WriteScopedLockImpl_unlock_def WriteScopedLockImpl_dtor_def

text \<open>
  Every member function of a guard takes the lock, releases it, or leaves mutex and guard as they are.
\<close>

definition guard_effect :: "('m \<Rightarrow> 'm option) \<Rightarrow> ('m \<Rightarrow> 'm) \<Rightarrow> 'm \<Rightarrow> bool option \<Rightarrow> 'm \<Rightarrow> bool option \<Rightarrow> bool" where
  "guard_effect lk unlk m l m' l' \<longleftrightarrow>
     (l \<noteq> Some True \<and> lk m = Some m' \<and> l' = Some True) \<or>
     (l = Some True \<and> m' = unlk m \<and> l' \<noteq> Some True) \<or>
     (m' = m \<and> (l = Some True \<longleftrightarrow> l' = Some True))"

lemma guard_step_effect:
  assumes "guard_step T own s s'"
  shows "\<exists>g m' l'. s' = s\<lparr>ls_mutex := m', ls_guard := (ls_guard s)(g := l')\<rparr> \<and>
           guard_effect (op_lock T (own g)) (op_unlock T (own g)) (ls_mutex s) (ls_guard s g) m' l'"
  using assms
proof (cases rule: guard_step.cases)
  case (g_ctor g m' l')
  then show ?thesis
    by (intro exI [of _ g] exI [of _ m'] exI [of _ "Some l'"])
      (simp add: guard_effect_def scoped_lock_defs split: option.splits)
next
  case (g_lock g l m' l')
  then show ?thesis
    by (intro exI [of _ g] exI [of _ m'] exI [of _ "Some l'"])
      (auto simp: guard_effect_def scoped_lock_defs split: option.splits if_splits)
next
  case (g_unlock g l m' l')
  then show ?thesis
    by (intro exI [of _ g] exI [of _ m'] exI [of _ "Some l'"])
      (auto simp: guard_effect_def scoped_lock_defs split: if_splits)
next
  case (g_dtor g l m')
  then show ?thesis
    by (intro exI [of _ g] exI [of _ m'] exI [of _ None])
      (auto simp: guard_effect_def scoped_lock_defs split: if_splits)
qed

lemma rw_step_effect:
  assumes "rw_step T own s s'"
  shows "(\<exists>g m' l'. s' = s\<lparr>rs_mutex := m', rs_read := (rs_read s)(g := l')\<rparr> \<and>
            guard_effect (op_rdlock T (own g)) (op_rwunlock T (own g)) (rs_mutex s) (rs_read s g) m' l') \<or>
         (\<exists>g m' l'. s' = s\<lparr>rs_mutex := m', rs_write := (rs_write s)(g := l')\<rparr> \<and>
            guard_effect (op_wrlock T (own g)) (op_rwunlock T (own g)) (rs_mutex s) (rs_write s g) m' l')"
  using assms
proof (cases rule: rw_step.cases)
  case (r_ctor g m' l')
  then show ?thesis
    by (intro disjI1 exI [of _ g] exI [of _ m'] exI [of _ "Some l'"])
      (simp add: guard_effect_def rw_scoped_lock_defs split: option.splits)
next
  case (r_lock g l m' l')
  then show ?thesis
    by (intro disjI1 exI [of _ g] exI [of _ m'] exI [of _ "Some l'"])
      (auto simp: guard_effect_def rw_scoped_lock_defs split: option.splits if_splits)
next
  case (r_unlock g l m' l')
  then show ?thesis
    by (intro disjI1 exI [of _ g] exI [of _ m'] exI [of _ "Some l'"])
      (auto simp: guard_effect_def rw_scoped_lock_defs split: if_splits)
next
  case (r_dtor g l m')
  then show ?thesis
    by (intro disjI1 exI [of _ g] exI [of _ m'] exI [of _ None])
      (auto simp: guard_effect_def rw_scoped_lock_defs split: if_splits)
next
  case (w_ctor g m' l')
  then show ?thesis
    by (intro disjI2 exI [of _ g] exI [of _ m'] exI [of _ "Some l'"])
      (simp add: guard_effect_def rw_scoped_lock_defs split: option.splits)
next
  case (w_lock g l m' l')
  then show ?thesis
    by (intro disjI2 exI [of _ g] exI [of _ m'] exI [of _ "Some l'"])
      (auto simp: guard_effect_def rw_scoped_lock_defs split: option.splits if_splits)
next
  case (w_unlock g l m' l')
  then show ?thesis
    by (intro disjI2 exI [of _ g] exI [of _ m'] exI [of _ "Some l'"])
      (auto simp: guard_effect_def rw_scoped_lock_defs split: if_splits)
next
  case (w_dtor g l m')
  then show ?thesis
    by (intro disjI2 exI [of _ g] exI [of _ m'] exI [of _ None])
      (auto simp: guard_effect_def rw_scoped_lock_defs split: if_splits)
qed

text \<open>The guards that hold the lock.\<close>

definition holding :: "(nat \<Rightarrow> bool option) \<Rightarrow> nat set" where
  "holding gs = {g. gs g = Some True}"

lemma holding_empty [simp]: "holding Map.empty = {}"
  by (simp add: holding_def)

lemma holding_iff [simp]: "g \<in> holding gs \<longleftrightarrow> gs g = Some True"
  by (simp add: holding_def)

lemma holding_upd:
  "holding (gs(g := l)) = (if l = Some True then insert g (holding gs) else holding gs - {g})"
  by (auto simp: holding_def)

lemma holding_upd_same: "gs g = Some True \<longleftrightarrow> l = Some True \<Longrightarrow> holding (gs(g := l)) = holding gs"
  by (auto simp: holding_def)

text \<open>
  Locking succeeds exactly on a free mutex and leaves it not free; unlocking what was locked frees it.
\<close>

locale lockable =
  fixes lock :: "nat \<Rightarrow> 'm \<Rightarrow> 'm option"
    and unlock :: "nat \<Rightarrow> 'm \<Rightarrow> 'm"
    and free :: "'m \<Rightarrow> bool"
  assumes lock_iff: "lock t m \<noteq> None \<longleftrightarrow> free m"
    and lock_taken: "lock t m = Some m' \<Longrightarrow> \<not> free m'"
    and unlock_frees: "lock t m = Some m' \<Longrightarrow> free (unlock t m')"

text \<open>The mutex is free and no guard holds it, or exactly one guard holds it and locked it.\<close>

definition lock_inv ::
  "(nat \<Rightarrow> 'm \<Rightarrow> 'm option) \<Rightarrow> ('m \<Rightarrow> bool) \<Rightarrow> (nat \<Rightarrow> nat) \<Rightarrow> 'm lock_sys \<Rightarrow> bool" where
  "lock_inv lock free own s \<longleftrightarrow>
     (if free (ls_mutex s) then holding (ls_guard s) = {}
      else \<exists>g m0. lock (own g) m0 = Some (ls_mutex s) \<and> holding (ls_guard s) = {g})"

context lockable
begin

lemma lock_SomeD: "lock t m = Some m' \<Longrightarrow> free m"
  using lock_iff [of t m] by simp

lemma lock_inv_effect:
  assumes inv: "lock_inv lock free own s"
    and eff: "guard_effect (lock (own g)) (unlock (own g)) (ls_mutex s) (ls_guard s g) m' l'"
  shows "lock_inv lock free own (s\<lparr>ls_mutex := m', ls_guard := (ls_guard s)(g := l')\<rparr>)"
  using eff unfolding guard_effect_def
proof (elim disjE conjE)
  assume lk: "lock (own g) (ls_mutex s) = Some m'" "l' = Some True"
  then show ?thesis
    using inv lock_SomeD [OF lk(1)] lock_taken [OF lk(1)] by (auto simp: lock_inv_def holding_upd)
next
  assume rel: "ls_guard s g = Some True" "m' = unlock (own g) (ls_mutex s)" "l' \<noteq> Some True"
  then obtain h m0 where "lock (own h) m0 = Some (ls_mutex s)" "holding (ls_guard s) = {h}"
    using inv holding_iff [of g "ls_guard s"] by (auto simp: lock_inv_def simp del: holding_iff split: if_splits)
  moreover from this rel(1) have "h = g" using holding_iff [of g "ls_guard s"] by (metis singletonD)
  ultimately show ?thesis
    using rel unlock_frees [of "own g" m0 "ls_mutex s"] by (simp add: lock_inv_def holding_upd)
next
  assume "m' = ls_mutex s" "(ls_guard s g = Some True) = (l' = Some True)"
  then show ?thesis using inv by (auto simp: lock_inv_def holding_upd_same)
qed

lemma guard_reach_inv:
  assumes "guard_reach \<lparr>op_lock = lock, op_unlock = unlock\<rparr> own m0 s" and "free m0"
  shows "lock_inv lock free own s"
  using assms
proof (induction rule: guard_reach.induct)
  case gr_init
  then show ?case by (simp add: lock_inv_def)
next
  case (gr_step s s')
  from guard_step_effect [OF gr_step.hyps(2)] gr_step.IH [OF gr_step.prems] show ?case
    by (auto intro: lock_inv_effect)
qed

lemma guard_blocks_iff:
  assumes "guard_reach \<lparr>op_lock = lock, op_unlock = unlock\<rparr> own m0 s" and "free m0"
  shows "ScopedLockImpl_ctor \<lparr>op_lock = lock, op_unlock = unlock\<rparr> t (ls_mutex s) = None \<longleftrightarrow>
         (\<exists>g. ls_guard s g = Some True)"
proof -
  have "ScopedLockImpl_ctor \<lparr>op_lock = lock, op_unlock = unlock\<rparr> t (ls_mutex s) = None \<longleftrightarrow> \<not> free (ls_mutex s)"
    using lock_iff [of t "ls_mutex s"] by (auto simp: scoped_lock_defs split: option.splits)
  also have "\<dots> \<longleftrightarrow> holding (ls_guard s) \<noteq> {}"
    using guard_reach_inv [OF assms] by (auto simp: lock_inv_def split: if_splits)
  finally show ?thesis by (auto simp: holding_def)
qed

lemma guard_exclusive:
  assumes "guard_reach \<lparr>op_lock = lock, op_unlock = unlock\<rparr> own m0 s" and "free m0"
    and "ls_guard s g = Some True" and "ls_guard s h = Some True"
  shows "g = h"
proof -
  have "g \<in> holding (ls_guard s)" "h \<in> holding (ls_guard s)" using assms(3,4) by simp_all
  with guard_reach_inv [OF assms(1,2)] show ?thesis
    by (auto simp: lock_inv_def simp del: holding_iff split: if_splits)
qed

end

text \<open>
  Readers share, a writer excludes readers and writers of other threads. The laws say nothing of a
  thread that holds the lock for writing and asks for it again.
\<close>

locale rw_lockable =
  fixes rdlock :: "nat \<Rightarrow> 'm \<Rightarrow> 'm option"
    and wrlock :: "nat \<Rightarrow> 'm \<Rightarrow> 'm option"
    and unlock :: "nat \<Rightarrow> 'm \<Rightarrow> 'm"
    and readers :: "'m \<Rightarrow> nat"
    and writer :: "'m \<Rightarrow> nat option"
  assumes rd_iff: "writer m \<noteq> Some t \<Longrightarrow> rdlock t m \<noteq> None \<longleftrightarrow> writer m = None"
    and rd_effect: "writer m \<noteq> Some t \<Longrightarrow> rdlock t m = Some m' \<Longrightarrow>
           readers m' = Suc (readers m) \<and> writer m' = None"
    and wr_iff: "writer m \<noteq> Some t \<Longrightarrow> wrlock t m \<noteq> None \<longleftrightarrow> writer m = None \<and> readers m = 0"
    and wr_effect: "writer m \<noteq> Some t \<Longrightarrow> wrlock t m = Some m' \<Longrightarrow> readers m' = 0 \<and> writer m' = Some t"
    and unlock_write: "writer m = Some t \<Longrightarrow> readers (unlock t m) = readers m \<and> writer (unlock t m) = None"
    and unlock_read: "writer m = None \<Longrightarrow> 0 < readers m \<Longrightarrow>
           readers (unlock t m) = readers m - 1 \<and> writer (unlock t m) = None"

text \<open>No thread has a guard that holds the lock for writing and another one that holds it.\<close>

definition not_nested :: "(nat \<Rightarrow> nat) \<Rightarrow> 'm rw_sys \<Rightarrow> bool" where
  "not_nested own s \<longleftrightarrow>
     (\<forall>g\<in>holding (rs_write s).
        (\<forall>h\<in>holding (rs_write s). own h = own g \<longrightarrow> h = g) \<and> (\<forall>h\<in>holding (rs_read s). own h \<noteq> own g))"

text \<open>The lock counts the read guards that hold it, and a writer is alone.\<close>

definition rw_inv :: "('m \<Rightarrow> nat) \<Rightarrow> ('m \<Rightarrow> nat option) \<Rightarrow> (nat \<Rightarrow> nat) \<Rightarrow> 'm rw_sys \<Rightarrow> bool" where
  "rw_inv readers writer own s \<longleftrightarrow>
     finite (holding (rs_read s)) \<and> readers (rs_mutex s) = card (holding (rs_read s)) \<and>
     (case writer (rs_mutex s) of
        None \<Rightarrow> holding (rs_write s) = {}
      | Some t \<Rightarrow> holding (rs_read s) = {} \<and> (\<exists>g. holding (rs_write s) = {g} \<and> own g = t))"

context rw_lockable
begin

lemma rw_inv_reader: "rw_inv readers writer own s \<Longrightarrow> rs_read s g = Some True \<Longrightarrow>
    writer (rs_mutex s) = None \<and> 0 < readers (rs_mutex s)"
  using holding_iff [of g "rs_read s"]
  by (auto simp: rw_inv_def card_gt_0_iff simp del: holding_iff split: option.splits)

lemma rw_inv_writer: "rw_inv readers writer own s \<Longrightarrow> rs_write s g = Some True \<Longrightarrow>
    writer (rs_mutex s) = Some (own g) \<and> holding (rs_write s) = {g} \<and> holding (rs_read s) = {}"
  using holding_iff [of g "rs_write s"]
  by (auto simp: rw_inv_def simp del: holding_iff split: option.splits)

lemma rw_inv_no_write: "rw_inv readers writer own s \<Longrightarrow> holding (rs_write s) = {} \<Longrightarrow> writer (rs_mutex s) = None"
  by (auto simp: rw_inv_def split: option.splits)

lemma read_not_own_write:
  assumes "rw_inv readers writer own s" and "l' = Some True"
    and "not_nested own (s\<lparr>rs_mutex := m', rs_read := (rs_read s)(g := l')\<rparr>)"
  shows "writer (rs_mutex s) \<noteq> Some (own g)"
proof
  assume "writer (rs_mutex s) = Some (own g)"
  then obtain h where h: "holding (rs_write s) = {h}" "own h = own g"
    using assms(1) by (auto simp: rw_inv_def)
  have "g \<in> holding ((rs_read s)(g := l'))" using assms(2) by simp
  then show False using assms(3) h by (auto simp: not_nested_def simp del: holding_iff)
qed

lemma write_not_own_write:
  assumes "rw_inv readers writer own s" and "l' = Some True" and "rs_write s g \<noteq> Some True"
    and "not_nested own (s\<lparr>rs_mutex := m', rs_write := (rs_write s)(g := l')\<rparr>)"
  shows "writer (rs_mutex s) \<noteq> Some (own g)"
proof
  assume "writer (rs_mutex s) = Some (own g)"
  then obtain h where h: "holding (rs_write s) = {h}" "own h = own g"
    using assms(1) by (auto simp: rw_inv_def)
  have "g \<in> holding ((rs_write s)(g := l'))" "h \<in> holding ((rs_write s)(g := l'))"
    unfolding holding_upd using assms(2) h(1) by simp_all
  then have "h = g" using assms(4) h(2) by (simp add: not_nested_def del: holding_iff)
  with h(1) assms(3) show False using holding_iff [of g "rs_write s"] by simp
qed

lemma rw_inv_read_effect:
  assumes inv: "rw_inv readers writer own s"
    and eff: "guard_effect (rdlock (own g)) (unlock (own g)) (rs_mutex s) (rs_read s g) m' l'"
    and nn: "not_nested own (s\<lparr>rs_mutex := m', rs_read := (rs_read s)(g := l')\<rparr>)"
  shows "rw_inv readers writer own (s\<lparr>rs_mutex := m', rs_read := (rs_read s)(g := l')\<rparr>)"
  using eff unfolding guard_effect_def
proof (elim disjE conjE)
  assume lk: "rs_read s g \<noteq> Some True" "rdlock (own g) (rs_mutex s) = Some m'" "l' = Some True"
  have nw: "writer (rs_mutex s) \<noteq> Some (own g)" using read_not_own_write [OF inv lk(3) nn] .
  then have "writer (rs_mutex s) = None" using rd_iff lk(2) by fastforce
  then show ?thesis using inv lk rd_effect [OF nw lk(2)] by (simp add: rw_inv_def holding_upd)
next
  assume rel: "rs_read s g = Some True" "m' = unlock (own g) (rs_mutex s)" "l' \<noteq> Some True"
  then show ?thesis
    using inv rw_inv_reader [OF inv rel(1)] unlock_read [of "rs_mutex s" "own g"]
    by (simp add: rw_inv_def holding_upd)
next
  assume "m' = rs_mutex s" "(rs_read s g = Some True) = (l' = Some True)"
  then show ?thesis using inv by (simp add: rw_inv_def holding_upd_same cong: option.case_cong)
qed

lemma rw_inv_write_effect:
  assumes inv: "rw_inv readers writer own s"
    and eff: "guard_effect (wrlock (own g)) (unlock (own g)) (rs_mutex s) (rs_write s g) m' l'"
    and nn: "not_nested own (s\<lparr>rs_mutex := m', rs_write := (rs_write s)(g := l')\<rparr>)"
  shows "rw_inv readers writer own (s\<lparr>rs_mutex := m', rs_write := (rs_write s)(g := l')\<rparr>)"
  using eff unfolding guard_effect_def
proof (elim disjE conjE)
  assume lk: "rs_write s g \<noteq> Some True" "wrlock (own g) (rs_mutex s) = Some m'" "l' = Some True"
  have nw: "writer (rs_mutex s) \<noteq> Some (own g)" using write_not_own_write [OF inv lk(3,1) nn] .
  then have "writer (rs_mutex s) = None \<and> readers (rs_mutex s) = 0" using wr_iff lk(2) by fastforce
  then show ?thesis using inv lk wr_effect [OF nw lk(2)] by (auto simp: rw_inv_def holding_upd)
next
  assume rel: "rs_write s g = Some True" "m' = unlock (own g) (rs_mutex s)" "l' \<noteq> Some True"
  then show ?thesis
    using inv rw_inv_writer [OF inv rel(1)] unlock_write [of "rs_mutex s" "own g"]
    by (simp add: rw_inv_def holding_upd)
next
  assume "m' = rs_mutex s" "(rs_write s g = Some True) = (l' = Some True)"
  then show ?thesis using inv by (simp add: rw_inv_def holding_upd_same cong: option.case_cong)
qed

lemma rw_reach_inv:
  assumes "rw_reach (not_nested own) \<lparr>op_rdlock = rdlock, op_wrlock = wrlock, op_rwunlock = unlock\<rparr> own m0 s"
    and "writer m0 = None" and "readers m0 = 0"
  shows "rw_inv readers writer own s"
  using assms
proof (induction rule: rw_reach.induct)
  case rr_init
  then show ?case by (simp add: rw_inv_def)
next
  case (rr_step s s')
  from rw_step_effect [OF rr_step.hyps(2)] rr_step.IH [OF rr_step.prems] rr_step.hyps(3) show ?case
    by (auto intro: rw_inv_read_effect rw_inv_write_effect)
qed

end

section \<open>The locks provide it\<close>

definition Mutex_ops :: "pthread_mutex mutex_ops" where
  "Mutex_ops = \<lparr>op_lock = Mutex_lock, op_unlock = Mutex_unlock\<rparr>"

definition Spinlock_ops :: "bool mutex_ops" where
  "Spinlock_ops = \<lparr>op_lock = Spinlock_lock, op_unlock = Spinlock_unlock\<rparr>"

definition CASLock_ops :: "bool mutex_ops" where
  "CASLock_ops = \<lparr>op_lock = CASLock_lock, op_unlock = CASLock_unlock\<rparr>"

definition RWMutex_ops :: "rwlock rw_ops" where
  "RWMutex_ops = \<lparr>op_rdlock = RWMutex_rdlock, op_wrlock = RWMutex_wrlock, op_rwunlock = RWMutex_unlock\<rparr>"

interpretation mutex: lockable Mutex_lock Mutex_unlock "\<lambda>m. m = None"
  by unfold_locales (auto simp: Mutex_lock_def Mutex_unlock_def split: option.splits)

interpretation spin: lockable Spinlock_lock Spinlock_unlock "\<lambda>m. \<not> m"
  by unfold_locales (auto simp: Spinlock_lock_def Spinlock_unlock_def split: if_splits)

interpretation cas: lockable CASLock_lock CASLock_unlock "\<lambda>m. \<not> m"
  by unfold_locales (auto simp: CASLock_lock_def CASLock_unlock_def test_and_set_def split: if_splits)

interpretation rw: rw_lockable RWMutex_rdlock RWMutex_wrlock RWMutex_unlock rw_readers rw_writer
  by unfold_locales (auto simp: RWMutex_rdlock_def RWMutex_wrlock_def RWMutex_unlock_def
      split: if_splits option.splits)

section \<open>Mutual exclusion\<close>

definition excludes :: "'m mutex_ops \<Rightarrow> 'm lock_sys \<Rightarrow> bool" where
  "excludes T s \<longleftrightarrow>
     (\<forall>g h. ls_guard s g = Some True \<longrightarrow> ls_guard s h = Some True \<longrightarrow> g = h) \<and>
     (\<forall>t. ScopedLockImpl_ctor T t (ls_mutex s) = None \<longleftrightarrow> (\<exists>g. ls_guard s g = Some True))"

text \<open>C13: Whatever guards threads create on a \<open>Mutex\<close>, a \<open>Spinlock\<close> or a \<open>CASLock\<close>, lock and
  unlock again by hand and destroy, in any order, at most one of them holds the lock at a time, and
  the constructor of another guard blocks exactly while one does: no guard leaves the lock taken.\<close>

theorem scoped_locks_exclude:
  "(guard_reach Mutex_ops own Mutex_ctor s \<longrightarrow> excludes Mutex_ops s) \<and>
   (guard_reach Spinlock_ops own Spinlock_ctor s' \<longrightarrow> excludes Spinlock_ops s') \<and>
   (guard_reach CASLock_ops own CASLock_ctor s' \<longrightarrow> excludes CASLock_ops s')"
proof (intro conjI impI)
  assume "guard_reach Mutex_ops own Mutex_ctor s"
  then show "excludes Mutex_ops s"
    using mutex.guard_exclusive [of own Mutex_ctor s] mutex.guard_blocks_iff [of own Mutex_ctor s]
    unfolding excludes_def Mutex_ops_def Mutex_ctor_def by blast
next
  assume "guard_reach Spinlock_ops own Spinlock_ctor s'"
  then show "excludes Spinlock_ops s'"
    using spin.guard_exclusive [of own Spinlock_ctor s'] spin.guard_blocks_iff [of own Spinlock_ctor s']
    unfolding excludes_def Spinlock_ops_def Spinlock_ctor_def by blast
next
  assume "guard_reach CASLock_ops own CASLock_ctor s'"
  then show "excludes CASLock_ops s'"
    using cas.guard_exclusive [of own CASLock_ctor s'] cas.guard_blocks_iff [of own CASLock_ctor s']
    unfolding excludes_def CASLock_ops_def CASLock_ctor_def by blast
qed

text \<open>A guard on a fresh lock, in each of the three.\<close>

lemma first_guard_reach:
  "ScopedLockImpl_ctor T (own 0) m0 = Some (m', l') \<Longrightarrow>
   guard_reach T own m0 \<lparr>ls_mutex = m', ls_guard = [0 \<mapsto> l']\<rparr>"
  using gr_step [OF gr_init g_ctor [of "\<lparr>ls_mutex = m0, ls_guard = Map.empty\<rparr>" 0 T own m' l']] by simp

theorem scoped_locks_exclude_witness:
  "excludes Mutex_ops \<lparr>ls_mutex = Some 7, ls_guard = [0 \<mapsto> True]\<rparr> \<and>
   excludes Spinlock_ops \<lparr>ls_mutex = True, ls_guard = [0 \<mapsto> True]\<rparr> \<and>
   excludes CASLock_ops \<lparr>ls_mutex = True, ls_guard = [0 \<mapsto> True]\<rparr>"
proof -
  have "guard_reach Mutex_ops (\<lambda>g. g + 7) Mutex_ctor \<lparr>ls_mutex = Some 7, ls_guard = [0 \<mapsto> True]\<rparr>"
    by (rule first_guard_reach) (simp add: scoped_lock_defs Mutex_ops_def Mutex_lock_def Mutex_ctor_def)
  moreover have "guard_reach Spinlock_ops (\<lambda>g. g + 7) Spinlock_ctor \<lparr>ls_mutex = True, ls_guard = [0 \<mapsto> True]\<rparr>"
    by (rule first_guard_reach) (simp add: scoped_lock_defs Spinlock_ops_def Spinlock_lock_def Spinlock_ctor_def)
  moreover have "guard_reach CASLock_ops (\<lambda>g. g + 7) CASLock_ctor \<lparr>ls_mutex = True, ls_guard = [0 \<mapsto> True]\<rparr>"
    by (rule first_guard_reach)
      (simp add: scoped_lock_defs CASLock_ops_def CASLock_lock_def CASLock_ctor_def test_and_set_def)
  ultimately show ?thesis using scoped_locks_exclude by blast
qed

text \<open>C14: Guards on an \<open>RWMutex\<close>: as long as no thread nests a guard in one that holds the lock for
  writing, a write guard that holds the lock is the only guard that does, a read guard blocks exactly
  while a write guard of another thread holds the lock, and a write guard while any other guard does.\<close>

theorem rw_guards_exclude:
  assumes reach: "rw_reach (not_nested own) RWMutex_ops own RWMutex_ctor s"
    and idle: "\<forall>g. rs_write s g = Some True \<longrightarrow> own g \<noteq> t"
  shows "(\<forall>g h. rs_write s g = Some True \<longrightarrow>
            (rs_write s h = Some True \<longrightarrow> h = g) \<and> rs_read s h \<noteq> Some True) \<and>
         (ReadScopedLockImpl_ctor RWMutex_ops t (rs_mutex s) = None \<longleftrightarrow> (\<exists>g. rs_write s g = Some True)) \<and>
         (WriteScopedLockImpl_ctor RWMutex_ops t (rs_mutex s) = None \<longleftrightarrow>
            (\<exists>g. rs_write s g = Some True) \<or> (\<exists>g. rs_read s g = Some True))"
proof -
  note inv = rw.rw_reach_inv [OF reach [unfolded RWMutex_ops_def]]
  have inv: "rw_inv rw_readers rw_writer own s" by (rule inv) (simp_all add: RWMutex_ctor_def)
  have w: "rw_writer (rs_mutex s) \<noteq> None \<longleftrightarrow> holding (rs_write s) \<noteq> {}"
    and r: "0 < rw_readers (rs_mutex s) \<longleftrightarrow> holding (rs_read s) \<noteq> {}"
    using inv by (auto simp: rw_inv_def card_gt_0_iff split: option.splits)
  have nt: "rw_writer (rs_mutex s) \<noteq> Some t"
  proof
    assume "rw_writer (rs_mutex s) = Some t"
    then obtain g where "g \<in> holding (rs_write s)" "own g = t" using inv by (auto simp: rw_inv_def simp del: holding_iff)
    with idle show False by simp
  qed
  have ne: "holding gs \<noteq> {} \<longleftrightarrow> (\<exists>g. gs g = Some True)" for gs by (auto simp: holding_def)
  have "ReadScopedLockImpl_ctor RWMutex_ops t (rs_mutex s) = None \<longleftrightarrow> rw_writer (rs_mutex s) \<noteq> None"
    using nt by (auto simp: rw_scoped_lock_defs RWMutex_ops_def RWMutex_rdlock_def split: option.splits)
  moreover have "WriteScopedLockImpl_ctor RWMutex_ops t (rs_mutex s) = None \<longleftrightarrow>
      rw_writer (rs_mutex s) \<noteq> None \<or> 0 < rw_readers (rs_mutex s)"
    using nt by (auto simp: rw_scoped_lock_defs RWMutex_ops_def RWMutex_wrlock_def split: option.splits)
  moreover have "rs_write s g = Some True \<longrightarrow>
      (rs_write s h = Some True \<longrightarrow> h = g) \<and> rs_read s h \<noteq> Some True" for g h
    using rw.rw_inv_writer [OF inv, of g] holding_iff [of h "rs_write s"] holding_iff [of h "rs_read s"]
    by (auto simp del: holding_iff)
  ultimately show ?thesis using w r ne by simp
qed

lemma rw_write_ctor_reach:
  assumes "rw_reach ok T own m0 \<lparr>rs_mutex = m, rs_read = r, rs_write = w\<rparr>" and "w g = None"
    and "WriteScopedLockImpl_ctor T (own g) m = Some (m', l')"
    and "ok \<lparr>rs_mutex = m', rs_read = r, rs_write = w(g \<mapsto> l')\<rparr>"
  shows "rw_reach ok T own m0 \<lparr>rs_mutex = m', rs_read = r, rs_write = w(g \<mapsto> l')\<rparr>"
  using rr_step [OF assms(1) w_ctor [of "\<lparr>rs_mutex = m, rs_read = r, rs_write = w\<rparr>" g T own m' l']] assms(2-4)
  by simp

lemma rw_write_dtor_reach:
  assumes "rw_reach ok T own m0 \<lparr>rs_mutex = m, rs_read = r, rs_write = w\<rparr>" and "w g = Some l"
    and "WriteScopedLockImpl_dtor T (own g) (m, l) = m'"
    and "ok \<lparr>rs_mutex = m', rs_read = r, rs_write = w(g := None)\<rparr>"
  shows "rw_reach ok T own m0 \<lparr>rs_mutex = m', rs_read = r, rs_write = w(g := None)\<rparr>"
  using rr_step [OF assms(1) w_dtor [of "\<lparr>rs_mutex = m, rs_read = r, rs_write = w\<rparr>" g l T own m']] assms(2-4)
  by simp

theorem rw_guards_exclude_witness:
  "ReadScopedLockImpl_ctor RWMutex_ops 1 \<lparr>rw_readers = 0, rw_writer = Some 0\<rparr> = None"
proof -
  have "rw_reach (not_nested (\<lambda>g. g)) RWMutex_ops (\<lambda>g. g) RWMutex_ctor
      \<lparr>rs_mutex = \<lparr>rw_readers = 0, rw_writer = Some 0\<rparr>, rs_read = Map.empty, rs_write = [0 \<mapsto> True]\<rparr>"
  proof (rule rw_write_ctor_reach [OF rr_init])
    show "not_nested (\<lambda>g. g) \<lparr>rs_mutex = \<lparr>rw_readers = 0, rw_writer = Some 0\<rparr>,
            rs_read = Map.empty, rs_write = [0 \<mapsto> True]\<rparr>"
      by (auto simp: not_nested_def holding_upd simp del: holding_iff)
  qed (simp_all add: rw_scoped_lock_defs RWMutex_ops_def RWMutex_wrlock_def RWMutex_ctor_def)
  note rw_guards_exclude [OF this, of 1, THEN conjunct2, THEN conjunct1]
  moreover have "\<exists>g. [0::nat \<mapsto> True] g = Some True" by (rule exI [of _ 0]) simp
  moreover have "\<forall>g. [0::nat \<mapsto> True] g = Some True \<longrightarrow> g \<noteq> 1" by simp
  ultimately show ?thesis by simp
qed

text \<open>The hypothesis is needed. A thread that holds an \<open>RWMutex\<close> for writing and creates a second
  write guard on it is told \<open>EDEADLK\<close>, which \<open>wrlock\<close> drops; when the inner guard is destroyed it
  unlocks the mutex under the outer one, and another thread gets a write guard as well. Guards
  0 and 1 live in thread 0, guard 2 in thread 1.\<close>

theorem rw_nested_guards_break_exclusion:
  "\<exists>s. rw_reach (\<lambda>_. True) RWMutex_ops (\<lambda>g. g div 2) RWMutex_ctor s \<and>
       rs_write s 0 = Some True \<and> rs_write s 2 = Some True"
proof -
  let ?free = "\<lparr>rw_readers = 0, rw_writer = None\<rparr>" and ?mine = "\<lparr>rw_readers = 0, rw_writer = Some 0\<rparr>"
  let ?reach = "\<lambda>m w. rw_reach (\<lambda>_. True) RWMutex_ops (\<lambda>g. g div 2) RWMutex_ctor
                   \<lparr>rs_mutex = m, rs_read = Map.empty, rs_write = w\<rparr>"
  note defs = rw_scoped_lock_defs RWMutex_ops_def RWMutex_wrlock_def RWMutex_unlock_def RWMutex_ctor_def
  have "?reach ?mine [0 \<mapsto> True]"
    by (rule rw_write_ctor_reach [OF rr_init]) (simp_all add: defs)
  then have "?reach ?mine [0 \<mapsto> True, 1 \<mapsto> True]"
    by (rule rw_write_ctor_reach) (simp_all add: defs)
  then have "?reach ?free ([0 \<mapsto> True, 1 \<mapsto> True](1 := None))"
    by (rule rw_write_dtor_reach) (simp_all add: defs)
  then have "?reach \<lparr>rw_readers = 0, rw_writer = Some 1\<rparr> ([0 \<mapsto> True, 1 \<mapsto> True](1 := None, 2 \<mapsto> True))"
    by (rule rw_write_ctor_reach) (simp_all add: defs)
  then show ?thesis by (intro exI conjI) auto
qed

end
