(* ===== verification/Threads.thy ===== *)
theory Threads
  imports Locks
begin

text \<open>
  \<open>Thread\<close> of \<open>src/thread.h\<close> and \<open>src/thread.cpp\<close>: one object, the thread that creates it and the
  thread it starts, interleaved statement by statement. The creating thread constructs, joins and
  destroys the object; the new thread executes \<open>Thread::run\<close>. Logging and the scheduling of the two
  threads by the system are not part of the state; the pthread functions are used as documented:
  \<open>pthread_create\<close> fails or starts the thread, \<open>pthread_join\<close> returns when the thread has ended.
\<close>

section \<open>State\<close>

text \<open>\<open>m_thread\<close> is 0 as long as there is no thread to join, \<open>m_cb\<close> is \<open>None\<close> when it is empty.\<close>

record 'cb thread_obj =
  th_id :: int
  th_thread :: nat
  th_cb :: "'cb option"
  th_name :: string
  th_sem :: nat

text \<open>The thread-local variables; \<open>t_thread\<close> is null or this object.\<close>

record thread_tls =
  t_thread :: bool
  t_thread_name :: string

definition tls_init :: thread_tls where
  "tls_init = \<lparr>t_thread = False, t_thread_name = ''UNKNOWN''\<rparr>"

text \<open>The statement of \<open>Thread::run\<close> that comes next; the local variable \<open>cb\<close> from the swap on.\<close>

datatype 'cb run_pc =
    R_None | R_Start | R_Name | R_Id | R_Setname | R_Swap
  | R_Notify "'cb option" | R_Call "'cb option" | R_Running 'cb | R_Returned
  | R_Terminated error | R_Undefined

datatype creator_pc = C_Create | C_Wait | C_Live | C_Threw error | C_Destroyed

text \<open>
  \<open>ts_os_name\<close> is the name the system has for the thread, \<open>ts_calls\<close> the callbacks that were called,
  \<open>ts_released\<close> how often the thread was given to \<open>pthread_join\<close> or \<open>pthread_detach\<close>.
\<close>

record 'cb thread_sys =
  ts_obj :: "'cb thread_obj option"
  ts_creator :: creator_pc
  ts_run :: "'cb run_pc"
  ts_tls :: thread_tls
  ts_os_name :: string
  ts_calls :: "'cb list"
  ts_released :: nat

section \<open>The operations\<close>

definition Thread_GetThis :: "thread_tls \<Rightarrow> bool" where
  "Thread_GetThis tls = t_thread tls"

definition Thread_GetName :: "thread_tls \<Rightarrow> string" where
  "Thread_GetName tls = t_thread_name tls"

definition Thread_SetName ::
  "string \<Rightarrow> thread_tls \<times> 'cb thread_obj option \<Rightarrow> (thread_tls \<times> 'cb thread_obj option) result" where
  "Thread_SetName name = (\<lambda>(tls, obj).
     if name = [] then Inr (tls, obj)
     else if t_thread tls
     then (case obj of
             None \<Rightarrow> Inl (Undefined ''t_thread->m_name'')
           | Some th \<Rightarrow> Inr (tls\<lparr>t_thread_name := name\<rparr>, Some (th\<lparr>th_name := name\<rparr>)))
     else Inr (tls\<lparr>t_thread_name := name\<rparr>, obj))"

text \<open>The member initialisers and the test for an empty name.\<close>

definition Thread_init :: "'cb \<Rightarrow> string \<Rightarrow> 'cb thread_obj" where
  "Thread_init cb name =
     \<lparr>th_id = -1, th_thread = 0, th_cb = Some cb,
      th_name = (if name = [] then ''UNKNOWN'' else name), th_sem = 0\<rparr>"

definition Thread_join :: "int \<Rightarrow> 'cb thread_obj \<Rightarrow> 'cb thread_obj result" where
  "Thread_join rt th =
     (if th_thread th \<noteq> 0
      then if rt \<noteq> 0 then Inl (Logic_Error ''pthread_join error'') else Inr (th\<lparr>th_thread := 0\<rparr>)
      else Inr th)"

text \<open>The destructor: whether it detaches the thread.\<close>

definition Thread_dtor :: "'cb thread_obj \<Rightarrow> bool" where
  "Thread_dtor th \<longleftrightarrow> th_thread th \<noteq> 0"

text \<open>What a function of the system reads from \<open>c_str()\<close>: the characters before the first NUL.\<close>

definition c_str :: "string \<Rightarrow> string" where
  "c_str s = takeWhile (\<lambda>x. x \<noteq> CHR 0x00) s"

text \<open>A statement of \<open>run\<close> that goes through the pointer \<open>thread\<close>.\<close>

definition via_thread ::
  "('cb thread_obj \<Rightarrow> 'cb thread_sys \<Rightarrow> 'cb thread_sys) \<Rightarrow> 'cb thread_sys \<Rightarrow> 'cb thread_sys" where
  "via_thread f s = (case ts_obj s of None \<Rightarrow> s\<lparr>ts_run := R_Undefined\<rparr> | Some th \<Rightarrow> f th s)"

text \<open>\<open>tid\<close> is what \<open>GetThreadId\<close> returns in the new thread.\<close>

definition Thread_run_step :: "int \<Rightarrow> 'cb thread_sys \<Rightarrow> 'cb thread_sys" where
  "Thread_run_step tid s =
     (case ts_run s of
        R_Start \<Rightarrow> s\<lparr>ts_tls := (ts_tls s)\<lparr>t_thread := True\<rparr>, ts_run := R_Name\<rparr>
      | R_Name \<Rightarrow>
          via_thread (\<lambda>th s. s\<lparr>ts_tls := (ts_tls s)\<lparr>t_thread_name := th_name th\<rparr>, ts_run := R_Id\<rparr>) s
      | R_Id \<Rightarrow> via_thread (\<lambda>th s. s\<lparr>ts_obj := Some (th\<lparr>th_id := tid\<rparr>), ts_run := R_Setname\<rparr>) s
      | R_Setname \<Rightarrow> via_thread (\<lambda>th s. s\<lparr>ts_os_name := c_str (substr (th_name th) 0 15), ts_run := R_Swap\<rparr>) s
      | R_Swap \<Rightarrow>
          via_thread (\<lambda>th s. s\<lparr>ts_obj := Some (th\<lparr>th_cb := None\<rparr>), ts_run := R_Notify (th_cb th)\<rparr>) s
      | R_Notify cb \<Rightarrow>
          via_thread (\<lambda>th s. case Semaphore_notify (th_sem th) of
              Inl e \<Rightarrow> s\<lparr>ts_run := R_Terminated e\<rparr>
            | Inr n \<Rightarrow> s\<lparr>ts_obj := Some (th\<lparr>th_sem := n\<rparr>), ts_run := R_Call cb\<rparr>) s
      | R_Call None \<Rightarrow> s\<lparr>ts_run := R_Terminated (Lib_Exception ''bad_function_call'')\<rparr>
      | R_Call (Some f) \<Rightarrow> s\<lparr>ts_run := R_Running f, ts_calls := ts_calls s @ [f]\<rparr>
      | R_Running f \<Rightarrow> s\<lparr>ts_run := R_Returned\<rparr>
      | _ \<Rightarrow> s)"

definition run_live :: "'cb run_pc \<Rightarrow> bool" where
  "run_live pc =
     (case pc of R_None \<Rightarrow> False | R_Returned \<Rightarrow> False | R_Terminated _ \<Rightarrow> False | R_Undefined \<Rightarrow> False | _ \<Rightarrow> True)"

section \<open>Both threads\<close>

definition thread_start :: "'cb \<Rightarrow> string \<Rightarrow> 'cb thread_sys" where
  "thread_start cb name =
     \<lparr>ts_obj = Some (Thread_init cb name), ts_creator = C_Create, ts_run = R_None, ts_tls = tls_init,
      ts_os_name = [], ts_calls = [], ts_released = 0\<rparr>"

text \<open>
  The steps. With \<open>sig\<close> a signal handler can interrupt \<open>sem_wait\<close>; with \<open>ren\<close> the callback
  calls \<open>SetName\<close>. An exception that leaves the constructor ends the lifetime of the object.
\<close>

inductive thread_step :: "bool \<Rightarrow> bool \<Rightarrow> int \<Rightarrow> 'cb thread_sys \<Rightarrow> 'cb thread_sys \<Rightarrow> bool" for sig ren tid where
  c_create: "ts_creator s = C_Create \<Longrightarrow> ts_obj s = Some th \<Longrightarrow> p \<noteq> 0 \<Longrightarrow>
     thread_step sig ren tid s
       (s\<lparr>ts_obj := Some (th\<lparr>th_thread := p\<rparr>), ts_run := R_Start, ts_creator := C_Wait\<rparr>)"
| c_fail: "ts_creator s = C_Create \<Longrightarrow>
     thread_step sig ren tid s
       (s\<lparr>ts_obj := None, ts_creator := C_Threw (Logic_Error ''pthread_create error'')\<rparr>)"
| c_wait: "ts_creator s = C_Wait \<Longrightarrow> ts_obj s = Some th \<Longrightarrow>
     Semaphore_wait False (th_sem th) = Some (Inr n) \<Longrightarrow>
     thread_step sig ren tid s (s\<lparr>ts_obj := Some (th\<lparr>th_sem := n\<rparr>), ts_creator := C_Live\<rparr>)"
| c_interrupted: "sig \<Longrightarrow> ts_creator s = C_Wait \<Longrightarrow> ts_obj s = Some th \<Longrightarrow>
     Semaphore_wait True (th_sem th) = Some (Inl e) \<Longrightarrow>
     thread_step sig ren tid s (s\<lparr>ts_obj := None, ts_creator := C_Threw e\<rparr>)"
| c_join: "ts_creator s = C_Live \<Longrightarrow> ts_obj s = Some th \<Longrightarrow> th_thread th \<noteq> 0 \<Longrightarrow> ts_run s = R_Returned \<Longrightarrow>
     Thread_join 0 th = Inr th' \<Longrightarrow>
     thread_step sig ren tid s (s\<lparr>ts_obj := Some th', ts_released := ts_released s + 1\<rparr>)"
| c_join_again: "ts_creator s = C_Live \<Longrightarrow> ts_obj s = Some th \<Longrightarrow> th_thread th = 0 \<Longrightarrow>
     Thread_join 0 th = Inr th' \<Longrightarrow> thread_step sig ren tid s (s\<lparr>ts_obj := Some th'\<rparr>)"
| c_dtor: "ts_creator s = C_Live \<Longrightarrow> ts_obj s = Some th \<Longrightarrow>
     thread_step sig ren tid s
       (s\<lparr>ts_obj := None, ts_creator := C_Destroyed,
          ts_released := ts_released s + (if Thread_dtor th then 1 else 0)\<rparr>)"
| t_run: "run_live (ts_run s) \<Longrightarrow> thread_step sig ren tid s (Thread_run_step tid s)"
| t_rename: "ren \<Longrightarrow> ts_run s = R_Running f \<Longrightarrow> Thread_SetName n (ts_tls s, ts_obj s) = Inr (tls', obj') \<Longrightarrow>
     thread_step sig ren tid s (s\<lparr>ts_tls := tls', ts_obj := obj'\<rparr>)"
| t_rename_dangling: "ren \<Longrightarrow> ts_run s = R_Running f \<Longrightarrow> Thread_SetName n (ts_tls s, ts_obj s) = Inl e \<Longrightarrow>
     thread_step sig ren tid s (s\<lparr>ts_run := R_Undefined\<rparr>)"

inductive thread_reach :: "bool \<Rightarrow> bool \<Rightarrow> int \<Rightarrow> 'cb \<Rightarrow> string \<Rightarrow> 'cb thread_sys \<Rightarrow> bool"
  for sig ren tid cb name where
  t_init: "thread_reach sig ren tid cb name (thread_start cb name)"
| t_step: "thread_reach sig ren tid cb name s \<Longrightarrow> thread_step sig ren tid s s' \<Longrightarrow>
     thread_reach sig ren tid cb name s'"

section \<open>The invariant\<close>

text \<open>
  What holds at each statement of \<open>run\<close> when \<open>sem_wait\<close> is not interrupted. Up to \<open>notify\<close> the
  constructor waits and the object is the one it built (\<open>starting\<close>); from then on the object is ready
  (\<open>started\<close>), the constructor may have returned, and the object may be gone.
\<close>

definition starting :: "'cb thread_obj \<Rightarrow> 'cb thread_sys \<Rightarrow> bool" where
  "starting th s \<longleftrightarrow> ts_creator s = C_Wait \<and> ts_calls s = [] \<and> ts_released s = 0 \<and>
     (\<exists>p. p \<noteq> 0 \<and> ts_obj s = Some (th\<lparr>th_thread := p\<rparr>))"

definition obj_ready :: "int \<Rightarrow> 'cb thread_sys \<Rightarrow> 'cb thread_obj \<Rightarrow> bool" where
  "obj_ready tid s th \<longleftrightarrow> th_id th = tid \<and> th_cb th = None \<and> th_name th = t_thread_name (ts_tls s)"

definition started :: "bool \<Rightarrow> int \<Rightarrow> string \<Rightarrow> 'cb thread_sys \<Rightarrow> bool" where
  "started ren tid name s \<longleftrightarrow>
     t_thread (ts_tls s) \<and> (\<not> ren \<longrightarrow> t_thread_name (ts_tls s) = name) \<and> ts_os_name s = c_str (substr name 0 15) \<and>
     (case ts_creator s of
        C_Wait \<Rightarrow> (case ts_obj s of
            None \<Rightarrow> False
          | Some th \<Rightarrow> th_sem th = 1 \<and> th_thread th \<noteq> 0 \<and> obj_ready tid s th \<and> ts_released s = 0)
      | C_Live \<Rightarrow> (case ts_obj s of
            None \<Rightarrow> False
          | Some th \<Rightarrow> th_sem th = 0 \<and> obj_ready tid s th \<and>
                       ts_released s = (if th_thread th = 0 then 1 else 0))
      | C_Destroyed \<Rightarrow> ts_obj s = None \<and> ts_released s = 1
      | _ \<Rightarrow> False)"

definition thread_inv :: "bool \<Rightarrow> int \<Rightarrow> 'cb \<Rightarrow> string \<Rightarrow> 'cb thread_sys \<Rightarrow> bool" where
  "thread_inv ren tid cb name s =
     (let th = Thread_init cb name; n = th_name th; tls = \<lparr>t_thread = True, t_thread_name = n\<rparr> in
      case ts_run s of
        R_None \<Rightarrow> ts_calls s = [] \<and> ts_released s = 0 \<and>
          (ts_creator s = C_Create \<and> ts_obj s = Some th \<or>
           ts_creator s = C_Threw (Logic_Error ''pthread_create error'') \<and> ts_obj s = None)
      | R_Start \<Rightarrow> starting th s
      | R_Name \<Rightarrow> starting th s \<and> t_thread (ts_tls s)
      | R_Id \<Rightarrow> starting th s \<and> ts_tls s = tls
      | R_Setname \<Rightarrow> starting (th\<lparr>th_id := tid\<rparr>) s \<and> ts_tls s = tls
      | R_Swap \<Rightarrow> starting (th\<lparr>th_id := tid\<rparr>) s \<and> ts_tls s = tls \<and> ts_os_name s = c_str (substr n 0 15)
      | R_Notify c \<Rightarrow> starting (th\<lparr>th_id := tid, th_cb := None\<rparr>) s \<and> ts_tls s = tls \<and>
          ts_os_name s = c_str (substr n 0 15) \<and> c = Some cb
      | R_Call c \<Rightarrow> started ren tid n s \<and> ts_calls s = [] \<and> c = Some cb
      | R_Running f \<Rightarrow> started ren tid n s \<and> ts_calls s = [cb] \<and> f = cb
      | R_Returned \<Rightarrow> started ren tid n s \<and> ts_calls s = [cb]
      | R_Undefined \<Rightarrow> ren \<and> ts_creator s = C_Destroyed \<and> ts_released s = 1 \<and> ts_calls s = [cb]
      | R_Terminated e \<Rightarrow> False)"

lemmas thread_inv_defs = thread_inv_def Let_def starting_def

lemma thread_inv_start: "thread_inv ren tid cb name (thread_start cb name)"
  by (simp add: thread_inv_defs thread_start_def)

text \<open>While the constructor waits, the object is alive; when it is gone, the callback was called.\<close>

lemma thread_inv_run_step:
  assumes "thread_inv ren tid cb name s" and "run_live (ts_run s)"
  shows "thread_inv ren tid cb name (Thread_run_step tid s)"
proof (cases "ts_run s")
  case (R_Notify c)
  with assms show ?thesis
    by (auto simp: thread_inv_defs started_def obj_ready_def Thread_run_step_def via_thread_def
        Semaphore_notify_def SEM_VALUE_MAX_def Thread_init_def)
next
  case (R_Call c)
  with assms show ?thesis
    by (auto simp: thread_inv_defs started_def obj_ready_def Thread_run_step_def split: creator_pc.splits option.splits)
next
  case (R_Running f)
  with assms show ?thesis
    by (auto simp: thread_inv_defs started_def obj_ready_def Thread_run_step_def split: creator_pc.splits option.splits)
qed (use assms in \<open>auto simp: thread_inv_defs run_live_def Thread_run_step_def via_thread_def Thread_init_def\<close>)

lemma started_creator:
  "started ren tid n s \<Longrightarrow> ts_creator s = C_Wait \<or> ts_creator s = C_Live \<or> ts_creator s = C_Destroyed"
  by (auto simp: started_def split: creator_pc.splits)

lemma starting_not_started: "starting th s \<Longrightarrow> th_sem th = 0 \<Longrightarrow> \<not> started ren tid n s"
  by (auto simp: starting_def started_def)

lemma Thread_init_sem [simp]: "th_sem (Thread_init cb name) = 0"
  by (simp add: Thread_init_def)

lemma thread_inv_phase:
  assumes "thread_inv ren tid cb name s"
  shows "ts_creator s = C_Create \<Longrightarrow> ts_run s = R_None"
    and "ts_creator s = C_Live \<Longrightarrow> started ren tid (th_name (Thread_init cb name)) s"
  using assms by (auto simp: thread_inv_defs dest: started_creator split: run_pc.splits)

lemma thread_inv_wait_done:
  assumes "thread_inv ren tid cb name s" and "ts_creator s = C_Wait" and "ts_obj s = Some th" and "th_sem th \<noteq> 0"
  shows "started ren tid (th_name (Thread_init cb name)) s"
  using assms by (auto simp: thread_inv_defs split: run_pc.splits)

text \<open>A step of the creating thread after \<open>notify\<close> keeps the program counter of \<open>run\<close>.\<close>

lemma thread_inv_started:
  assumes inv: "thread_inv ren tid cb name s" and st: "started ren tid n s"
    and n: "n = th_name (Thread_init cb name)" and live: "ts_creator s \<noteq> C_Destroyed"
    and st': "started ren tid n s'" and run: "ts_run s' = ts_run s" and calls: "ts_calls s' = ts_calls s"
  shows "thread_inv ren tid cb name s'"
proof (cases "ts_run s")
  case R_None
  then show ?thesis using inv started_creator [OF st] by (auto simp: thread_inv_defs)
qed (use inv st live st' run calls n in \<open>auto simp: thread_inv_def Let_def dest: starting_not_started\<close>)

lemma thread_inv_step:
  assumes "thread_step False ren tid s s'" and inv: "thread_inv ren tid cb name s"
  shows "thread_inv ren tid cb name s'"
  using assms(1)
proof (cases rule: thread_step.cases)
  case (c_create th p)
  with inv thread_inv_phase(1) [OF inv] show ?thesis by (auto simp: thread_inv_defs)
next
  case c_fail
  with inv thread_inv_phase(1) [OF inv] show ?thesis by (auto simp: thread_inv_defs)
next
  case (c_wait th n)
  then have n: "th_sem th \<noteq> 0" "n = th_sem th - 1" by (auto simp: Semaphore_wait_def split: if_splits)
  note st = thread_inv_wait_done [OF inv c_wait(2,3) n(1)]
  show ?thesis
    by (rule thread_inv_started [OF inv st refl])
      (use c_wait n st in \<open>auto simp: started_def obj_ready_def\<close>)
next
  case (c_join th th')
  note st = thread_inv_phase(2) [OF inv c_join(2)]
  show ?thesis
    by (rule thread_inv_started [OF inv st refl])
      (use c_join st in \<open>auto simp: started_def obj_ready_def Thread_join_def\<close>)
next
  case (c_join_again th th')
  note st = thread_inv_phase(2) [OF inv c_join_again(2)]
  show ?thesis
    by (rule thread_inv_started [OF inv st refl])
      (use c_join_again st in \<open>auto simp: started_def obj_ready_def Thread_join_def\<close>)
next
  case (c_dtor th)
  note st = thread_inv_phase(2) [OF inv c_dtor(2)]
  show ?thesis
    by (rule thread_inv_started [OF inv st refl])
      (use c_dtor st in \<open>auto simp: started_def Thread_dtor_def\<close>)
next
  case t_run
  then show ?thesis using thread_inv_run_step [OF inv] by simp
next
  case (t_rename f n tls' obj')
  have st: "started ren tid (th_name (Thread_init cb name)) s" "t_thread (ts_tls s)"
    using inv t_rename(3) by (simp_all add: thread_inv_defs started_def)
  show ?thesis
  proof (cases "n = []")
    case True
    with t_rename have "s' = s" by (auto simp: Thread_SetName_def)
    with inv show ?thesis by simp
  next
    case False
    with t_rename st(2) obtain th where th: "ts_obj s = Some th"
      "s' = s\<lparr>ts_tls := (ts_tls s)\<lparr>t_thread_name := n\<rparr>, ts_obj := Some (th\<lparr>th_name := n\<rparr>)\<rparr>"
      by (auto simp: Thread_SetName_def split: option.splits)
    then have "started ren tid (th_name (Thread_init cb name)) s'" "ts_creator s \<noteq> C_Destroyed"
      using st t_rename(2) by (auto simp: started_def obj_ready_def split: creator_pc.splits option.splits)
    then show ?thesis by (intro thread_inv_started [OF inv st(1) refl]) (simp_all add: th(2))
  qed
next
  case (t_rename_dangling f n e)
  with inv show ?thesis
    by (auto simp: thread_inv_defs started_def Thread_SetName_def
        split: creator_pc.splits if_splits option.splits)
qed auto

lemma thread_reach_inv:
  "thread_reach False ren tid cb name s \<Longrightarrow> thread_inv ren tid cb name s"
  by (induction rule: thread_reach.induct) (auto intro: thread_inv_start thread_inv_step)

section \<open>Runs\<close>

lemma run_steps_reach:
  assumes "thread_reach sig ren tid cb name s" and "\<forall>i<k. run_live (ts_run ((Thread_run_step tid ^^ i) s))"
  shows "thread_reach sig ren tid cb name ((Thread_run_step tid ^^ k) s)"
  using assms
proof (induction k)
  case (Suc k)
  then have "thread_reach sig ren tid cb name ((Thread_run_step tid ^^ k) s)" by simp
  moreover have "run_live (ts_run ((Thread_run_step tid ^^ k) s))" using Suc.prems(2) by blast
  ultimately show ?case using t_step [OF _ t_run] by simp
qed simp

text \<open>The state after the new thread has been created as number 1, and after its \<open>notify\<close>.\<close>

definition thread_created :: "'cb \<Rightarrow> string \<Rightarrow> 'cb thread_sys" where
  "thread_created cb name = (thread_start cb name)
     \<lparr>ts_obj := Some ((Thread_init cb name)\<lparr>th_thread := 1\<rparr>), ts_run := R_Start, ts_creator := C_Wait\<rparr>"

lemma thread_created_reach: "thread_reach sig ren tid cb name (thread_created cb name)"
  unfolding thread_created_def
  by (rule t_step [OF t_init], rule c_create) (simp_all add: thread_start_def)

lemma run_step_eqs:
  "ts_run s = R_Start \<Longrightarrow>
     Thread_run_step tid s = s\<lparr>ts_tls := (ts_tls s)\<lparr>t_thread := True\<rparr>, ts_run := R_Name\<rparr>"
  "ts_run s = R_Name \<Longrightarrow> ts_obj s = Some th \<Longrightarrow>
     Thread_run_step tid s = s\<lparr>ts_tls := (ts_tls s)\<lparr>t_thread_name := th_name th\<rparr>, ts_run := R_Id\<rparr>"
  "ts_run s = R_Id \<Longrightarrow> ts_obj s = Some th \<Longrightarrow>
     Thread_run_step tid s = s\<lparr>ts_obj := Some (th\<lparr>th_id := tid\<rparr>), ts_run := R_Setname\<rparr>"
  "ts_run s = R_Setname \<Longrightarrow> ts_obj s = Some th \<Longrightarrow>
     Thread_run_step tid s = s\<lparr>ts_os_name := c_str (substr (th_name th) 0 15), ts_run := R_Swap\<rparr>"
  "ts_run s = R_Swap \<Longrightarrow> ts_obj s = Some th \<Longrightarrow>
     Thread_run_step tid s = s\<lparr>ts_obj := Some (th\<lparr>th_cb := None\<rparr>), ts_run := R_Notify (th_cb th)\<rparr>"
  "ts_run s = R_Notify c \<Longrightarrow> ts_obj s = Some th \<Longrightarrow> th_sem th = 0 \<Longrightarrow>
     Thread_run_step tid s = s\<lparr>ts_obj := Some (th\<lparr>th_sem := 1\<rparr>), ts_run := R_Call c\<rparr>"
  "ts_run s = R_Call (Some f) \<Longrightarrow>
     Thread_run_step tid s = s\<lparr>ts_run := R_Running f, ts_calls := ts_calls s @ [f]\<rparr>"
  by (simp_all add: Thread_run_step_def via_thread_def Semaphore_notify_def SEM_VALUE_MAX_def)

lemma run_live_simps [simp]:
  "run_live R_Start" "run_live R_Name" "run_live R_Id" "run_live R_Setname" "run_live R_Swap"
  "run_live (R_Notify c)" "run_live (R_Call c)" "run_live (R_Running f)"
  by (simp_all add: run_live_def)

text \<open>From every statement before \<open>notify\<close>, a few steps of \<open>run\<close> post the semaphore.\<close>

definition steps_to_notify :: "'cb run_pc \<Rightarrow> nat" where
  "steps_to_notify pc = (case pc of R_Start \<Rightarrow> 6 | R_Name \<Rightarrow> 5 | R_Id \<Rightarrow> 4 | R_Setname \<Rightarrow> 3
     | R_Swap \<Rightarrow> 2 | R_Notify _ \<Rightarrow> 1 | _ \<Rightarrow> 0)"

lemma notify_progress:
  assumes "thread_inv ren tid cb name s" and "ts_creator s = C_Wait" and "steps_to_notify (ts_run s) = Suc k"
  shows "run_live (ts_run s)" and "ts_creator (Thread_run_step tid s) = C_Wait"
    and "steps_to_notify (ts_run (Thread_run_step tid s)) = k"
  using assms
  by (auto simp: thread_inv_defs steps_to_notify_def run_step_eqs split: run_pc.splits)

lemma notified:
  assumes "thread_inv ren tid cb name s" and "ts_creator s = C_Wait" and "steps_to_notify (ts_run s) = 0"
  shows "\<exists>th. ts_obj s = Some th \<and> th_sem th = 1"
  using assms
  by (auto simp: thread_inv_defs steps_to_notify_def started_def split: run_pc.splits option.splits)

lemma notify_eventually:
  assumes "thread_inv ren tid cb name s" and "ts_creator s = C_Wait" and "steps_to_notify (ts_run s) = k"
  shows "\<exists>th. ts_obj ((Thread_run_step tid ^^ k) s) = Some th \<and> th_sem th = 1 \<and>
              ts_creator ((Thread_run_step tid ^^ k) s) = C_Wait"
  using assms
proof (induction k arbitrary: s)
  case 0
  then show ?case using notified [OF 0] by simp
next
  case (Suc k)
  note p = notify_progress [OF Suc.prems]
  have "thread_inv ren tid cb name (Thread_run_step tid s)"
    using thread_inv_run_step [OF Suc.prems(1) p(1)] .
  from Suc.IH [OF this p(2,3)] show ?case by (simp add: funpow_swap1)
qed

lemma steps_to_notify_le: "steps_to_notify pc \<le> 6"
  by (simp add: steps_to_notify_def split: run_pc.splits)

section \<open>Properties\<close>

text \<open>C16: When the constructor of \<open>Thread\<close> has returned, and as long as the object lives, the new thread
  has stored its id in it, set its own \<open>GetThis\<close>, given the system the first 15 characters of the
  name (those before a NUL character, for a name that has one) and taken the callback out of the object; \<open>getName\<close> and the thread's \<open>GetName\<close> agree, and are
  the name given, or UNKNOWN for an empty one, unless the callback renames the thread.\<close>

theorem thread_ctor_handshake:
  assumes "thread_reach False ren tid cb name s" and "ts_creator s = C_Live"
  shows "\<exists>th. ts_obj s = Some th \<and> th_id th = tid \<and> th_cb th = None \<and> Thread_GetThis (ts_tls s) \<and>
              th_name th = Thread_GetName (ts_tls s) \<and>
              (\<not> ren \<longrightarrow> th_name th = (if name = [] then ''UNKNOWN'' else name)) \<and>
              ts_os_name s = c_str (take 15 (if name = [] then ''UNKNOWN'' else name))"
proof -
  have "started ren tid (th_name (Thread_init cb name)) s"
    using thread_inv_phase(2) [OF thread_reach_inv [OF assms(1)] assms(2)] .
  then show ?thesis
    using assms(2)
    by (auto simp: started_def obj_ready_def Thread_GetThis_def Thread_GetName_def Thread_init_def substr_def
        split: option.splits)
qed

text \<open>The run of a thread up to the return of the constructor.\<close>

lemma thread_live_reach:
  "\<exists>s. thread_reach False ren tid cb name s \<and> ts_creator s = C_Live \<and> ts_run s = R_Call (Some cb) \<and>
       (\<exists>th. ts_obj s = Some th)"
proof -
  let ?s = "thread_created cb name"
  have st: "ts_run ?s = R_Start" "ts_creator ?s = C_Wait"
    "ts_obj ?s = Some ((Thread_init cb name)\<lparr>th_thread := 1\<rparr>)"
    by (simp_all add: thread_created_def thread_start_def)
  define t where "t = (Thread_run_step tid ^^ 6) ?s"
  have "thread_reach False ren tid cb name t"
    unfolding t_def
    by (rule run_steps_reach [OF thread_created_reach])
      (simp add: eval_nat_numeral All_less_Suc st run_step_eqs)
  moreover have "ts_creator t = C_Wait" "ts_run t = R_Call (Some cb)" "\<exists>th. ts_obj t = Some th \<and> th_sem th = 1"
    by (simp_all add: t_def eval_nat_numeral st run_step_eqs Thread_init_def)
  ultimately obtain th where t: "thread_reach False ren tid cb name t" "ts_creator t = C_Wait"
    "ts_run t = R_Call (Some cb)" "ts_obj t = Some th" "th_sem th = 1" by blast
  have "thread_step False ren tid t (t\<lparr>ts_obj := Some (th\<lparr>th_sem := 0\<rparr>), ts_creator := C_Live\<rparr>)"
    by (rule c_wait [OF t(2,4)]) (simp add: Semaphore_wait_def t(5))
  from t_step [OF t(1) this] show ?thesis
    by (intro exI [of _ "t\<lparr>ts_obj := Some (th\<lparr>th_sem := 0\<rparr>), ts_creator := C_Live\<rparr>"]) (simp add: t(3))
qed

theorem thread_ctor_handshake_witness:
  "\<exists>s th. thread_reach False False 42 (0 :: nat) ''a-name-longer-than-fifteen'' s \<and> ts_creator s = C_Live \<and>
          ts_obj s = Some th \<and> th_id th = 42 \<and> th_cb th = None \<and> ts_os_name s = ''a-name-longer-t''"
proof -
  obtain s where s: "thread_reach False False 42 (0 :: nat) ''a-name-longer-than-fifteen'' s" "ts_creator s = C_Live"
    using thread_live_reach [of False 42 0 "''a-name-longer-than-fifteen''"] by blast
  from thread_ctor_handshake [OF this] obtain th where
    "ts_obj s = Some th" "th_id th = 42" "th_cb th = None" "ts_os_name s = ''a-name-longer-t''"
    by (auto simp: c_str_def)
  with s show ?thesis by blast
qed

text \<open>C17: Creating a thread, joining it any number of times and destroying the object is safe as long as
  no signal interrupts the constructor and the callback does not rename the thread: \<open>run\<close> never goes
  through a dangling pointer, never ends in an uncaught exception of its own, calls the callback at most
  once and no other, and the system's thread is joined or detached once, at the latest by the
  destructor.\<close>

theorem thread_lifecycle_safe:
  assumes "thread_reach False False tid cb name s"
  shows "ts_run s \<noteq> R_Undefined \<and> (\<forall>e. ts_run s \<noteq> R_Terminated e) \<and>
         (ts_calls s = [] \<or> ts_calls s = [cb]) \<and> (ts_run s = R_Returned \<longrightarrow> ts_calls s = [cb]) \<and>
         ts_released s \<le> 1 \<and> (ts_creator s = C_Destroyed \<longrightarrow> ts_released s = 1)"
  using thread_reach_inv [OF assms]
  by (auto simp: thread_inv_defs started_def split: run_pc.splits creator_pc.splits option.splits if_splits)

theorem thread_lifecycle_safe_witness:
  "\<exists>s :: nat thread_sys. ts_creator s = C_Destroyed \<and> ts_released s = 1 \<and> ts_run s \<noteq> R_Undefined"
proof -
  obtain s th where s: "thread_reach False False 42 (0 :: nat) ''worker'' s" "ts_creator s = C_Live"
    "ts_obj s = Some th"
    using thread_live_reach [of False 42 0 "''worker''"] by blast
  from t_step [OF s(1) c_dtor [OF s(2,3)]]
  obtain d where d: "thread_reach False False 42 (0 :: nat) ''worker'' d" "ts_creator d = C_Destroyed" by simp
  from thread_lifecycle_safe [OF d(1)] d(2) show ?thesis by blast
qed

text \<open>C18: The constructor cannot wait for ever: whenever it waits, at most six more statements of
  \<open>run\<close> let it return.\<close>

theorem thread_ctor_returns:
  assumes "thread_reach False ren tid cb name s" and "ts_creator s = C_Wait"
  shows "\<exists>k\<le>6. \<exists>s'. thread_step False ren tid ((Thread_run_step tid ^^ k) s) s' \<and> ts_creator s' = C_Live"
proof -
  let ?k = "steps_to_notify (ts_run s)"
  obtain th where th: "ts_obj ((Thread_run_step tid ^^ ?k) s) = Some th" "th_sem th = 1"
    "ts_creator ((Thread_run_step tid ^^ ?k) s) = C_Wait"
    using notify_eventually [OF thread_reach_inv [OF assms(1)] assms(2) refl] by blast
  have "thread_step False ren tid ((Thread_run_step tid ^^ ?k) s)
      (((Thread_run_step tid ^^ ?k) s)\<lparr>ts_obj := Some (th\<lparr>th_sem := 0\<rparr>), ts_creator := C_Live\<rparr>)"
    by (rule c_wait [OF th(3,1)]) (simp add: Semaphore_wait_def th(2))
  then show ?thesis by (intro exI [of _ ?k] conjI steps_to_notify_le exI) auto
qed

theorem thread_ctor_returns_witness:
  "\<exists>k\<le>6. \<exists>s'. thread_step False False 42 ((Thread_run_step 42 ^^ k) (thread_created (0 :: nat) ''worker'')) s' \<and>
           ts_creator s' = C_Live"
  by (rule thread_ctor_returns [OF thread_created_reach])
    (simp add: thread_created_def)

text \<open>C19: Two ways a thread can go through a dangling \<open>Thread\<close> pointer: the object is destroyed, and its
  thread so detached, before the callback calls \<open>SetName\<close>; or a signal interrupts \<open>sem_wait\<close> in the
  constructor, whose exception ends the object's lifetime while \<open>run\<close> is about to use it.\<close>

theorem thread_dangling:
  "(\<exists>s. thread_reach False True tid cb name s \<and> ts_run s = R_Undefined) \<and>
   (\<exists>s. thread_reach True False tid cb name s \<and> ts_run s = R_Undefined)"
proof (rule conjI)
  obtain s th where s: "thread_reach False True tid cb name s" "ts_creator s = C_Live" "ts_obj s = Some th"
    "ts_run s = R_Call (Some cb)"
    using thread_live_reach [of True tid cb name] by blast
  have tls: "t_thread (ts_tls s)"
    using thread_inv_phase(2) [OF thread_reach_inv [OF s(1)] s(2)] by (simp add: started_def)
  let ?d = "s\<lparr>ts_obj := None, ts_creator := C_Destroyed,
              ts_released := ts_released s + (if Thread_dtor th then 1 else 0)\<rparr>"
  have "thread_reach False True tid cb name ?d" using t_step [OF s(1) c_dtor [OF s(2,3)]] .
  then have "thread_reach False True tid cb name (Thread_run_step tid ?d)"
    by (rule t_step) (rule t_run, simp add: s(4))
  then have r: "thread_reach False True tid cb name (?d\<lparr>ts_run := R_Running cb, ts_calls := ts_calls s @ [cb]\<rparr>)"
    by (simp add: run_step_eqs s(4))
  have "thread_reach False True tid cb name
      (?d\<lparr>ts_run := R_Running cb, ts_calls := ts_calls s @ [cb]\<rparr>\<lparr>ts_run := R_Undefined\<rparr>)"
    by (rule t_step [OF r], rule t_rename_dangling [of _ _ cb "''new name''"])
      (simp_all add: Thread_SetName_def tls)
  then show "\<exists>s. thread_reach False True tid cb name s \<and> ts_run s = R_Undefined"
    by (intro exI conjI, assumption) simp
next
  let ?s = "thread_created cb name"
  let ?t = "?s\<lparr>ts_obj := None, ts_creator := C_Threw (Logic_Error ''sem_wait error'')\<rparr>"
  have st: "ts_creator ?s = C_Wait" "ts_obj ?s = Some ((Thread_init cb name)\<lparr>th_thread := 1\<rparr>)"
    by (simp_all add: thread_created_def thread_start_def)
  have "thread_step True False tid ?s ?t"
    by (rule c_interrupted [OF _ st]) (simp_all add: Semaphore_wait_def)
  with thread_created_reach have "thread_reach True False tid cb name ?t" by (rule t_step)
  then have "thread_reach True False tid cb name ((Thread_run_step tid ^^ 2) ?t)"
    by (rule run_steps_reach)
      (simp add: eval_nat_numeral All_less_Suc thread_created_def Thread_run_step_def)
  moreover have "ts_run ((Thread_run_step tid ^^ 2) ?t) = R_Undefined"
    by (simp add: eval_nat_numeral thread_created_def Thread_run_step_def via_thread_def)
  ultimately show "\<exists>s. thread_reach True False tid cb name s \<and> ts_run s = R_Undefined" by blast
qed

end
