(* ===== verification/Fiber.thy ===== *)
theory Fiber
  imports Sylar_Prelude
begin

text \<open>
  \<open>Fiber\<close> of \<open>src/fiber.h\<close> and \<open>src/fiber.cpp\<close>. A \<open>ucontext\<close> is the point where its fiber goes on: the entry
  function, a point in the user's callback, or past the last switch of the entry function. The user's
  code is a parameter, \<open>prog\<close>: what it does next at a point \<open>p\<close>, which is some work on the rest of the program,
  a yield, a return or a throw. Fibers live at addresses; the thread-local variables of one thread are a
  record. \<open>getcontext\<close> and \<open>swapcontext\<close> do not fail, \<open>malloc\<close> gives a stack, and log lines are left out.
\<close>

section \<open>State\<close>

datatype fiber_state = INIT | HOLD | EXEC | TERM' | READY | EXCEPT

datatype 'p ctx = Ctx_MainFunc | Ctx_CallerMainFunc | Ctx_At 'p | Ctx_Past_End | Ctx_Unset

record 'p fiber =
  f_id :: "64 word"
  f_stacksize :: "32 word"
  f_state :: fiber_state
  f_ctx :: "'p ctx"
  f_stack :: bool
  f_cb :: "'p option"

record 'p fiber_world =
  fw_fibers :: "nat \<Rightarrow> 'p fiber option"
  fw_next :: nat
  s_fiber_id :: "64 word"
  s_fiber_count :: "64 word"

text \<open>\<open>t_fiber\<close> and \<open>t_threadFiber\<close> of fiber.cpp, and \<open>t_fiber\<close> of scheduler.cpp (\<open>GetMainFiber\<close>).\<close>

record fiber_tls =
  t_fiber :: "nat option"
  t_threadFiber :: "nat option"
  t_main_fiber :: "nat option"

definition fiber_world_init :: "'p fiber_world" where
  "fiber_world_init = \<lparr>fw_fibers = Map.empty, fw_next = 0, s_fiber_id = 0, s_fiber_count = 0\<rparr>"

definition fiber_tls_init :: fiber_tls where
  "fiber_tls_init = \<lparr>t_fiber = None, t_threadFiber = None, t_main_fiber = None\<rparr>"

definition new_fiber :: "'p fiber \<Rightarrow> 'p fiber_world \<Rightarrow> nat \<times> 'p fiber_world" where
  "new_fiber f w = (fw_next w, w\<lparr>fw_fibers := (fw_fibers w)(fw_next w \<mapsto> f), fw_next := fw_next w + 1\<rparr>)"

definition upd_fiber :: "nat \<Rightarrow> ('p fiber \<Rightarrow> 'p fiber) \<Rightarrow> 'p fiber_world \<Rightarrow> 'p fiber_world" where
  "upd_fiber a f w = w\<lparr>fw_fibers := (fw_fibers w)(a := map_option f (fw_fibers w a))\<rparr>"

definition state_at :: "'p fiber_world \<Rightarrow> nat \<Rightarrow> fiber_state option" where
  "state_at w a = map_option f_state (fw_fibers w a)"

section \<open>Construction and destruction\<close>

definition Fiber_SetThis :: "nat option \<Rightarrow> fiber_tls \<Rightarrow> fiber_tls" where
  "Fiber_SetThis f tls = tls\<lparr>t_fiber := f\<rparr>"

definition Fiber_ctor_main :: "fiber_tls \<times> 'p fiber_world \<Rightarrow> nat \<times> fiber_tls \<times> 'p fiber_world" where
  "Fiber_ctor_main = (\<lambda>(tls, w).
     case new_fiber \<lparr>f_id = 0, f_stacksize = 0, f_state = EXEC, f_ctx = Ctx_Unset, f_stack = False, f_cb = None\<rparr> w of
       (a, w') \<Rightarrow> (a, Fiber_SetThis (Some a) tls, w'\<lparr>s_fiber_count := s_fiber_count w' + 1\<rparr>))"

text \<open>\<open>m_stacksize\<close> has 32 bits; \<open>conf\<close> is the value of \<open>fiber.stack_size\<close>.\<close>

definition Fiber_ctor ::
  "32 word \<Rightarrow> 'p option \<Rightarrow> 64 word \<Rightarrow> bool \<Rightarrow> 'p fiber_world \<Rightarrow> nat \<times> 'p fiber_world" where
  "Fiber_ctor conf cb stacksize use_caller w =
     (let i = s_fiber_id w + 1;
          w = w\<lparr>s_fiber_id := i, s_fiber_count := s_fiber_count w + 1\<rparr> in
      new_fiber \<lparr>f_id = i, f_stacksize = (if stacksize \<noteq> 0 then ucast stacksize else conf), f_state = INIT,
                 f_ctx = (if \<not> use_caller then Ctx_MainFunc else Ctx_CallerMainFunc), f_stack = True, f_cb = cb\<rparr> w)"

text \<open>\<open>SYLAR_ASSERT(m_state = EXEC)\<close> assigns, and the value of the assignment is true.\<close>

definition Fiber_dtor :: "nat \<Rightarrow> fiber_tls \<times> 'p fiber_world \<Rightarrow> (fiber_tls \<times> 'p fiber_world) result" where
  "Fiber_dtor a = (\<lambda>(tls, w).
     case fw_fibers w a of
       None \<Rightarrow> Inl (Undefined ''~Fiber'')
     | Some f \<Rightarrow>
         if f_stack f
         then (if f_state f = TERM' \<or> f_state f = EXCEPT \<or> f_state f = INIT
               then Inr (tls, w\<lparr>s_fiber_count := s_fiber_count w - 1, fw_fibers := (fw_fibers w)(a := None)\<rparr>)
               else Inl (Assert_Failed ''m_state == TERM || m_state == EXCEPT || m_state == INIT''))
         else (if f_cb f \<noteq> None then Inl (Assert_Failed ''!m_cb'')
               else Inr (if t_fiber tls = Some a then Fiber_SetThis None tls else tls,
                         w\<lparr>s_fiber_count := s_fiber_count w - 1, fw_fibers := (fw_fibers w)(a := None)\<rparr>)))"

definition Fiber_reset :: "'p option \<Rightarrow> nat \<Rightarrow> 'p fiber_world \<Rightarrow> 'p fiber_world result" where
  "Fiber_reset cb a w =
     (case fw_fibers w a of
        None \<Rightarrow> Inl (Undefined ''reset'')
      | Some f \<Rightarrow>
          if \<not> f_stack f then Inl (Assert_Failed ''m_stack'')
          else if f_state f = TERM' \<or> f_state f = EXCEPT \<or> f_state f = INIT
          then Inr (upd_fiber a (\<lambda>f. f\<lparr>f_cb := cb, f_ctx := Ctx_MainFunc, f_state := INIT\<rparr>) w)
          else Inl (Assert_Failed ''m_state == TERM || m_state == EXCEPT || m_state == INIT''))"

definition Fiber_GetThis :: "fiber_tls \<times> 'p fiber_world \<Rightarrow> nat \<times> fiber_tls \<times> 'p fiber_world" where
  "Fiber_GetThis = (\<lambda>(tls, w).
     case t_fiber tls of
       Some a \<Rightarrow> (a, tls, w)
     | None \<Rightarrow> (case Fiber_ctor_main (tls, w) of (a, tls', w') \<Rightarrow> (a, tls'\<lparr>t_threadFiber := Some a\<rparr>, w')))"

definition Fiber_GetFiberId :: "fiber_tls \<times> 'p fiber_world \<Rightarrow> 64 word" where
  "Fiber_GetFiberId = (\<lambda>(tls, w).
     case t_fiber tls of None \<Rightarrow> 0 | Some a \<Rightarrow> (case fw_fibers w a of None \<Rightarrow> 0 | Some f \<Rightarrow> f_id f))"

text \<open>\<open>GetFiberId\<close> of util.cpp returns 32 bits of it.\<close>

definition util_GetFiberId :: "fiber_tls \<times> 'p fiber_world \<Rightarrow> 32 word" where
  "util_GetFiberId s = ucast (Fiber_GetFiberId s)"

definition Fiber_TotalFibers :: "'p fiber_world \<Rightarrow> 64 word" where
  "Fiber_TotalFibers w = s_fiber_count w"

section \<open>Switching\<close>

text \<open>
  Where a thread executes: in the code that called \<open>swapIn\<close> or \<open>call\<close>, at the entry of \<open>MainFunc\<close> or
  \<open>CallerMainFunc\<close> (\<open>caller\<close>), at a point of the callback of the fiber \<open>cur\<close>, in a yield of it after
  the state is set, or at the end of the entry function before the last switch.
\<close>

datatype 'p control =
    Outside
  | At_Entry bool
  | At_Callback bool nat 'p
  | At_Yield bool nat 'p
  | At_Exit bool nat

datatype 'p outcome = Work 'p | Yield_Ready 'p | Yield_Hold 'p | Return | Throw error

type_synonym ('p, 'w) prog = "'p \<Rightarrow> 'w \<Rightarrow> 'w \<times> 'p outcome"

type_synonym 'p fiber_thread = "fiber_tls \<times> 'p fiber_world"

text \<open>The jump of \<open>swapcontext\<close> into a fiber; \<open>caller\<close> is kept for a fiber that was entered by \<open>call\<close>.\<close>

definition jump :: "bool \<Rightarrow> nat \<Rightarrow> 'p ctx \<Rightarrow> 'p control result" where
  "jump caller a c =
     (case c of
        Ctx_MainFunc \<Rightarrow> Inr (At_Entry False)
      | Ctx_CallerMainFunc \<Rightarrow> Inr (At_Entry True)
      | Ctx_At p \<Rightarrow> Inr (At_Callback caller a p)
      | Ctx_Past_End \<Rightarrow> Inl (Assert_Failed ''never reach'')
      | Ctx_Unset \<Rightarrow> Inl (Undefined ''swapcontext''))"

definition Fiber_swapIn :: "nat \<Rightarrow> 'p fiber_thread \<Rightarrow> ('p control \<times> 'p fiber_thread) result" where
  "Fiber_swapIn a = (\<lambda>(tls, w).
     let tls = Fiber_SetThis (Some a) tls in
     case fw_fibers w a of
       None \<Rightarrow> Inl (Undefined ''swapIn'')
     | Some f \<Rightarrow>
         if f_state f = EXEC then Inl (Assert_Failed ''m_state != EXEC'')
         else
           (let w = upd_fiber a (\<lambda>f. f\<lparr>f_state := EXEC\<rparr>) w in
            case t_main_fiber tls of
              None \<Rightarrow> Inl (Undefined ''Scheduler::GetMainFiber()->m_ctx'')
            | Some _ \<Rightarrow> bind_r (jump False a (f_ctx f)) (\<lambda>c. Inr (c, tls, w))))"

definition Fiber_call :: "nat \<Rightarrow> 'p fiber_thread \<Rightarrow> ('p control \<times> 'p fiber_thread) result" where
  "Fiber_call a = (\<lambda>(tls, w).
     let tls = Fiber_SetThis (Some a) tls in
     case fw_fibers w a of
       None \<Rightarrow> Inl (Undefined ''call'')
     | Some f \<Rightarrow>
         (let w = upd_fiber a (\<lambda>f. f\<lparr>f_state := EXEC\<rparr>) w in
          case t_threadFiber tls of
            None \<Rightarrow> Inl (Undefined ''t_threadFiber->m_ctx'')
          | Some _ \<Rightarrow> bind_r (jump True a (f_ctx f)) (\<lambda>c. Inr (c, tls, w))))"

text \<open>\<open>swapOut\<close> and \<open>back\<close>, which save the point \<open>c\<close> where the fiber goes on.\<close>

definition Fiber_swapOut :: "nat \<Rightarrow> 'p ctx \<Rightarrow> 'p fiber_thread \<Rightarrow> 'p fiber_thread result" where
  "Fiber_swapOut a c = (\<lambda>(tls, w).
     let tls = Fiber_SetThis (t_main_fiber tls) tls in
     case t_main_fiber tls of
       None \<Rightarrow> Inl (Undefined ''Scheduler::GetMainFiber()->m_ctx'')
     | Some _ \<Rightarrow> Inr (tls, upd_fiber a (\<lambda>f. f\<lparr>f_ctx := c\<rparr>) w))"

definition Fiber_back :: "nat \<Rightarrow> 'p ctx \<Rightarrow> 'p fiber_thread \<Rightarrow> 'p fiber_thread result" where
  "Fiber_back a c = (\<lambda>(tls, w).
     let tls = Fiber_SetThis (t_threadFiber tls) tls in
     case t_threadFiber tls of
       None \<Rightarrow> Inl (Undefined ''t_threadFiber->m_ctx'')
     | Some _ \<Rightarrow> Inr (tls, upd_fiber a (\<lambda>f. f\<lparr>f_ctx := c\<rparr>) w))"

text \<open>The first statements of \<open>YieldToReady\<close> and \<open>YieldToHold\<close>; the switch is the next step.\<close>

definition Fiber_YieldToReady :: "bool \<Rightarrow> 'p \<Rightarrow> 'p fiber_thread \<Rightarrow> 'p control \<times> 'p fiber_thread" where
  "Fiber_YieldToReady caller p s =
     (case Fiber_GetThis s of
        (cur, tls, w) \<Rightarrow> (At_Yield caller cur p, tls, upd_fiber cur (\<lambda>f. f\<lparr>f_state := READY\<rparr>) w))"

definition Fiber_YieldToHold :: "bool \<Rightarrow> 'p \<Rightarrow> 'p fiber_thread \<Rightarrow> 'p control \<times> 'p fiber_thread" where
  "Fiber_YieldToHold caller p s =
     (case Fiber_GetThis s of
        (cur, tls, w) \<Rightarrow> (At_Yield caller cur p, tls, upd_fiber cur (\<lambda>f. f\<lparr>f_state := HOLD\<rparr>) w))"

text \<open>
  One step of a thread inside a fiber: the bodies of \<open>MainFunc\<close> and \<open>CallerMainFunc\<close> with the callback. Calling an
  empty \<open>std::function\<close> throws.
\<close>

definition fiber_step ::
  "('p, 'w) prog \<Rightarrow> 'p control \<times> 'p fiber_thread \<times> 'w \<Rightarrow> ('p control \<times> 'p fiber_thread \<times> 'w) result" where
  "fiber_step prog = (\<lambda>(c, s, e).
     case c of
       Outside \<Rightarrow> Inr (Outside, s, e)
     | At_Entry caller \<Rightarrow>
         (case Fiber_GetThis s of
            (cur, tls, w) \<Rightarrow>
              (case fw_fibers w cur of
                 None \<Rightarrow> Inl (Undefined ''curr->m_cb'')
               | Some f \<Rightarrow>
                   (case f_cb f of
                      Some p \<Rightarrow> Inr (At_Callback caller cur p, (tls, w), e)
                    | None \<Rightarrow> Inr (At_Exit caller cur, (tls, upd_fiber cur (\<lambda>f. f\<lparr>f_state := EXCEPT\<rparr>) w), e))))
     | At_Callback caller cur p \<Rightarrow>
         (case prog p e of
            (e', Work p') \<Rightarrow> Inr (At_Callback caller cur p', s, e')
          | (e', Yield_Ready p') \<Rightarrow> (case Fiber_YieldToReady caller p' s of (c', s') \<Rightarrow> Inr (c', s', e'))
          | (e', Yield_Hold p') \<Rightarrow> (case Fiber_YieldToHold caller p' s of (c', s') \<Rightarrow> Inr (c', s', e'))
          | (e', Return) \<Rightarrow>
              Inr (At_Exit caller cur,
                   (fst s, upd_fiber cur (\<lambda>f. f\<lparr>f_cb := None, f_state := TERM'\<rparr>) (snd s)), e')
          | (e', Throw x) \<Rightarrow>
              if is_exception x
              then Inr (At_Exit caller cur, (fst s, upd_fiber cur (\<lambda>f. f\<lparr>f_state := EXCEPT\<rparr>) (snd s)), e')
              else Inl x)
     | At_Yield caller cur p \<Rightarrow> bind_r (Fiber_swapOut cur (Ctx_At p) s) (\<lambda>s'. Inr (Outside, s', e))
     | At_Exit caller cur \<Rightarrow>
         bind_r ((if caller then Fiber_back else Fiber_swapOut) cur Ctx_Past_End s) (\<lambda>s'. Inr (Outside, s', e)))"



section \<open>What a resumption does\<close>

lemma upd_fiber_at [simp]: "fw_fibers (upd_fiber a f w) b = (if b = a then map_option f (fw_fibers w a) else fw_fibers w b)"
  by (simp add: upd_fiber_def)


lemma upd_fiber_next [simp]:
  "fw_next (upd_fiber a f w) = fw_next w" "s_fiber_id (upd_fiber a f w) = s_fiber_id w"
  "s_fiber_count (upd_fiber a f w) = s_fiber_count w"
  by (simp_all add: upd_fiber_def)

lemma Fiber_GetThis_Some [simp]: "t_fiber tls = Some a \<Longrightarrow> Fiber_GetThis (tls, w) = (a, tls, w)"
  by (simp add: Fiber_GetThis_def)



text \<open>A fiber that goes on at point \<open>p\<close> of its callback when it is resumed.\<close>

definition fiber_at :: "'p fiber_world \<Rightarrow> nat \<Rightarrow> 'p \<Rightarrow> bool" where
  "fiber_at w a p \<longleftrightarrow>
     (\<exists>f. fw_fibers w a = Some f \<and> f_state f \<noteq> EXEC \<and>
          (f_ctx f = Ctx_MainFunc \<and> f_cb f = Some p \<or> f_ctx f = Ctx_At p))"










section \<open>Properties\<close>






text \<open>A callback that appends 1, yields, appends 2, yields, and ends or throws.\<close>

definition demo_prog :: "(nat, nat list) prog" where
  "demo_prog p e =
     (if p = 0 then (e @ [1], Yield_Hold 1) else if p = 1 then (e @ [2], Yield_Ready 2)
      else if p = 2 then (e, Return) else (e @ [9], Throw (Logic_Error ''user'')))"

definition demo_fiber_thread :: "nat \<Rightarrow> nat fiber_thread" where
  "demo_fiber_thread p =
     (case Fiber_GetThis (fiber_tls_init, fiber_world_init) of
        (m, tls, w) \<Rightarrow> (tls\<lparr>t_main_fiber := Some m\<rparr>, snd (Fiber_ctor 1048576 (Some p) 0 False w)))"



text \<open>\<open>reset\<close> takes a fiber that has its own stack and has ended or not begun, and makes it begin with the
  new callback; anything else fails an assertion. The destructor fails an assertion on a fiber that is
  suspended or running, so such a fiber must not lose its last pointer.\<close>

theorem fiber_reset_dtor_guard:
  assumes "fw_fibers w a = Some f" and "f_stack f"
  shows "(f_state f \<in> {TERM', EXCEPT, INIT} \<longrightarrow>
            (\<exists>w'. Fiber_reset (Some p) a w = Inr w' \<and> fiber_at w' a p \<and> state_at w' a = Some INIT) \<and>
            (\<exists>w'. Fiber_dtor a (tls, w) = Inr (tls, w') \<and> fw_fibers w' a = None)) \<and>
         (f_state f \<in> {HOLD, READY, EXEC} \<longrightarrow>
            (\<exists>m. Fiber_reset (Some p) a w = Inl (Assert_Failed m)) \<and>
            (\<exists>m. Fiber_dtor a (tls, w) = Inl (Assert_Failed m)))"
  using assms by (auto simp: Fiber_reset_def Fiber_dtor_def fiber_at_def state_at_def)

theorem fiber_reset_dtor_guard_witness:
  "\<exists>w'. Fiber_reset (Some 7) 1 (snd (demo_fiber_thread 0)) = Inr w' \<and> fiber_at w' 1 7"
proof -
  obtain f where f: "fw_fibers (snd (demo_fiber_thread 0)) 1 = Some f" "f_stack f" "f_state f = INIT"
    by (simp add: demo_fiber_thread_def Fiber_GetThis_def fiber_tls_init_def fiber_world_init_def Fiber_ctor_main_def
      new_fiber_def Fiber_SetThis_def Fiber_ctor_def Let_def)
  show ?thesis using fiber_reset_dtor_guard [OF f(1,2), of 7 fiber_tls_init] f(3) by blast
qed

section \<open>Counting fibers\<close>

text \<open>
  Operations of a thread, in any order and inside a callback too: construction, destruction, \<open>GetThis\<close>, \<open>reset\<close>, the
  assignment of the scheduler's main fiber, \<open>swapIn\<close> and \<open>call\<close> from outside a fiber, and \<open>Go_On\<close>, the next step
  inside the fiber it is in: of its entry function, its callback, a yield, or the switch back at its end. A failed
  assertion ends the process.
\<close>

datatype 'p fiber_op =
    New_Fiber "'p option" "64 word" bool
  | Get_This
  | Delete_Fiber nat
  | Reset_Fiber "'p option" nat
  | Set_Main_Fiber nat
  | Swap_In nat
  | Call_Fiber nat
  | Go_On

fun fiber_op_step ::
  "32 word \<Rightarrow> ('p, 'w) prog \<Rightarrow> 'p fiber_op \<Rightarrow> 'p control \<times> 'p fiber_thread \<times> 'w \<Rightarrow>
   ('p control \<times> 'p fiber_thread \<times> 'w) result" where
  "fiber_op_step conf prog (New_Fiber cb stacksize caller) (c, (tls, w), e) =
     Inr (c, (tls, snd (Fiber_ctor conf cb stacksize caller w)), e)"
| "fiber_op_step conf prog Get_This (c, s, e) = Inr (c, snd (Fiber_GetThis s), e)"
| "fiber_op_step conf prog (Delete_Fiber a) (c, s, e) = bind_r (Fiber_dtor a s) (\<lambda>s'. Inr (c, s', e))"
| "fiber_op_step conf prog (Reset_Fiber cb a) (c, (tls, w), e) =
     bind_r (Fiber_reset cb a w) (\<lambda>w'. Inr (c, (tls, w'), e))"
| "fiber_op_step conf prog (Set_Main_Fiber a) (c, (tls, w), e) = Inr (c, (tls\<lparr>t_main_fiber := Some a\<rparr>, w), e)"
| "fiber_op_step conf prog (Swap_In a) (c, s, e) =
     (if c \<noteq> Outside then Inl (Undefined ''swapIn in a fiber'')
      else bind_r (Fiber_swapIn a s) (\<lambda>(c', s'). Inr (c', s', e)))"
| "fiber_op_step conf prog (Call_Fiber a) (c, s, e) =
     (if c \<noteq> Outside then Inl (Undefined ''call in a fiber'')
      else bind_r (Fiber_call a s) (\<lambda>(c', s'). Inr (c', s', e)))"
| "fiber_op_step conf prog Go_On (c, s, e) = fiber_step prog (c, s, e)"

text \<open>Several threads, each with its thread-local variables, on the same fibers and counters.\<close>

type_synonym ('p, 'w) fiber_threads = "('p control \<times> fiber_tls) list \<times> 'p fiber_world \<times> 'w"

definition fiber_thread_op ::
  "32 word \<Rightarrow> ('p, 'w) prog \<Rightarrow> nat \<times> 'p fiber_op \<Rightarrow> ('p, 'w) fiber_threads \<Rightarrow> ('p, 'w) fiber_threads result" where
  "fiber_thread_op conf prog = (\<lambda>(t, op) (ths, w, e).
     if t < length ths
     then (case ths ! t of (c, tls) \<Rightarrow>
             bind_r (fiber_op_step conf prog op (c, (tls, w), e)) (\<lambda>(c', (tls', w'), e').
               Inr (ths[t := (c', tls')], w', e')))
     else Inr (ths, w, e))"

definition fiber_threads_init :: "nat \<Rightarrow> 'w \<Rightarrow> ('p, 'w) fiber_threads" where
  "fiber_threads_init n e = (replicate n (Outside, fiber_tls_init), fiber_world_init, e)"

definition fiber_inv :: "'p fiber_world \<Rightarrow> bool" where
  "fiber_inv w \<longleftrightarrow>
     (\<forall>a f. fw_fibers w a = Some f \<longrightarrow> a < fw_next w \<and> f_id f \<le> s_fiber_id w \<and> (f_stack f \<longleftrightarrow> 0 < f_id f)) \<and>
     s_fiber_count w = of_nat (card (dom (fw_fibers w))) \<and>
     (\<forall>a b f g. fw_fibers w a = Some f \<and> fw_fibers w b = Some g \<and> f_stack f \<and> f_id f = f_id g \<longrightarrow> a = b)"

lemma fiber_inv_entry:
  assumes "fiber_inv w" and "fw_fibers w a = Some f"
  shows "a < fw_next w" "f_id f \<le> s_fiber_id w" "f_stack f \<longleftrightarrow> 0 < f_id f"
  using assms unfolding fiber_inv_def by blast+

lemma fiber_inv_count: "fiber_inv w \<Longrightarrow> s_fiber_count w = of_nat (card (dom (fw_fibers w)))"
  unfolding fiber_inv_def by blast

lemma fiber_inv_unique:
  "fiber_inv w \<Longrightarrow> fw_fibers w a = Some f \<Longrightarrow> fw_fibers w b = Some g \<Longrightarrow> f_stack f \<Longrightarrow> f_id f = f_id g \<Longrightarrow> a = b"
  unfolding fiber_inv_def by blast

lemma fiber_inv_finite: "fiber_inv w \<Longrightarrow> finite (dom (fw_fibers w))"
  by (rule finite_subset [of _ "{..<fw_next w}"]) (auto dest: fiber_inv_entry(1))

text \<open>The invariant of a world whose fibers are those of another one, as far as it looks.\<close>

lemma fiber_inv_transfer:
  assumes inv: "fiber_inv w" and "fw_next w \<le> fw_next w'" and "s_fiber_id w \<le> s_fiber_id w'"
    and sub: "\<And>a f. fw_fibers w' a = Some f \<Longrightarrow> \<exists>g. fw_fibers w a = Some g \<and> f_id g = f_id f \<and> f_stack g = f_stack f"
    and "s_fiber_count w' = of_nat (card (dom (fw_fibers w')))"
  shows "fiber_inv w'"
  unfolding fiber_inv_def
proof (intro conjI allI impI)
  fix a f
  assume "fw_fibers w' a = Some f"
  then obtain g where "fw_fibers w a = Some g" "f_id g = f_id f" "f_stack g = f_stack f" using sub by blast
  with fiber_inv_entry [OF inv] assms(2,3)
  show "a < fw_next w'" "f_id f \<le> s_fiber_id w'" "f_stack f \<longleftrightarrow> 0 < f_id f"
    by (meson order.strict_trans2, metis order.trans, metis)
next
  fix a b f g
  assume "fw_fibers w' a = Some f \<and> fw_fibers w' b = Some g \<and> f_stack f \<and> f_id f = f_id g"
  then show "a = b" using sub [of a f] sub [of b g] fiber_inv_unique [OF inv] by metis
qed (rule assms(5))

lemma fiber_inv_new:
  assumes inv: "fiber_inv w" and i: "s_fiber_id w \<le> i"
    and f: "f_stack f \<longleftrightarrow> 0 < f_id f" "f_id f \<le> i" "f_stack f \<longrightarrow> s_fiber_id w < f_id f"
  shows "fiber_inv (w\<lparr>s_fiber_id := i, s_fiber_count := s_fiber_count w + 1,
                     fw_fibers := (fw_fibers w)(fw_next w \<mapsto> f), fw_next := fw_next w + 1\<rparr>)"
    (is "fiber_inv ?w")
proof -
  have fresh: "fw_next w \<notin> dom (fw_fibers w)" using fiber_inv_entry(1) [OF inv] by blast
  have other: "f_id g \<noteq> f_id f" if "fw_fibers w a = Some g" "f_stack f \<or> f_stack g" for a g
  proof (cases "f_stack f")
    case True
    then show ?thesis using f(3) fiber_inv_entry(2) [OF inv that(1)] by auto
  next
    case False
    then have "f_id f = 0" "0 < f_id g" using f(1) that fiber_inv_entry(3) [OF inv that(1)] by (auto simp: word_gt_0)
    then show ?thesis by auto
  qed
  show ?thesis
    unfolding fiber_inv_def
  proof (intro conjI allI impI)
    fix a g
    assume a: "fw_fibers ?w a = Some g"
    then show "a < fw_next ?w" "f_stack g \<longleftrightarrow> 0 < f_id g"
      using fiber_inv_entry [OF inv] f i by (auto split: if_splits intro: less_SucI)
    show "f_id g \<le> s_fiber_id ?w"
      using a f(2) order.trans [OF fiber_inv_entry(2) [OF inv] i] by (auto split: if_splits)
  next
    show "s_fiber_count ?w = of_nat (card (dom (fw_fibers ?w)))"
      using fresh fiber_inv_finite [OF inv] fiber_inv_count [OF inv] by simp
  next
    fix a b g h
    assume "fw_fibers ?w a = Some g \<and> fw_fibers ?w b = Some h \<and> f_stack g \<and> f_id g = f_id h"
    then show "a = b"
      using other fiber_inv_unique [OF inv, of a g b h] by (auto split: if_splits)
  qed
qed

lemma fiber_inv_upd:
  assumes "fiber_inv w" and "\<And>f. f_id (g f) = f_id f \<and> f_stack (g f) = f_stack f"
  shows "fiber_inv (upd_fiber a g w)"
proof (rule fiber_inv_transfer [OF assms(1)])
  have "dom (fw_fibers (upd_fiber a g w)) = dom (fw_fibers w)" by (auto simp: dom_def)
  then show "s_fiber_count (upd_fiber a g w) = of_nat (card (dom (fw_fibers (upd_fiber a g w))))"
    using fiber_inv_count [OF assms(1)] by simp
qed (use assms(2) in \<open>auto split: if_splits\<close>)

lemma fiber_inv_delete:
  assumes inv: "fiber_inv w" and a: "fw_fibers w a = Some f"
  shows "fiber_inv (w\<lparr>s_fiber_count := s_fiber_count w - 1, fw_fibers := (fw_fibers w)(a := None)\<rparr>)"
proof -
  have fin: "finite (dom (fw_fibers w))" by (rule fiber_inv_finite [OF inv])
  then have "of_nat (card (dom (fw_fibers w) - {a})) = (of_nat (card (dom (fw_fibers w))) - 1 :: 64 word)"
    using a card_gt_0_iff [of "dom (fw_fibers w)"] by (simp add: card_Diff_singleton domI of_nat_diff Suc_le_eq) (auto simp: dom_def)
  then have "s_fiber_count w - 1 = of_nat (card (dom ((fw_fibers w)(a := None))))"
    using fiber_inv_count [OF inv] by simp
  then show ?thesis
    by (intro fiber_inv_transfer [OF inv]) (auto split: if_splits)
qed

lemma fiber_inv_init: "fiber_inv fiber_world_init"
  by (simp add: fiber_inv_def fiber_world_init_def)

text \<open>What a step does to the counters and to the supply of addresses.\<close>

definition counted :: "'p fiber_world \<Rightarrow> 'p fiber_world \<Rightarrow> bool" where
  "counted w w' \<longleftrightarrow>
     fiber_inv w' \<and> unat (s_fiber_id w') \<le> unat (s_fiber_id w) + 1 \<and> fw_next w' \<le> fw_next w + 1"

lemma counted_refl [simp]: "fiber_inv w \<Longrightarrow> counted w w"
  by (simp add: counted_def)

lemma counted_upd:
  "counted w w' \<Longrightarrow> (\<And>f. f_id (g f) = f_id f \<and> f_stack (g f) = f_stack f) \<Longrightarrow> counted w (upd_fiber a g w')"
  by (simp add: counted_def fiber_inv_upd)

lemma counted_GetThis:
  assumes inv: "fiber_inv w" and "Fiber_GetThis (tls, w) = (a, tls', w')"
  shows "counted w w'"
proof (cases "t_fiber tls")
  case None
  let ?f = "\<lparr>f_id = 0, f_stacksize = 0, f_state = EXEC, f_ctx = Ctx_Unset, f_stack = False, f_cb = None\<rparr> :: 'a fiber"
  have "w' = w\<lparr>s_fiber_id := s_fiber_id w, s_fiber_count := s_fiber_count w + 1,
      fw_fibers := (fw_fibers w)(fw_next w \<mapsto> ?f), fw_next := fw_next w + 1\<rparr>"
    using None assms(2) by (auto simp: Fiber_GetThis_def Fiber_ctor_main_def new_fiber_def)
  then show ?thesis using fiber_inv_new [OF inv, of "s_fiber_id w" ?f] by (simp add: counted_def)
qed (use assms in simp)

lemma counted_step:
  assumes inv: "fiber_inv w" and step: "fiber_step prog (c, (tls, w), e) = Inr (c', (tls', w'), e')"
  shows "counted w w'"
proof (cases c)
  case (At_Entry caller)
  obtain a tls1 w1 where g: "Fiber_GetThis (tls, w) = (a, tls1, w1)" by (metis prod_cases3)
  from counted_GetThis [OF inv g] step At_Entry g show ?thesis
    by (auto simp: fiber_step_def split: option.splits intro!: counted_upd)
next
  case (At_Callback caller a p)
  obtain e1 oc where oc: "prog p e = (e1, oc)" by (cases "prog p e")
  obtain b tls1 w1 where g: "Fiber_GetThis (tls, w) = (b, tls1, w1)" by (metis prod_cases3)
  from counted_GetThis [OF inv g] step At_Callback oc g inv show ?thesis
    by (cases oc) (auto simp: fiber_step_def Fiber_YieldToReady_def Fiber_YieldToHold_def split: if_splits
        intro!: counted_upd)
next
  case (At_Yield caller a p)
  with step inv show ?thesis
    by (auto simp: fiber_step_def Fiber_swapOut_def Let_def split: option.splits intro!: counted_upd)
next
  case (At_Exit caller a)
  with step inv show ?thesis
    by (auto simp: fiber_step_def Fiber_swapOut_def Fiber_back_def Let_def split: option.splits if_splits
        intro!: counted_upd)
qed (use step inv in \<open>simp add: fiber_step_def\<close>)

lemma fiber_op_counted:
  assumes inv: "fiber_inv w" and room: "unat (s_fiber_id w) + 1 < 2 ^ 64"
    and step: "fiber_op_step conf prog op (c, (tls, w), e) = Inr (c', (tls', w'), e')"
  shows "counted w w'"
proof (cases op)
  case (New_Fiber cb sz caller)
  let ?i = "s_fiber_id w + 1"
  have i: "unat ?i = unat (s_fiber_id w) + 1" using room by (simp add: unat_word_ariths)
  then have lt: "s_fiber_id w < ?i" "0 < ?i" by (simp_all add: word_less_nat_alt)
  let ?f = "\<lparr>f_id = ?i, f_stacksize = (if sz \<noteq> 0 then ucast sz else conf), f_state = INIT,
      f_ctx = (if \<not> caller then Ctx_MainFunc else Ctx_CallerMainFunc), f_stack = True, f_cb = cb\<rparr>"
  have "w' = w\<lparr>s_fiber_id := ?i, s_fiber_count := s_fiber_count w + 1,
      fw_fibers := (fw_fibers w)(fw_next w \<mapsto> ?f), fw_next := fw_next w + 1\<rparr>"
    using step New_Fiber by (simp add: Fiber_ctor_def Let_def new_fiber_def)
  then show ?thesis using fiber_inv_new [OF inv, of ?i ?f] lt i by (simp add: counted_def)
next
  case Get_This
  then show ?thesis using step counted_GetThis [OF inv] by (cases "Fiber_GetThis (tls, w)") auto
next
  case (Delete_Fiber a)
  then show ?thesis
    using step fiber_inv_delete [OF inv, of a] by (auto simp: Fiber_dtor_def counted_def split: option.splits if_splits)
next
  case (Reset_Fiber cb a)
  then show ?thesis
    using step inv by (auto simp: Fiber_reset_def split: option.splits if_splits intro!: counted_upd)
next
  case (Swap_In a)
  then show ?thesis
    using step inv
    by (auto simp: Fiber_swapIn_def Let_def split: option.splits if_splits intro!: counted_upd)
next
  case (Call_Fiber a)
  then show ?thesis
    using step inv
    by (auto simp: Fiber_call_def Let_def split: option.splits if_splits intro!: counted_upd)
next
  case Go_On
  then show ?thesis using step counted_step [OF inv] by simp
qed (use step inv in simp)

lemma fiber_ops_inv:
  assumes "fiber_inv w" and "unat (s_fiber_id w) + length ops < 2 ^ 64"
    and "fold_r (fiber_thread_op conf prog) ops (ths, w, e) = Inr (ths', w', e')"
  shows "fiber_inv w' \<and> fw_next w' \<le> fw_next w + length ops"
  using assms
proof (induction ops arbitrary: ths w e)
  case (Cons op ops)
  then obtain ths1 w1 e1 where w1: "fiber_thread_op conf prog op (ths, w, e) = Inr (ths1, w1, e1)"
    "fold_r (fiber_thread_op conf prog) ops (ths1, w1, e1) = Inr (ths', w', e')" by auto
  have "counted w w1"
    using w1(1) Cons.prems(1,2) by (auto simp: fiber_thread_op_def intro: fiber_op_counted split: if_splits prod.splits)
  then have c: "fiber_inv w1" "unat (s_fiber_id w1) \<le> unat (s_fiber_id w) + 1" "fw_next w1 \<le> fw_next w + 1"
    by (simp_all add: counted_def)
  with Cons.prems(2) have "unat (s_fiber_id w1) + length ops < 2 ^ 64" by simp
  from Cons.IH [OF c(1) this w1(2)] c(3) show ?case by simp
qed simp

text \<open>C38: Fibers are counted. Threads construct and destroy fibers, reset them, enter them by \<open>swapIn\<close> and \<open>call\<close> from
  outside a fiber, and run them through their entry functions and callbacks, whatever these do: they yield,
  return, throw, and make other fibers. After fewer than \<open>2^64\<close> such operations in any order, none of which
  has failed an assertion, \<open>TotalFibers\<close> is exactly the number of fibers that exist; fibers with a stack have ids that are
  different from each other and not 0, and the fibers of the threads themselves have id 0.\<close>

theorem fiber_counters:
  assumes "length ops < 2 ^ 64"
    and "fold_r (fiber_thread_op conf prog) ops (fiber_threads_init n e) = Inr (ths, w, e')"
  shows "unat (Fiber_TotalFibers w) = card (dom (fw_fibers w)) \<and>
         (\<forall>a f. fw_fibers w a = Some f \<longrightarrow> (f_stack f \<longleftrightarrow> f_id f \<noteq> 0)) \<and>
         (\<forall>a b f g. fw_fibers w a = Some f \<and> fw_fibers w b = Some g \<and> f_stack f \<and> a \<noteq> b \<longrightarrow> f_id f \<noteq> f_id g)"
proof -
  have inv: "fiber_inv w" and "fw_next w \<le> length ops"
    using fiber_ops_inv [OF fiber_inv_init _ assms(2) [unfolded fiber_threads_init_def]] assms(1)
    by (simp_all add: fiber_world_init_def)
  moreover have "card (dom (fw_fibers w)) \<le> fw_next w"
    using card_mono [of "{..<fw_next w}" "dom (fw_fibers w)"] fiber_inv_entry(1) [OF inv] by auto
  ultimately have "unat (s_fiber_count w) = card (dom (fw_fibers w))"
    using assms(1) by (simp add: fiber_inv_count unat_of_nat take_bit_nat_eq_self)
  moreover have "\<And>a f. fw_fibers w a = Some f \<Longrightarrow> f_stack f \<longleftrightarrow> f_id f \<noteq> 0"
    "\<And>a b f g. fw_fibers w a = Some f \<Longrightarrow> fw_fibers w b = Some g \<Longrightarrow> f_stack f \<Longrightarrow> f_id f = f_id g \<Longrightarrow> a = b"
    using inv fiber_inv_entry(3) fiber_inv_unique by (auto simp: word_gt_0)
  ultimately show ?thesis unfolding Fiber_TotalFibers_def by blast
qed

text \<open>
  A thread makes two fibers and runs them until the one has returned and the other has thrown, while another thread
  gets its own; the first one is then destroyed, with the state TERM, and the second one with EXCEPT.
\<close>

definition demo_fiber_ops :: "(nat \<times> nat fiber_op) list" where
  "demo_fiber_ops =
     [(0, Get_This), (0, Set_Main_Fiber 0), (0, New_Fiber (Some 2) 0 False), (0, New_Fiber (Some 3) 0 False),
      (0, Swap_In 1), (0, Go_On), (1, Get_This), (0, Go_On), (0, Go_On),
      (0, Swap_In 2), (0, Go_On), (0, Go_On), (0, Go_On), (1, Delete_Fiber 1), (0, Delete_Fiber 2)]"

theorem fiber_counters_witness:
  "\<exists>ths w e. fold_r (fiber_thread_op 1048576 demo_prog) (take 13 demo_fiber_ops) (fiber_threads_init 2 []) = Inr (ths, w, e) \<and>
     state_at w 1 = Some TERM' \<and> state_at w 2 = Some EXCEPT \<and> unat (Fiber_TotalFibers w) = 4 \<and>
     (\<exists>ths' w' e'. fold_r (fiber_thread_op 1048576 demo_prog) demo_fiber_ops (fiber_threads_init 2 []) = Inr (ths', w', e') \<and>
        dom (fw_fibers w') = {0, 3} \<and> unat (Fiber_TotalFibers w') = 2)"
proof -
  let ?run = "\<lambda>ops. fold_r (fiber_thread_op 1048576 demo_prog) ops (fiber_threads_init 2 [])"
  note defs = demo_fiber_ops_def fiber_threads_init_def fiber_thread_op_def Fiber_GetThis_def fiber_tls_init_def
    fiber_world_init_def Fiber_ctor_main_def new_fiber_def Fiber_SetThis_def Fiber_ctor_def Let_def Fiber_dtor_def
    Fiber_swapIn_def Fiber_swapOut_def jump_def fiber_step_def demo_prog_def upd_fiber_def numeral_2_eq_2
  have "\<exists>ths w e. ?run (take 13 demo_fiber_ops) = Inr (ths, w, e) \<and> state_at w 1 = Some TERM' \<and>
      state_at w 2 = Some EXCEPT \<and> dom (fw_fibers w) = {0, 1, 2, 3}"
    by (simp add: defs state_at_def numeral_3_eq_3) auto
  then obtain ths w e where w: "?run (take 13 demo_fiber_ops) = Inr (ths, w, e)" "state_at w 1 = Some TERM'"
    "state_at w 2 = Some EXCEPT" "dom (fw_fibers w) = {0, 1, 2, 3}" by blast
  have "\<exists>ths w e. ?run demo_fiber_ops = Inr (ths, w, e) \<and> dom (fw_fibers w) = {0, 3}"
    by (simp add: defs numeral_3_eq_3) auto
  then obtain ths' w' e' where w': "?run demo_fiber_ops = Inr (ths', w', e')" "dom (fw_fibers w') = {0, 3}" by blast
  have len: "length (take 13 demo_fiber_ops) < 2 ^ 64" "length demo_fiber_ops < 2 ^ 64" by (simp_all add: demo_fiber_ops_def)
  from fiber_counters [OF len(1) w(1)] fiber_counters [OF len(2) w'(1)] w w' show ?thesis by auto
qed

text \<open>A thread in which no scheduler runs has no main fiber in scheduler.cpp, and \<open>swapIn\<close> on it
  dereferences null, whatever the fiber; \<open>GetThis\<close> does not change that.\<close>

theorem swap_in_needs_scheduler:
  assumes "t_main_fiber tls = None" and "Fiber_GetThis (tls, w) = (m, tls', w')" and "state_at w' a \<noteq> Some EXEC"
  shows "\<exists>d. Fiber_swapIn a (tls', w') = Inl (Undefined d)"
proof -
  have "t_main_fiber tls' = None"
    using assms(1,2)
    by (auto simp: Fiber_GetThis_def Fiber_ctor_main_def new_fiber_def Fiber_SetThis_def split: option.splits)
  then show ?thesis
    using assms(3) by (auto simp: Fiber_swapIn_def Let_def Fiber_SetThis_def state_at_def split: option.splits)
qed

theorem swap_in_needs_scheduler_witness:
  "\<exists>d tls (w :: nat fiber_world). Fiber_swapIn 1 (tls, w) = Inl (Undefined d)"
proof -
  have "t_main_fiber fiber_tls_init = None" by (simp add: fiber_tls_init_def)
  moreover obtain m tls and w :: "nat fiber_world"
    where g: "Fiber_GetThis (fiber_tls_init, fiber_world_init) = (m, tls, w)"
    using prod_cases3 by blast
  moreover have "state_at w 1 \<noteq> Some EXEC"
    using g by (auto simp: Fiber_GetThis_def fiber_tls_init_def fiber_world_init_def Fiber_ctor_main_def new_fiber_def
        state_at_def)
  ultimately show ?thesis using swap_in_needs_scheduler by metis
qed

end
