(* ===== verification/Fiber_Config.thy ===== *)
theory Fiber_Config
  imports Fiber Config
begin

text \<open>
  The stack size of fibers: the variable \<open>fiber.stack_size\<close> of \<open>src/fiber.cpp\<close>, a \<open>ConfigVar<uint32_t>\<close> with the
  default of one megabyte, and the constructor of \<open>Fiber\<close> that reads it. Values of other variables are left
  out, so the registry holds variables of one type; \<open>T\<close> is the type argument with its casts.
\<close>

section \<open>The variable and the constructor\<close>

definition g_fiber_stack_size ::
  "32 word vtype \<Rightarrow> (32 word, 'c, 'w) config_world \<Rightarrow> (32 word, 'c, 'w) config_world \<times> nat option result" where
  "g_fiber_stack_size T w = Config_Lookup T ''fiber.stack_size'' (1024 * 1024) ''fiber stack size'' w"

definition Fiber_ctor_configured ::
  "nat \<Rightarrow> (32 word, 'c, 'w) config_world \<Rightarrow> 'p option \<Rightarrow> 64 word \<Rightarrow> bool \<Rightarrow> 'p fiber_world \<Rightarrow>
   (nat \<times> 'p fiber_world) result" where
  "Fiber_ctor_configured g w cb stacksize use_caller fw =
     (case cw_vars w g of
        None \<Rightarrow> Inl (Undefined ''g_fiber_stack_size'')
      | Some cv \<Rightarrow> Inr (Fiber_ctor (ConfigVar_getValue cv) cb stacksize use_caller fw))"

section \<open>Lemmas\<close>

lemma stack_size_name [simp]: "valid_name ''fiber.stack_size''" "valid_name ''fiber''"
  by (simp_all add: valid_name_def name_chars_def)

lemma g_fiber_stack_size_init:
  "g_fiber_stack_size T (config_init e) =
     (\<lparr>cw_vars = [0 \<mapsto> ConfigVar_ctor T ''fiber.stack_size'' (1024 * 1024) ''fiber stack size''], cw_next = 1,
       s_datas = [(''fiber.stack_size'', 0)], s_fun_ids = (\<lambda>_. 0), cw_env = e\<rparr>, Inr (Some 0))"
  by (simp add: g_fiber_stack_size_def Config_Lookup_def config_init_def)

lemma stack_size_alive:
  assumes "g_fiber_stack_size T (config_init e) = (w0, Inr (Some g))"
    and "w = fold (config_exec y fuel fx call) calls w0"
  shows "config_wf w \<and> smap_find ''fiber.stack_size'' (s_datas w) = Some g \<and>
         (\<exists>cv. cw_vars w g = Some cv \<and> m_name cv = ''fiber.stack_size'')"
proof -
  have "config_wf w0"
    using config_wf_Lookup [of "config_init e"] assms(1) unfolding g_fiber_stack_size_def by (metis config_wf_init fst_conv)
  moreover have "smap_find ''fiber.stack_size'' (s_datas w0) = Some g"
    using assms(1) by (auto simp: g_fiber_stack_size_init smap_find_def)
  ultimately have "config_wf w" "smap_find ''fiber.stack_size'' (s_datas w) = Some g"
    using config_run_wf [of w0 y fuel fx call calls] assms(2) by (auto simp: datas_grow_def)
  with config_wf_find [OF this] show ?thesis by blast
qed

lemma Fiber_ctor_stacksize:
  "\<exists>f b fw'. Fiber_ctor conf cb stacksize use_caller fw = (b, fw') \<and> fw_fibers fw' b = Some f \<and>
     unat (f_stacksize f) = (if stacksize = 0 then unat conf else unat stacksize mod 2 ^ 32)"
  by (auto simp: Fiber_ctor_def new_fiber_def Let_def unsigned_ucast_eq take_bit_eq_mod)

section \<open>Properties\<close>

text \<open>C31: The stack size a new fiber has. From static initialisation on, whatever is looked up, loaded and set:
  a fiber constructed without a stack size has the current value of \<open>fiber.stack_size\<close>, and after a document is
  loaded (quiet listeners, casts that fail with a \<open>std::exception\<close>) that value is what the document's
  entries under that name make of the old one. A stack size that is given is reduced to 32 bits: \<open>2^32\<close> gives
  a fiber a stack of no bytes, and so does the value 0 of the variable.\<close>

theorem fiber_stack_configured:
  assumes "g_fiber_stack_size T (config_init e) = (w0, Inr (Some g))"
    and "w = fold (config_exec y fuel fx call) calls w0"
  shows "\<exists>cv. cw_vars w g = Some cv \<and> m_name cv = ''fiber.stack_size'' \<and>
           (\<exists>b fw' f. Fiber_ctor_configured g w cb stacksize use_caller fw = Inr (b, fw') \<and> fw_fibers fw' b = Some f \<and>
              unat (f_stacksize f) = (if stacksize = 0 then unat (m_val cv) else unat stacksize mod 2 ^ 32)) \<and>
           (quiet call \<and> std_casts w \<and> ListAllMember y fuel [] root = Some nodes \<and>
              (\<forall>(p, n)\<in>set nodes. \<exists>s. node_text y n = Inr s) \<longrightarrow>
            (\<exists>cv'. cw_vars (fst (Config_LoadFromYaml y fuel fx call root w)) g = Some cv' \<and>
               m_val cv' = loaded y ''fiber.stack_size'' (m_type cv) nodes (m_val cv)))"
proof -
  obtain cv where wf: "config_wf w" "smap_find ''fiber.stack_size'' (s_datas w) = Some g"
    and cv: "cw_vars w g = Some cv" "m_name cv = ''fiber.stack_size''"
    using stack_size_alive [OF assms] by blast
  have "\<exists>cv'. cw_vars (fst (Config_LoadFromYaml y fuel fx call root w)) g = Some cv' \<and>
      m_val cv' = loaded y ''fiber.stack_size'' (m_type cv) nodes (m_val cv)"
    if q: "quiet call" "std_casts w" and all: "ListAllMember y fuel [] root = Some nodes"
      and t: "\<forall>(p, n)\<in>set nodes. \<exists>s. node_text y n = Inr s"
  proof -
    have "\<forall>(p, n)\<in>set nodes. valid_name p \<and> (\<exists>s. node_text y n = Inr s)" using ListAllMember_valid [OF all] t by fast
    from load_nodes_quiet [OF wf(1) q this, of fx] cv wf(2) all show ?thesis
      by (auto simp: Config_LoadFromYaml_def set_loaded_def)
  qed
  with cv Fiber_ctor_stacksize [of "m_val cv" cb stacksize use_caller fw] show ?thesis
    by (auto simp: Fiber_ctor_configured_def ConfigVar_getValue_def)
qed

text \<open>Numbers written in unary, and a document that sets the variable to 3.\<close>

definition size_type :: "32 word vtype" where
  "size_type = \<lparr>vt_name = ''j'',
     vt_from_str = (\<lambda>s. if s = [] then Inl (Lib_Exception ''bad lexical cast'') else Inr (of_nat (length s))),
     vt_to_str = (\<lambda>n. Inr (replicate (unat n) CHR ''1'')), vt_eq = (=), vt_prints = (\<lambda>s. [])\<rparr>"

definition size_map :: doc where
  "size_map = Doc CHR ''m'' [] [Doc CHR ''e'' ''stack_size'' [Doc CHR ''s'' ''111'' []]]"

definition size_doc :: doc where
  "size_doc = Doc CHR ''m'' [] [Doc CHR ''e'' ''fiber'' [size_map]]"

definition size_call :: "(32 word, unit, unit) listener" where
  "size_call c old new w = (w, None)"

theorem fiber_stack_configured_witness:
  "\<exists>w g cv. g_fiber_stack_size size_type (config_init ()) = (w, Inr (Some g)) \<and>
     cw_vars (fst (Config_LoadFromYaml doc_yaml 9 no_effects size_call size_doc w)) g = Some cv \<and> m_val cv = 3"
proof -
  let ?w = "fst (g_fiber_stack_size size_type (config_init ())) :: (32 word, unit, unit) config_world"
  have g: "g_fiber_stack_size size_type (config_init ()) = (?w, Inr (Some 0))" by (simp add: g_fiber_stack_size_init)
  have var: "cw_vars ?w 0 = Some (ConfigVar_ctor size_type ''fiber.stack_size'' (1024 * 1024) ''fiber stack size'')"
    by (simp add: g_fiber_stack_size_init)
  have std: "std_casts ?w"
    by (auto simp: g_fiber_stack_size_init std_casts_def ConfigVar_ctor_def size_type_def split: if_splits)
  have q: "quiet size_call" by (simp add: quiet_def size_call_def)
  define nodes where "nodes = [([], size_doc), (''fiber'', size_map), (''fiber.stack_size'', Doc CHR ''s'' ''111'' [])]"
  have nodes: "ListAllMember doc_yaml 9 [] size_doc = Some nodes"
    by (simp add: nodes_def size_doc_def size_map_def doc_yaml_def eval_nat_numeral member_prefix_def)
  have texts: "\<forall>(p, n)\<in>set nodes. \<exists>s. node_text doc_yaml n = Inr s"
    by (auto simp: node_text_def doc_yaml_def)
  have val: "loaded doc_yaml ''fiber.stack_size'' size_type nodes (1024 * 1024) = 3"
    by (simp add: loaded_def nodes_def doc_yaml_def node_text_def assign_def size_type_def)
  have "?w = fold (config_exec doc_yaml 9 no_effects size_call) [] ?w" by simp
  from fiber_stack_configured [OF g this, of "None :: unit option" 0 False fiber_world_init size_doc nodes]
  obtain cv cv' where cv: "cw_vars ?w 0 = Some cv"
    "cw_vars (fst (Config_LoadFromYaml doc_yaml 9 no_effects size_call size_doc ?w)) 0 = Some cv'"
    "m_val cv' = loaded doc_yaml ''fiber.stack_size'' (m_type cv) nodes (m_val cv)"
    using q std nodes texts by blast
  have "m_type cv = size_type" "m_val cv = 1024 * 1024"
    using cv(1) var by (auto simp: ConfigVar_ctor_def)
  with cv val have "\<exists>cv. cw_vars (fst (Config_LoadFromYaml doc_yaml 9 no_effects size_call size_doc ?w)) 0 = Some cv \<and> m_val cv = 3"
    by simp
  with g show ?thesis by blast
qed

end
