(* ===== verification/Scheduler.thy ===== *)
theory Scheduler
  imports Fiber
begin

text \<open>
  \<open>Scheduler\<close> of \<open>src/scheduler.h\<close> and \<open>src/scheduler.cpp\<close>: the task queue, the counters, and any
  number of threads in \<open>run\<close>, interleaved. A step of a thread is one critical section or one statement that
  another thread can observe; \<open>sched_step\<close> is executable, so a run is a list of thread numbers. What the
  user's callbacks do is a parameter: at a point \<open>p\<close> a callback works on the rest of the program, schedules a
  task, yields, returns or throws. Threads are created by \<open>start\<close> with ids the system chooses; their handshake
  with the creator is in \<open>Threads\<close>. \<open>tickle\<close> only logs, so it is counted.
\<close>

section \<open>State\<close>

record 'p task =
  ft_fiber :: "nat option"
  ft_cb :: "'p option"
  ft_thread :: int

text \<open>The code a fiber can execute: a user's callback, \<open>idle\<close>, or \<open>run\<close> in the root fiber.\<close>

datatype 'p code = User 'p | Idle_Loop | Run_In_Root

datatype 'p act =
    A_Work 'p
  | A_Schedule "'p task" 'p
  | A_Schedule_This int 'p
  | A_Yield_Ready 'p
  | A_Yield_Hold 'p
  | A_Return
  | A_Throw error

type_synonym ('p, 'w) user_prog = "'p \<Rightarrow> 'w \<Rightarrow> 'w \<times> 'p act"

text \<open>
  Which \<open>swapIn\<close> of \<open>run\<close> a thread is in or has returned from, and the statement of \<open>run\<close> that comes next.
  \<open>Run_Check\<close> is the test of the fiber's state after \<open>m_active_thread_count\<close> has been decreased.
\<close>

datatype kind = K_Fiber | K_Cb | K_Idle

datatype 'p run_pc =
    Run_Start
  | Run_Scan
  | Run_Task "'p task option"
  | Run_In kind nat
  | Run_After kind nat
  | Run_Check kind nat
  | Run_Done

record 'p sthread =
  th_id :: int
  th_root :: bool
  th_tls :: fiber_tls
  th_pc :: "'p run_pc"
  th_ctl :: "'p code control"
  th_idle :: "nat option"
  th_cb_fiber :: "nat option"

text \<open>
  \<open>sc_runs\<close> are the executions of \<open>run\<close>, by threads of the pool and in the root fiber, those that have ended included;
  \<open>m_threads\<close> has the positions in it of the threads in the vector of that name.
\<close>

record ('p, 'w) sched =
  sc_world :: "'p code fiber_world"
  m_fibers :: "'p task list"
  m_active :: int
  m_idle :: int
  m_stopping :: bool
  m_auto_stop :: bool
  m_root_thread_id :: int
  m_root_fiber :: "nat option"
  m_thread_count :: nat
  m_thread_ids :: "int list"
  m_threads :: "nat list"
  sc_runs :: "'p sthread list"
  sc_tickles :: nat
  sc_env :: 'w

section \<open>Scheduling\<close>

definition cb_task :: "'p \<Rightarrow> int \<Rightarrow> 'p task" where
  "cb_task p thread = \<lparr>ft_fiber = None, ft_cb = Some p, ft_thread = thread\<rparr>"

definition fiber_task :: "nat \<Rightarrow> int \<Rightarrow> 'p task" where
  "fiber_task a thread = \<lparr>ft_fiber = Some a, ft_cb = None, ft_thread = thread\<rparr>"

definition task_empty :: "'p task \<Rightarrow> bool" where
  "task_empty ft \<longleftrightarrow> ft_fiber ft = None \<and> ft_cb ft = None"

definition Scheduler_tickle :: "('p, 'w) sched \<Rightarrow> ('p, 'w) sched" where
  "Scheduler_tickle s = s\<lparr>sc_tickles := sc_tickles s + 1\<rparr>"

definition Scheduler_scheduleNoLock :: "'p task \<Rightarrow> ('p, 'w) sched \<Rightarrow> bool \<times> ('p, 'w) sched" where
  "Scheduler_scheduleNoLock ft s =
     (let need_tickle = m_fibers s = [] in
      (need_tickle, if \<not> task_empty ft then s\<lparr>m_fibers := m_fibers s @ [ft]\<rparr> else s))"

definition Scheduler_schedule :: "'p task \<Rightarrow> ('p, 'w) sched \<Rightarrow> ('p, 'w) sched" where
  "Scheduler_schedule ft s =
     (case Scheduler_scheduleNoLock ft s of
        (need_tickle, s') \<Rightarrow> if need_tickle then Scheduler_tickle s' else s')"

text \<open>The range version takes the fibers or callbacks out of the caller's container.\<close>

fun schedule_all :: "'p task list \<Rightarrow> bool \<Rightarrow> ('p, 'w) sched \<Rightarrow> bool \<times> ('p, 'w) sched" where
  "schedule_all [] need_tickle s = (need_tickle, s)"
| "schedule_all (ft # fts) need_tickle s =
     (case Scheduler_scheduleNoLock (ft\<lparr>ft_thread := -1\<rparr>) s of
        (nt, s') \<Rightarrow> schedule_all fts (nt \<or> need_tickle) s')"

definition Scheduler_schedule_range :: "'p task list \<Rightarrow> ('p, 'w) sched \<Rightarrow> 'p task list \<times> ('p, 'w) sched" where
  "Scheduler_schedule_range fts s =
     (case schedule_all fts False s of
        (need_tickle, s') \<Rightarrow>
          (map (\<lambda>ft. ft\<lparr>ft_fiber := None, ft_cb := None\<rparr>) fts, if need_tickle then Scheduler_tickle s' else s'))"

definition Scheduler_stopping :: "('p, 'w) sched \<Rightarrow> bool" where
  "Scheduler_stopping s \<longleftrightarrow> m_auto_stop s \<and> m_stopping s \<and> m_fibers s = [] \<and> m_active s = 0"

text \<open>
  The loop over the queue under the lock: the task taken, whether a task for another thread was passed over,
  and the queue that is left.
\<close>

fun scan_queue ::
  "int \<Rightarrow> (nat \<Rightarrow> fiber_state option) \<Rightarrow> 'p task list \<Rightarrow> ('p task option \<times> bool \<times> 'p task list) result" where
  "scan_queue tid st [] = Inr (None, False, [])"
| "scan_queue tid st (ft # fts) =
     (if ft_thread ft \<noteq> -1 \<and> ft_thread ft \<noteq> tid
      then bind_r (scan_queue tid st fts) (\<lambda>(r, tickle_me, q). Inr (r, True, ft # q))
      else if task_empty ft then Inl (Assert_Failed ''iter->fiber || iter->cb'')
      else if ft_fiber ft \<noteq> None \<and> st (the (ft_fiber ft)) = Some EXEC
      then bind_r (scan_queue tid st fts) (\<lambda>(r, tickle_me, q). Inr (r, tickle_me, ft # q))
      else Inr (Some ft, False, fts))"

section \<open>One step of a thread\<close>

text \<open>What the code in the fiber \<open>cur\<close> does next.\<close>

fun code_step :: "('p, 'w) user_prog \<Rightarrow> nat \<Rightarrow> ('p code, ('p, 'w) sched) prog" where
  "code_step prog cur (User p) s =
     (case prog p (sc_env s) of
        (e, A_Work p') \<Rightarrow> (s\<lparr>sc_env := e\<rparr>, Work (User p'))
      | (e, A_Schedule ft p') \<Rightarrow> (Scheduler_schedule ft (s\<lparr>sc_env := e\<rparr>), Work (User p'))
      | (e, A_Schedule_This thread p') \<Rightarrow>
          (Scheduler_schedule (fiber_task cur thread) (s\<lparr>sc_env := e\<rparr>), Work (User p'))
      | (e, A_Yield_Ready p') \<Rightarrow> (s\<lparr>sc_env := e\<rparr>, Yield_Ready (User p'))
      | (e, A_Yield_Hold p') \<Rightarrow> (s\<lparr>sc_env := e\<rparr>, Yield_Hold (User p'))
      | (e, A_Return) \<Rightarrow> (s\<lparr>sc_env := e\<rparr>, Return)
      | (e, A_Throw x) \<Rightarrow> (s\<lparr>sc_env := e\<rparr>, Throw x))"
| "code_step prog cur Idle_Loop s = (if Scheduler_stopping s then (s, Return) else (s, Yield_Hold Idle_Loop))"
| "code_step prog cur Run_In_Root s = (s, Work Run_In_Root)"

definition set_thread :: "nat \<Rightarrow> 'p sthread \<Rightarrow> ('p, 'w) sched \<Rightarrow> ('p, 'w) sched" where
  "set_thread i th s = s\<lparr>sc_runs := (sc_runs s)[i := th]\<rparr>"

text \<open>Enter a fiber, on the way to \<open>pc\<close>.\<close>

definition enter_fiber ::
  "nat \<Rightarrow> 'p sthread \<Rightarrow> kind \<Rightarrow> nat \<Rightarrow> ('p, 'w) sched \<Rightarrow> ('p, 'w) sched result" where
  "enter_fiber i th k a s =
     bind_r (Fiber_swapIn a (th_tls th, sc_world s)) (\<lambda>(ctl, tls, w).
       Inr (set_thread i (th\<lparr>th_tls := tls, th_ctl := ctl, th_pc := Run_In k a\<rparr>) (s\<lparr>sc_world := w\<rparr>)))"

text \<open>The beginning of \<open>run\<close>: the main fiber of a thread of the pool, and the idle fiber.\<close>

definition run_start :: "32 word \<Rightarrow> nat \<Rightarrow> 'p sthread \<Rightarrow> ('p, 'w) sched \<Rightarrow> ('p, 'w) sched" where
  "run_start conf i th s =
     (case (if th_id th \<noteq> m_root_thread_id s
            then (case Fiber_GetThis (th_tls th, sc_world s) of
                    (a, tls, w) \<Rightarrow> (tls\<lparr>t_main_fiber := Some a\<rparr>, w))
            else (th_tls th, sc_world s)) of
        (tls, w) \<Rightarrow>
          (case Fiber_ctor conf (Some Idle_Loop) 0 False w of
             (a, w') \<Rightarrow>
               set_thread i (th\<lparr>th_tls := tls, th_idle := Some a, th_cb_fiber := None, th_pc := Run_Scan\<rparr>)
                 (s\<lparr>sc_world := w'\<rparr>)))"

definition run_scan :: "nat \<Rightarrow> 'p sthread \<Rightarrow> ('p, 'w) sched \<Rightarrow> ('p, 'w) sched result" where
  "run_scan i th s =
     bind_r (scan_queue (th_id th) (state_at (sc_world s)) (m_fibers s)) (\<lambda>(r, tickle_me, q).
       let s = s\<lparr>m_fibers := q, m_active := m_active s + (if r \<noteq> None then 1 else 0)\<rparr>;
           s = (if tickle_me then Scheduler_tickle s else s) in
       Inr (set_thread i (th\<lparr>th_pc := Run_Task r\<rparr>) s))"

text \<open>
  The end of \<open>run\<close>. In the root fiber \<open>CallerMainFunc\<close> goes on: it marks the fiber as ended and switches back to
  the thread that called \<open>stop\<close>.
\<close>

definition run_done :: "nat \<Rightarrow> 'p sthread \<Rightarrow> ('p, 'w) sched \<Rightarrow> ('p, 'w) sched result" where
  "run_done i th s =
     (if \<not> th_root th then Inr (set_thread i (th\<lparr>th_pc := Run_Done\<rparr>) s)
      else
        (case m_root_fiber s of
           None \<Rightarrow> Inl (Undefined ''m_root_fiber'')
         | Some a \<Rightarrow>
             (let w = upd_fiber a (\<lambda>f. f\<lparr>f_cb := None, f_state := TERM'\<rparr>) (sc_world s) in
              bind_r (Fiber_back a Ctx_Past_End (th_tls th, w)) (\<lambda>(tls, w).
                Inr (set_thread i (th\<lparr>th_tls := tls, th_pc := Run_Done\<rparr>) (s\<lparr>sc_world := w\<rparr>))))))"

text \<open>The branches on the task; \<open>None\<close> is the \<open>ft\<close> that the loop reset and did not fill.\<close>

definition run_task :: "32 word \<Rightarrow> nat \<Rightarrow> 'p sthread \<Rightarrow> 'p task option \<Rightarrow> ('p, 'w) sched \<Rightarrow> ('p, 'w) sched result" where
  "run_task conf i th r s =
     (let st = state_at (sc_world s) in
      case r of
        Some ft \<Rightarrow>
          if ft_fiber ft \<noteq> None \<and> st (the (ft_fiber ft)) \<noteq> Some TERM' \<and> st (the (ft_fiber ft)) \<noteq> Some EXCEPT
          then enter_fiber i th K_Fiber (the (ft_fiber ft)) s
          else if ft_cb ft \<noteq> None
          then
            (case th_cb_fiber th of
               Some a \<Rightarrow>
                 bind_r (Fiber_reset (map_option User (ft_cb ft)) a (sc_world s)) (\<lambda>w.
                   enter_fiber i th K_Cb a (s\<lparr>sc_world := w\<rparr>))
             | None \<Rightarrow>
                 (case Fiber_ctor conf (map_option User (ft_cb ft)) 0 False (sc_world s) of
                    (a, w) \<Rightarrow> enter_fiber i (th\<lparr>th_cb_fiber := Some a\<rparr>) K_Cb a (s\<lparr>sc_world := w\<rparr>)))
          else Inr (set_thread i (th\<lparr>th_pc := Run_Scan\<rparr>) (s\<lparr>m_active := m_active s - 1\<rparr>))
      | None \<Rightarrow>
          (case th_idle th of
             None \<Rightarrow> Inl (Undefined ''idle_fiber'')
           | Some a \<Rightarrow>
               if st a = Some TERM' then run_done i th s
               else enter_fiber i th K_Idle a (s\<lparr>m_idle := m_idle s + 1\<rparr>)))"

text \<open>One step inside the fiber.\<close>

definition run_in ::
  "('p, 'w) user_prog \<Rightarrow> nat \<Rightarrow> 'p sthread \<Rightarrow> kind \<Rightarrow> nat \<Rightarrow> ('p, 'w) sched \<Rightarrow> ('p, 'w) sched result" where
  "run_in prog i th k a s =
     bind_r (fiber_step (code_step prog a) (th_ctl th, (th_tls th, sc_world s), s)) (\<lambda>(ctl, (tls, w), s').
       Inr (set_thread i (th\<lparr>th_tls := tls, th_ctl := ctl,
                            th_pc := (if ctl = Outside then Run_After k a else Run_In k a)\<rparr>)
              (s'\<lparr>sc_world := w\<rparr>)))"

definition run_after :: "nat \<Rightarrow> 'p sthread \<Rightarrow> kind \<Rightarrow> nat \<Rightarrow> ('p, 'w) sched \<Rightarrow> ('p, 'w) sched" where
  "run_after i th k a s =
     set_thread i (th\<lparr>th_pc := Run_Check k a\<rparr>)
       (if k = K_Idle then s\<lparr>m_idle := m_idle s - 1\<rparr> else s\<lparr>m_active := m_active s - 1\<rparr>)"

definition hold_fiber :: "nat \<Rightarrow> ('p, 'w) sched \<Rightarrow> ('p, 'w) sched" where
  "hold_fiber a s = s\<lparr>sc_world := upd_fiber a (\<lambda>f. f\<lparr>f_state := HOLD\<rparr>) (sc_world s)\<rparr>"

definition run_check :: "nat \<Rightarrow> 'p sthread \<Rightarrow> kind \<Rightarrow> nat \<Rightarrow> ('p, 'w) sched \<Rightarrow> ('p, 'w) sched result" where
  "run_check i th k a s =
     (let st = state_at (sc_world s) a; ended = (st = Some TERM' \<or> st = Some EXCEPT) in
      case k of
        K_Fiber \<Rightarrow>
          Inr (set_thread i (th\<lparr>th_pc := Run_Scan\<rparr>)
                 (if st = Some READY then Scheduler_schedule (fiber_task a (-1)) s
                  else if \<not> ended then hold_fiber a s else s))
      | K_Cb \<Rightarrow>
          if st = Some READY
          then Inr (set_thread i (th\<lparr>th_pc := Run_Scan, th_cb_fiber := None\<rparr>)
                      (Scheduler_schedule (fiber_task a (-1)) s))
          else if ended
          then bind_r (Fiber_reset None a (sc_world s)) (\<lambda>w.
                 Inr (set_thread i (th\<lparr>th_pc := Run_Scan\<rparr>) (s\<lparr>sc_world := w\<rparr>)))
          else Inr (set_thread i (th\<lparr>th_pc := Run_Scan, th_cb_fiber := None\<rparr>) (hold_fiber a s))
      | K_Idle \<Rightarrow>
          Inr (set_thread i (th\<lparr>th_pc := Run_Scan\<rparr>) (if \<not> ended then hold_fiber a s else s)))"

definition thread_run ::
  "('p, 'w) user_prog \<Rightarrow> 32 word \<Rightarrow> nat \<Rightarrow> 'p sthread \<Rightarrow> ('p, 'w) sched \<Rightarrow> ('p, 'w) sched result" where
  "thread_run prog conf i th s =
     (case th_pc th of
        Run_Start \<Rightarrow> Inr (run_start conf i th s)
      | Run_Scan \<Rightarrow> run_scan i th s
      | Run_Task r \<Rightarrow> run_task conf i th r s
      | Run_In k a \<Rightarrow> run_in prog i th k a s
      | Run_After k a \<Rightarrow> Inr (run_after i th k a s)
      | Run_Check k a \<Rightarrow> run_check i th k a s
      | Run_Done \<Rightarrow> Inr s)"

definition sched_step ::
  "('p, 'w) user_prog \<Rightarrow> 32 word \<Rightarrow> nat \<Rightarrow> ('p, 'w) sched \<Rightarrow> ('p, 'w) sched result" where
  "sched_step prog conf i s =
     (if i < length (sc_runs s) then thread_run prog conf i (sc_runs s ! i) s else Inr s)"

section \<open>Construction, start and stop\<close>

text \<open>
  The thread that constructs the scheduler has the id \<open>tid\<close> and the thread-local variables \<open>tls\<close>; \<open>other\<close> says
  that a scheduler is set in it already.
\<close>

definition Scheduler_ctor ::
  "32 word \<Rightarrow> nat \<Rightarrow> bool \<Rightarrow> int \<Rightarrow> bool \<Rightarrow> fiber_tls \<Rightarrow> 'p code fiber_world \<Rightarrow> 'w \<Rightarrow>
   (fiber_tls \<times> ('p, 'w) sched) result" where
  "Scheduler_ctor conf threads use_caller tid other tls w e =
     (if threads = 0 then Inl (Assert_Failed ''threads > 0'')
      else
        (let s = \<lparr>sc_world = w, m_fibers = [], m_active = 0, m_idle = 0, m_stopping = True, m_auto_stop = False,
                  m_root_thread_id = -1, m_root_fiber = None, m_thread_count = threads, m_thread_ids = [],
                  m_threads = [], sc_runs = [], sc_tickles = 0, sc_env = e\<rparr> in
         if \<not> use_caller then Inr (tls, s)
         else if other then Inl (Assert_Failed ''GetThis() == nullptr'')
         else
           (case Fiber_GetThis (tls, w) of
              (m, tls, w) \<Rightarrow>
                (case Fiber_ctor conf (Some Run_In_Root) 0 True w of
                   (a, w) \<Rightarrow>
                     Inr (tls\<lparr>t_main_fiber := Some a\<rparr>,
                          s\<lparr>sc_world := w, m_root_fiber := Some a, m_root_thread_id := tid,
                            m_thread_ids := [tid], m_thread_count := threads - 1\<rparr>)))))"

definition new_sthread :: "int \<Rightarrow> 'p sthread" where
  "new_sthread tid = \<lparr>th_id = tid, th_root = False, th_tls = fiber_tls_init, th_pc = Run_Start,
     th_ctl = Outside, th_idle = None, th_cb_fiber = None\<rparr>"

text \<open>\<open>tids\<close> are the ids the system gives to the new threads.\<close>

definition Scheduler_start :: "int list \<Rightarrow> ('p, 'w) sched \<Rightarrow> ('p, 'w) sched result" where
  "Scheduler_start tids s =
     (if \<not> m_stopping s then Inr s
      else if m_threads s \<noteq> [] then Inl (Assert_Failed ''m_threads.empty()'')
      else
        (let ths = map new_sthread (take (m_thread_count s) tids) in
         Inr (s\<lparr>m_stopping := False, sc_runs := sc_runs s @ ths,
                m_threads := [length (sc_runs s)..<length (sc_runs s) + length ths],
                m_thread_ids := m_thread_ids s @ map th_id ths\<rparr>)))"

text \<open>
  \<open>stop\<close> up to the end of \<open>m_root_fiber->call()\<close>, called by a thread for which \<open>GetThis() == this\<close> is \<open>this\<close>. Entering
  the root fiber adds an execution of \<open>run\<close> by the calling thread. The result says whether it has returned early.
\<close>

definition Scheduler_stop :: "bool \<Rightarrow> fiber_tls \<Rightarrow> ('p, 'w) sched \<Rightarrow> (bool \<times> ('p, 'w) sched) result" where
  "Scheduler_stop this tls s =
     (let s = s\<lparr>m_auto_stop := True\<rparr>;
          root_idle = (m_root_fiber s \<noteq> None \<and> m_thread_count s = 0 \<and>
            (state_at (sc_world s) (the (m_root_fiber s)) = Some TERM' \<or>
             state_at (sc_world s) (the (m_root_fiber s)) = Some INIT));
          s = (if root_idle then s\<lparr>m_stopping := True\<rparr> else s) in
      if root_idle \<and> Scheduler_stopping s then Inr (True, s)
      else if m_root_thread_id s \<noteq> -1 \<and> \<not> this then Inl (Assert_Failed ''GetThis() == this'')
      else if m_root_thread_id s = -1 \<and> this then Inl (Assert_Failed ''GetThis() != this'')
      else
        (let s = s\<lparr>m_stopping := True\<rparr>;
             s = (Scheduler_tickle ^^ m_thread_count s) s in
         case m_root_fiber s of
           None \<Rightarrow> Inr (False, s)
         | Some a \<Rightarrow>
             (let s = Scheduler_tickle s in
              if Scheduler_stopping s then Inr (False, s)
              else
                bind_r (Fiber_call a (tls, sc_world s)) (\<lambda>(ctl, tls, w).
                  Inr (False, s\<lparr>sc_world := w,
                    sc_runs := sc_runs s @
                      [\<lparr>th_id = m_root_thread_id s, th_root = True, th_tls = tls, th_pc = Run_Start,
                        th_ctl = ctl, th_idle = None, th_cb_fiber = None\<rparr>]\<rparr>)))))"

text \<open>
  The rest of \<open>stop\<close>, unless it has returned early: it takes the threads out of \<open>m_threads\<close>, so that the scheduler can be
  started again, and joins them. The joins return, and \<open>stop\<close> with them, when each of these threads has left \<open>run\<close>.
\<close>

definition Scheduler_stop_swap :: "('p, 'w) sched \<Rightarrow> nat list \<times> ('p, 'w) sched" where
  "Scheduler_stop_swap s = (m_threads s, s\<lparr>m_threads := []\<rparr>)"

definition stop_returns :: "nat list \<Rightarrow> ('p, 'w) sched \<Rightarrow> bool" where
  "stop_returns thrs s \<longleftrightarrow> (\<forall>i\<in>set thrs. th_pc (sc_runs s ! i) = Run_Done)"

definition Scheduler_dtor :: "('p, 'w) sched \<Rightarrow> unit result" where
  "Scheduler_dtor s = (if m_stopping s then Inr () else Inl (Assert_Failed ''m_stopping''))"

section \<open>Runs\<close>

text \<open>
  Everything that can happen to a scheduler: its threads make steps, and other threads schedule, start
  and stop it. The second half of \<open>stop\<close> can come at any time, which only adds runs.
\<close>

inductive sched_reach ::
  "('p, 'w) user_prog \<Rightarrow> 32 word \<Rightarrow> ('p, 'w) sched \<Rightarrow> ('p, 'w) sched \<Rightarrow> bool" for prog conf s0 where
  sr_init: "sched_reach prog conf s0 s0"
| sr_step: "sched_reach prog conf s0 s \<Longrightarrow> sched_step prog conf i s = Inr s' \<Longrightarrow> sched_reach prog conf s0 s'"
| sr_schedule: "sched_reach prog conf s0 s \<Longrightarrow> sched_reach prog conf s0 (Scheduler_schedule ft s)"
| sr_range: "sched_reach prog conf s0 s \<Longrightarrow> Scheduler_schedule_range fts s = (fts', s') \<Longrightarrow>
     sched_reach prog conf s0 s'"
| sr_start: "sched_reach prog conf s0 s \<Longrightarrow> Scheduler_start tids s = Inr s' \<Longrightarrow> sched_reach prog conf s0 s'"
| sr_stop: "sched_reach prog conf s0 s \<Longrightarrow> Scheduler_stop this tls s = Inr (early, s') \<Longrightarrow>
     sched_reach prog conf s0 s'"
| sr_swap: "sched_reach prog conf s0 s \<Longrightarrow> Scheduler_stop_swap s = (thrs, s') \<Longrightarrow> sched_reach prog conf s0 s'"

lemma sched_reach_steps:
  assumes "sched_reach prog conf s0 s" and "fold_r (sched_step prog conf) is s = Inr s'"
  shows "sched_reach prog conf s0 s'"
  using fold_r_invariant [where P = "sched_reach prog conf s0", OF assms(2,1)] sr_step by blast

section \<open>The queue\<close>

definition eligible :: "int \<Rightarrow> (nat \<Rightarrow> fiber_state option) \<Rightarrow> 'p task \<Rightarrow> bool" where
  "eligible tid st ft \<longleftrightarrow>
     (ft_thread ft = -1 \<or> ft_thread ft = tid) \<and> (\<forall>a. ft_fiber ft = Some a \<longrightarrow> st a \<noteq> Some EXEC)"

definition foreign :: "int \<Rightarrow> 'p task \<Rightarrow> bool" where
  "foreign tid ft \<longleftrightarrow> ft_thread ft \<noteq> -1 \<and> ft_thread ft \<noteq> tid"

lemma scan_queue_spec:
  assumes "\<forall>ft\<in>set fts. \<not> task_empty ft"
  shows "\<exists>r tickle_me q. scan_queue tid st fts = Inr (r, tickle_me, q) \<and>
           (case r of
              None \<Rightarrow> q = fts \<and> (\<forall>ft\<in>set fts. \<not> eligible tid st ft) \<and> (tickle_me \<longleftrightarrow> (\<exists>ft\<in>set fts. foreign tid ft))
            | Some ft \<Rightarrow> \<exists>pre post. fts = pre @ ft # post \<and> q = pre @ post \<and> eligible tid st ft \<and>
                (\<forall>ft\<in>set pre. \<not> eligible tid st ft) \<and> (tickle_me \<longleftrightarrow> (\<exists>ft\<in>set pre. foreign tid ft)))"
  using assms
proof (induction fts)
  case (Cons x xs)
  then obtain r tm q where IH: "scan_queue tid st xs = Inr (r, tm, q)"
    and spec: "case r of
        None \<Rightarrow> q = xs \<and> (\<forall>ft\<in>set xs. \<not> eligible tid st ft) \<and> (tm \<longleftrightarrow> (\<exists>ft\<in>set xs. foreign tid ft))
      | Some ft \<Rightarrow> \<exists>pre post. xs = pre @ ft # post \<and> q = pre @ post \<and> eligible tid st ft \<and>
          (\<forall>ft\<in>set pre. \<not> eligible tid st ft) \<and> (tm \<longleftrightarrow> (\<exists>ft\<in>set pre. foreign tid ft))" by auto
  show ?case
  proof (cases "eligible tid st x")
    case True
    then have "scan_queue tid st (x # xs) = Inr (Some x, False, xs)"
      using Cons.prems by (cases "ft_fiber x") (auto simp: eligible_def)
    moreover have "\<exists>pre post. x # xs = pre @ x # post \<and> xs = pre @ post \<and> eligible tid st x \<and>
        (\<forall>ft\<in>set pre. \<not> eligible tid st ft) \<and> (False \<longleftrightarrow> (\<exists>ft\<in>set pre. foreign tid ft))"
      using True by (intro exI [of _ "[]"] exI [of _ xs]) simp
    ultimately show ?thesis by (intro exI [of _ "Some x"] exI [of _ False] exI [of _ xs]) simp
  next
    case False
    then have eq: "scan_queue tid st (x # xs) = Inr (r, foreign tid x \<or> tm, x # q)"
      using Cons.prems IH by (cases "ft_fiber x") (auto simp: eligible_def foreign_def)
    show ?thesis
    proof (cases r)
      case None
      with spec False have "x # q = x # xs \<and> (\<forall>ft\<in>set (x # xs). \<not> eligible tid st ft) \<and>
          (foreign tid x \<or> tm \<longleftrightarrow> (\<exists>ft\<in>set (x # xs). foreign tid ft))" by simp
      with None show ?thesis
        by (intro exI [of _ r] exI [of _ "foreign tid x \<or> tm"] exI [of _ "x # q"] conjI, intro eq) simp
    next
      case (Some ft)
      with spec obtain pre post where "xs = pre @ ft # post" "q = pre @ post" "eligible tid st ft"
        "\<forall>ft\<in>set pre. \<not> eligible tid st ft" "tm \<longleftrightarrow> (\<exists>ft\<in>set pre. foreign tid ft)" by auto
      with False have *: "x # xs = (x # pre) @ ft # post \<and> x # q = (x # pre) @ post \<and> eligible tid st ft \<and>
          (\<forall>ft\<in>set (x # pre). \<not> eligible tid st ft) \<and> (foreign tid x \<or> tm \<longleftrightarrow> (\<exists>ft\<in>set (x # pre). foreign tid ft))"
        by simp
      show ?thesis
        by (intro exI [of _ r] exI [of _ "foreign tid x \<or> tm"] exI [of _ "x # q"] conjI, rule eq)
          (unfold Some option.case, intro exI [of _ "x # pre"] exI [of _ post], rule *)
    qed
  qed
qed auto

section \<open>Counters\<close>

definition active_pc :: "'p run_pc \<Rightarrow> bool" where
  "active_pc pc = (case pc of Run_Task r \<Rightarrow> r \<noteq> None | Run_In k a \<Rightarrow> k \<noteq> K_Idle | Run_After k a \<Rightarrow> k \<noteq> K_Idle | _ \<Rightarrow> False)"

definition idle_pc :: "'p run_pc \<Rightarrow> bool" where
  "idle_pc pc = (case pc of Run_In k a \<Rightarrow> k = K_Idle | Run_After k a \<Rightarrow> k = K_Idle | _ \<Rightarrow> False)"

definition pc_count :: "('p run_pc \<Rightarrow> bool) \<Rightarrow> 'p sthread list \<Rightarrow> int" where
  "pc_count P ths = (\<Sum>th\<leftarrow>ths. if P (th_pc th) then 1 else 0)"

lemma pc_count_simps [simp]:
  "pc_count P [] = 0" "pc_count P (ths @ ths') = pc_count P ths + pc_count P ths'"
  "pc_count P (th # ths) = (if P (th_pc th) then 1 else 0) + pc_count P ths"
  by (simp_all add: pc_count_def)

lemma pc_count_update:
  "i < length ths \<Longrightarrow> pc_count P (ths[i := th]) =
     pc_count P ths + (if P (th_pc th) then 1 else 0) - (if P (th_pc (ths ! i)) then 1 else 0)"
  by (induction ths arbitrary: i) (auto split: nat.splits)

lemma pc_count_nonneg: "0 \<le> pc_count P ths" "pc_count P ths \<le> int (length ths)"
  by (induction ths) auto

definition tasks_ok :: "('p, 'w) sched \<Rightarrow> bool" where
  "tasks_ok s \<longleftrightarrow> (\<forall>ft\<in>set (m_fibers s). \<not> task_empty ft)"

definition sched_inv :: "('p, 'w) sched \<Rightarrow> bool" where
  "sched_inv s \<longleftrightarrow>
     m_active s = pc_count active_pc (sc_runs s) \<and> m_idle s = pc_count idle_pc (sc_runs s) \<and> tasks_ok s \<and>
     (\<forall>i\<in>set (m_threads s). i < length (sc_runs s)) \<and>
     (\<forall>th\<in>set (sc_runs s). \<forall>ft. th_pc th = Run_Task (Some ft) \<longrightarrow> ft_thread ft = -1 \<or> ft_thread ft = th_id th)"

text \<open>What a call of \<open>schedule\<close> leaves alone.\<close>

definition same_run :: "('p, 'w) sched \<Rightarrow> ('p, 'w) sched \<Rightarrow> bool" where
  "same_run s s' \<longleftrightarrow> m_threads s' = m_threads s \<and> sc_runs s' = sc_runs s \<and> m_active s' = m_active s \<and> m_idle s' = m_idle s \<and>
     (tasks_ok s \<longrightarrow> tasks_ok s')"

lemma same_run_inv: "same_run s s' \<Longrightarrow> sched_inv s \<Longrightarrow> sched_inv s'"
  by (simp add: same_run_def sched_inv_def)

lemma same_run_simps [simp]:
  "same_run s s" "same_run s (s\<lparr>sc_env := e\<rparr>)" "same_run s (s\<lparr>sc_world := w\<rparr>)" "same_run s (Scheduler_tickle s)"
  "same_run s (hold_fiber a s)"
  by (simp_all add: same_run_def tasks_ok_def Scheduler_tickle_def hold_fiber_def)

lemma same_run_trans: "same_run s t \<Longrightarrow> same_run t u \<Longrightarrow> same_run s u"
  by (simp add: same_run_def)

lemma same_run_schedule: "same_run s (Scheduler_schedule ft s)"
  by (auto simp: same_run_def tasks_ok_def Scheduler_schedule_def Scheduler_scheduleNoLock_def Scheduler_tickle_def Let_def)

lemma same_run_schedule_env [simp]: "same_run s (Scheduler_schedule ft (s\<lparr>sc_env := e\<rparr>))"
  by (rule same_run_trans [OF same_run_simps(2) same_run_schedule])

lemma same_run_code_step: "code_step prog cur c s = (s', r) \<Longrightarrow> same_run s s'"
  by (cases c) (auto split: prod.splits act.splits if_splits)

lemma same_run_fiber_step:
  assumes "fiber_step (code_step prog a) (ctl, st, s) = Inr (ctl', st', s')"
  shows "same_run s s'"
  using assms same_run_code_step [of prog a _ s]
  by (auto simp: fiber_step_def split: control.splits prod.splits option.splits outcome.splits if_splits)

text \<open>
  A step of thread \<open>i\<close> that changes the counters by as much as its own program counter says, and takes a task
  only when it may.
\<close>

definition weight :: "('p run_pc \<Rightarrow> bool) \<Rightarrow> 'p run_pc \<Rightarrow> int" where
  "weight P pc = (if P pc then 1 else 0)"

lemma sched_inv_set_thread:
  assumes inv: "sched_inv s" and i: "i < length (sc_runs s)" and "m_threads s' = m_threads s \<and> sc_runs s' = sc_runs s"
    and "m_active s' = m_active s + weight active_pc (th_pc th) - weight active_pc (th_pc (sc_runs s ! i))"
    and "m_idle s' = m_idle s + weight idle_pc (th_pc th) - weight idle_pc (th_pc (sc_runs s ! i))"
    and "tasks_ok s'" and "\<And>ft. th_pc th = Run_Task (Some ft) \<Longrightarrow> ft_thread ft = -1 \<or> ft_thread ft = th_id th"
  shows "sched_inv (set_thread i th s')"
proof -
  have "\<forall>t\<in>set ((sc_runs s)[i := th]). \<forall>ft. th_pc t = Run_Task (Some ft) \<longrightarrow> ft_thread ft = -1 \<or> ft_thread ft = th_id t"
    using inv assms(7) set_update_subset_insert [of "sc_runs s" i th] unfolding sched_inv_def by blast
  moreover have "pc_count P ((sc_runs s)[i := th]) =
      pc_count P (sc_runs s) + weight P (th_pc th) - weight P (th_pc (sc_runs s ! i))" for P
    using pc_count_update [OF i] by (simp add: weight_def)
  ultimately show ?thesis
    using inv assms(3-6) unfolding sched_inv_def by (simp add: set_thread_def tasks_ok_def)
qed

lemma weight_simps [simp]:
  "weight active_pc Run_Start = 0" "weight active_pc Run_Scan = 0" "weight active_pc Run_Done = 0"
  "weight active_pc (Run_Task r) = (if r \<noteq> None then 1 else 0)"
  "weight active_pc (Run_In k a) = (if k \<noteq> K_Idle then 1 else 0)"
  "weight active_pc (Run_After k a) = (if k \<noteq> K_Idle then 1 else 0)"
  "weight active_pc (Run_Check k a) = 0"
  "weight idle_pc Run_Start = 0" "weight idle_pc Run_Scan = 0" "weight idle_pc Run_Done = 0"
  "weight idle_pc (Run_Task r) = 0" "weight idle_pc (Run_In k a) = (if k = K_Idle then 1 else 0)"
  "weight idle_pc (Run_After k a) = (if k = K_Idle then 1 else 0)" "weight idle_pc (Run_Check k a) = 0"
  by (simp_all add: weight_def active_pc_def idle_pc_def)

lemma sched_inv_tasks_ok: "sched_inv s \<Longrightarrow> tasks_ok s"
  by (simp add: sched_inv_def)

lemma sched_inv_enter:
  assumes inv: "sched_inv s" and i: "i < length (sc_runs s)" and "same_run s t"
    and "enter_fiber i th k a (t\<lparr>m_idle := m_idle t + d\<rparr>) = Inr s'"
    and "weight active_pc (th_pc (sc_runs s ! i)) = (if k \<noteq> K_Idle then 1 else 0)"
    and "weight idle_pc (th_pc (sc_runs s ! i)) = 0" and "d = (if k = K_Idle then 1 else 0)"
  shows "sched_inv s'"
  using assms sched_inv_tasks_ok [OF inv]
  by (auto simp: enter_fiber_def same_run_def tasks_ok_def split: if_splits
      intro!: sched_inv_set_thread [OF inv i])

lemma sched_inv_step:
  assumes inv: "sched_inv s" and step: "sched_step prog conf i s = Inr s'"
  shows "sched_inv s'"
proof (cases "i < length (sc_runs s)")
  case False
  then show ?thesis using inv step by (simp add: sched_step_def)
next
  case True
  let ?th = "sc_runs s ! i"
  note set = sched_inv_set_thread [OF inv True] and ok = sched_inv_tasks_ok [OF inv]
  have run: "thread_run prog conf i ?th s = Inr s'" using step True by (simp add: sched_step_def)
  show ?thesis
  proof (cases "th_pc ?th")
    case Run_Start
    then show ?thesis
      using run ok by (auto simp: thread_run_def run_start_def tasks_ok_def split: prod.splits if_splits intro!: set)
  next
    case Run_Scan
    obtain r tm q where sc: "scan_queue (th_id ?th) (state_at (sc_world s)) (m_fibers s) = Inr (r, tm, q)"
      and spec: "case r of
          None \<Rightarrow> q = m_fibers s \<and> (\<forall>ft\<in>set (m_fibers s). \<not> eligible (th_id ?th) (state_at (sc_world s)) ft) \<and>
                  (tm \<longleftrightarrow> (\<exists>ft\<in>set (m_fibers s). foreign (th_id ?th) ft))
        | Some ft \<Rightarrow> \<exists>pre post. m_fibers s = pre @ ft # post \<and> q = pre @ post \<and>
            eligible (th_id ?th) (state_at (sc_world s)) ft \<and>
            (\<forall>ft\<in>set pre. \<not> eligible (th_id ?th) (state_at (sc_world s)) ft) \<and> (tm \<longleftrightarrow> (\<exists>ft\<in>set pre. foreign (th_id ?th) ft))"
      using scan_queue_spec [of "m_fibers s" "th_id ?th" "state_at (sc_world s)"] ok unfolding tasks_ok_def by blast
    have "\<forall>ft\<in>set q. \<not> task_empty ft" using spec ok by (auto simp: tasks_ok_def split: option.splits)
    moreover have "\<forall>ft. r = Some ft \<longrightarrow> ft_thread ft = -1 \<or> ft_thread ft = th_id ?th"
      using spec by (auto simp: eligible_def)
    ultimately show ?thesis
      using run Run_Scan sc
      by (auto simp: thread_run_def run_scan_def Let_def tasks_ok_def Scheduler_tickle_def split: if_splits intro!: set)
  next
    case (Run_Task r)
    have enter: "enter_fiber i th k a t = Inr s' \<Longrightarrow> same_run s t \<Longrightarrow> k \<noteq> K_Idle \<Longrightarrow> r \<noteq> None \<Longrightarrow> sched_inv s'" for th k a t
      using sched_inv_enter [OF inv True, of t th k a 0] Run_Task by simp
    show ?thesis
    proof (cases r)
      case (Some ft)
      then show ?thesis
        using run Run_Task ok enter
        by (auto simp: thread_run_def run_task_def Let_def tasks_ok_def split: if_splits option.splits prod.splits
            intro!: set)
    next
      case None
      have "sched_inv s'" if "run_done i ?th s = Inr s'"
        using that Run_Task None ok
        by (auto simp: run_done_def Let_def tasks_ok_def split: if_splits option.splits intro!: set)
      moreover have "sched_inv s'" if "enter_fiber i ?th K_Idle a (s\<lparr>m_idle := m_idle s + 1\<rparr>) = Inr s'" for a
        using sched_inv_enter [OF inv True same_run_simps(1) that] Run_Task None by simp
      ultimately show ?thesis
        using run Run_Task None
        by (auto simp: thread_run_def run_task_def Let_def split: if_splits option.splits)
    qed
  next
    case (Run_In k a)
    then show ?thesis
      using run ok same_run_fiber_step [of prog a "th_ctl ?th" _ s]
      by (fastforce simp: thread_run_def run_in_def same_run_def tasks_ok_def split: if_splits intro!: set)
  next
    case (Run_After k a)
    then show ?thesis
      using run ok by (auto simp: thread_run_def run_after_def tasks_ok_def intro!: set)
  next
    case (Run_Check k a)
    have sched: "m_threads (Scheduler_schedule ft s) = m_threads s \<and> sc_runs (Scheduler_schedule ft s) = sc_runs s \<and> m_active (Scheduler_schedule ft s) = m_active s \<and>
        m_idle (Scheduler_schedule ft s) = m_idle s \<and> tasks_ok (Scheduler_schedule ft s)" for ft
      using same_run_schedule [of s ft] ok by (simp add: same_run_def)
    have hold: "m_threads (hold_fiber a s) = m_threads s \<and> sc_runs (hold_fiber a s) = sc_runs s \<and> m_active (hold_fiber a s) = m_active s \<and>
        m_idle (hold_fiber a s) = m_idle s \<and> tasks_ok (hold_fiber a s)"
      using same_run_simps(5) [of s a] ok by (simp add: same_run_def)
    show ?thesis
      using run Run_Check ok sched hold
      by (cases k) (auto simp: thread_run_def run_check_def Let_def tasks_ok_def split: if_splits intro!: set)
  next
    case Run_Done
    then show ?thesis using run inv by (simp add: thread_run_def)
  qed
qed

lemma same_run_scheduleNoLock: "same_run s (snd (Scheduler_scheduleNoLock ft s))"
  by (auto simp: same_run_def tasks_ok_def Scheduler_scheduleNoLock_def Let_def)

lemma same_run_schedule_all: "same_run s (snd (schedule_all fts nt s))"
proof (induction fts arbitrary: nt s)
  case (Cons ft fts)
  obtain b t where t: "Scheduler_scheduleNoLock (ft\<lparr>ft_thread := -1\<rparr>) s = (b, t)"
    by (cases "Scheduler_scheduleNoLock (ft\<lparr>ft_thread := -1\<rparr>) s")
  then have "same_run s t" using same_run_scheduleNoLock [of s "ft\<lparr>ft_thread := -1\<rparr>"] by simp
  then show ?case using Cons.IH [of t "b \<or> nt"] t by (auto intro: same_run_trans)
qed simp

lemma same_run_range: "Scheduler_schedule_range fts s = (fts', s') \<Longrightarrow> same_run s s'"
  using same_run_schedule_all [of s fts False]
  by (auto simp: Scheduler_schedule_range_def split: prod.splits if_splits intro: same_run_trans)

lemma sched_inv_flags [simp]:
  "sched_inv (s\<lparr>m_stopping := b\<rparr>) = sched_inv s" "sched_inv (s\<lparr>m_auto_stop := b\<rparr>) = sched_inv s"
  "sched_inv (Scheduler_tickle s) = sched_inv s" "sched_inv (s\<lparr>sc_world := w\<rparr>) = sched_inv s"
  "sched_inv (s\<lparr>m_thread_ids := l\<rparr>) = sched_inv s"
  by (simp_all add: sched_inv_def tasks_ok_def Scheduler_tickle_def)

lemma sched_inv_tickles [simp]: "sched_inv ((Scheduler_tickle ^^ n) s) = sched_inv s"
  by (induction n) simp_all

lemma root_fiber_tickles [simp]: "m_root_fiber ((Scheduler_tickle ^^ n) s) = m_root_fiber s"
  by (induction n) (simp_all add: Scheduler_tickle_def)

lemma sched_inv_append:
  assumes "sched_inv s" and "\<forall>th\<in>set ths. th_pc th = Run_Start"
  shows "sched_inv (s\<lparr>sc_runs := sc_runs s @ ths\<rparr>)"
proof -
  have "pc_count P ths = 0" if "\<not> P Run_Start" for P using assms(2) that by (induction ths) auto
  then show ?thesis
    using assms by (auto simp: sched_inv_def tasks_ok_def active_pc_def idle_pc_def)
qed

lemma sched_inv_start: "sched_inv s \<Longrightarrow> Scheduler_start tids s = Inr s' \<Longrightarrow> sched_inv s'"
  using sched_inv_append [of s "map new_sthread (take (m_thread_count s) tids)"]
  by (auto simp: Scheduler_start_def Let_def new_sthread_def sched_inv_def tasks_ok_def split: if_splits)

lemma sched_inv_swap: "sched_inv s \<Longrightarrow> Scheduler_stop_swap s = (thrs, s') \<Longrightarrow> sched_inv s'"
  by (auto simp: Scheduler_stop_swap_def sched_inv_def tasks_ok_def)

lemma sched_inv_stop: "sched_inv s \<Longrightarrow> Scheduler_stop this tls s = Inr (early, s') \<Longrightarrow> sched_inv s'"
  by (auto simp: Scheduler_stop_def Let_def split: if_splits option.splits
      intro!: sched_inv_append [of "(t :: ('a, 'b) sched)\<lparr>sc_world := w\<rparr>" for t w, simplified])

lemma sched_reach_inv: "sched_reach prog conf s0 s \<Longrightarrow> sched_inv s0 \<Longrightarrow> sched_inv s"
  by (induction rule: sched_reach.induct)
    (auto intro: sched_inv_step sched_inv_start sched_inv_stop sched_inv_swap same_run_inv same_run_schedule same_run_range)

lemma sched_inv_ctor: "Scheduler_ctor conf threads use_caller tid other tls w e = Inr (tls', s) \<Longrightarrow> sched_inv s"
  by (auto simp: Scheduler_ctor_def Let_def sched_inv_def tasks_ok_def split: if_splits prod.splits)

section \<open>Properties\<close>

text \<open>C32: However the threads of a scheduler are interleaved with each other and with calls from outside:
  \<open>m_active_thread_count\<close> is the number of threads that have taken a task and not yet come back from it,
  \<open>m_idle_thread_count\<close> the number that are in their idle fiber, so neither wraps around; a thread only takes
  tasks for itself or for any thread; taking a task never meets an empty one; and \<open>stopping\<close> is true only
  when no thread has a task in hand.\<close>

theorem scheduler_counters:
  assumes "Scheduler_ctor conf threads use_caller tid other tls w e = Inr (tls', s0)"
    and "sched_reach prog conf s0 s"
  shows "m_active s = pc_count active_pc (sc_runs s) \<and> m_idle s = pc_count idle_pc (sc_runs s) \<and>
         0 \<le> m_active s \<and> 0 \<le> m_idle s \<and> m_active s \<le> int (length (sc_runs s)) \<and>
         (\<forall>th\<in>set (sc_runs s). \<forall>ft. th_pc th = Run_Task (Some ft) \<longrightarrow> ft_thread ft = -1 \<or> ft_thread ft = th_id th) \<and>
         (\<forall>i. \<exists>r. run_scan i (sc_runs s ! i) s = Inr r) \<and>
         (Scheduler_stopping s \<longrightarrow> (\<forall>th\<in>set (sc_runs s). \<not> active_pc (th_pc th)))"
proof -
  have inv: "sched_inv s" by (rule sched_reach_inv [OF assms(2) sched_inv_ctor [OF assms(1)]])
  have "\<exists>r. run_scan i th s = Inr r" for i th
    using scan_queue_spec [of "m_fibers s" "th_id th" "state_at (sc_world s)"] inv
    by (auto simp: run_scan_def Let_def sched_inv_def tasks_ok_def)
  moreover have "\<not> active_pc (th_pc th)" if "th \<in> set ths" "pc_count active_pc ths = 0" for th ths
    using that
  proof (induction ths)
    case (Cons t ths)
    then show ?case using pc_count_nonneg(1) [of active_pc ths] by (auto split: if_splits)
  qed simp
  ultimately show ?thesis
    using inv pc_count_nonneg [of active_pc "sc_runs s"] pc_count_nonneg(1) [of idle_pc "sc_runs s"]
    by (auto simp: sched_inv_def Scheduler_stopping_def)
qed

text \<open>
  A scheduler of two pool threads, 101 and 102, that has been started, and a callback that schedules its own
  fiber and then yields.
\<close>

definition demo_sched :: "'p task list \<Rightarrow> ('p, unit) sched" where
  "demo_sched fts =
     \<lparr>sc_world = fiber_world_init, m_fibers = fts, m_active = 0, m_idle = 0, m_stopping = False, m_auto_stop = False,
      m_root_thread_id = -1, m_root_fiber = None, m_thread_count = 2, m_thread_ids = [101, 102],
      m_threads = [0, 1], sc_runs = [new_sthread 101, new_sthread 102], sc_tickles = length fts, sc_env = ()\<rparr>"

definition demo_new :: "('p, unit) sched" where
  "demo_new =
     \<lparr>sc_world = fiber_world_init, m_fibers = [], m_active = 0, m_idle = 0, m_stopping = True, m_auto_stop = False,
      m_root_thread_id = -1, m_root_fiber = None, m_thread_count = 2, m_thread_ids = [], m_threads = [], sc_runs = [],
      sc_tickles = 0, sc_env = ()\<rparr>"

lemma demo_ctor: "Scheduler_ctor conf 2 False 100 False fiber_tls_init fiber_world_init () = Inr (fiber_tls_init, demo_new)"
  by (simp add: Scheduler_ctor_def demo_new_def)

lemma demo_sched_reach: "sched_reach prog conf demo_new (demo_sched [cb_task p thread])"
proof -
  have "Scheduler_start [101, 102] demo_new = Inr (demo_sched [])"
    by (simp add: Scheduler_start_def demo_new_def demo_sched_def new_sthread_def)
  from sr_start [OF sr_init this] have "sched_reach prog conf demo_new (demo_sched [])" .
  from sr_schedule [OF this, of "cb_task p thread"] show ?thesis
    by (simp add: Scheduler_schedule_def Scheduler_scheduleNoLock_def demo_sched_def Let_def task_empty_def cb_task_def
        Scheduler_tickle_def)
qed

definition self_prog :: "(nat, unit) user_prog" where
  "self_prog p e = (e, if p = 0 then A_Schedule_This (-1) 1 else if p = 1 then A_Yield_Hold 2 else A_Return)"

lemmas sched_run_defs = sched_step_def thread_run_def run_start_def run_scan_def run_task_def run_in_def run_after_def
  run_check_def run_done_def enter_fiber_def set_thread_def hold_fiber_def Scheduler_schedule_def
  Scheduler_scheduleNoLock_def Scheduler_tickle_def Scheduler_stopping_def fiber_step_def Fiber_swapIn_def
  Fiber_swapOut_def Fiber_SetThis_def Fiber_GetThis_def Fiber_ctor_main_def Fiber_ctor_def new_fiber_def
  Fiber_YieldToReady_def Fiber_YieldToHold_def jump_def state_at_def upd_fiber_def Let_def task_empty_def
  cb_task_def fiber_task_def new_sthread_def fiber_tls_init_def fiber_world_init_def Fiber_reset_def

theorem scheduler_counters_witness:
  "m_active (demo_sched [cb_task (0 :: nat) (-1)]) = 0"
  using scheduler_counters [OF demo_ctor demo_sched_reach [of self_prog 0 0 "-1"]]
  by (simp add: demo_sched_def new_sthread_def active_pc_def)

text \<open>C37: One fiber on two threads. A callback schedules the fiber it runs in and yields to HOLD; \<open>YieldToHold\<close>
  sets the state before \<open>swapOut\<close> has saved the context, and a second thread takes the fiber from the queue
  and enters it while the first has not left it: both execute the same fiber.\<close>

theorem fiber_on_two_threads:
  "\<exists>s a. sched_reach self_prog 0 demo_new s \<and>
         th_pc (sc_runs s ! 0) = Run_In K_Cb a \<and> th_pc (sc_runs s ! 1) = Run_In K_Fiber a \<and>
         th_ctl (sc_runs s ! 0) = At_Yield False a (User 2) \<and> th_ctl (sc_runs s ! 1) = At_Callback False a (User 0)"
proof -
  have "\<exists>s. fold_r (sched_step self_prog 0) [0, 0, 0, 0, 0, 0, 1, 1, 1, 1] (demo_sched [cb_task 0 (-1)]) = Inr s \<and>
       th_pc (sc_runs s ! 0) = Run_In K_Cb 2 \<and> th_pc (sc_runs s ! 1) = Run_In K_Fiber 2 \<and>
       th_ctl (sc_runs s ! 0) = At_Yield False 2 (User 2) \<and> th_ctl (sc_runs s ! 1) = At_Callback False 2 (User 0)"
    by (simp add: sched_run_defs demo_sched_def self_prog_def)
  then obtain s where s: "fold_r (sched_step self_prog 0) [0, 0, 0, 0, 0, 0, 1, 1, 1, 1] (demo_sched [cb_task 0 (-1)]) = Inr s"
    "th_pc (sc_runs s ! 0) = Run_In K_Cb 2" "th_pc (sc_runs s ! 1) = Run_In K_Fiber 2"
    "th_ctl (sc_runs s ! 0) = At_Yield False 2 (User 2)" "th_ctl (sc_runs s ! 1) = At_Callback False 2 (User 0)"
    by blast
  from sched_reach_steps [OF demo_sched_reach s(1)] s(2-5) show ?thesis by blast
qed

text \<open>A task for a thread that has gone. Between \<open>--m_active_thread_count\<close> and scheduling a fiber that yielded
  to READY again, nothing shows that the fiber exists; a thread that is idle then leaves \<open>run\<close> after \<open>stop\<close>, and
  what the fiber schedules for that thread afterwards stays in the queue, which keeps every other thread
  from leaving.\<close>

definition late_prog :: "(nat, unit) user_prog" where
  "late_prog p e = (e, if p = 0 then A_Yield_Ready 1 else if p = 1 then A_Schedule (cb_task 5 101) 2 else A_Return)"

theorem task_for_departed_thread:
  "\<exists>s. sched_reach late_prog 0 demo_new s \<and> m_auto_stop s \<and> m_stopping s \<and> m_fibers s = [cb_task 5 101] \<and>
       th_id (sc_runs s ! 0) = 101 \<and> th_pc (sc_runs s ! 0) = Run_Done \<and>
       th_pc (sc_runs s ! 1) = Run_Scan \<and> \<not> Scheduler_stopping s"
proof -
  let ?stop = "\<lambda>s. (Scheduler_tickle ^^ 2) (s\<lparr>m_auto_stop := True, m_stopping := True\<rparr>)"
  obtain s1 where s1: "fold_r (sched_step late_prog 0) [1, 1, 1, 1, 1, 1, 1] (demo_sched [cb_task 0 (-1)]) = Inr s1"
    and st: "m_root_fiber s1 = None" "m_root_thread_id s1 = -1" "m_thread_count s1 = 2"
    and late: "\<exists>s. fold_r (sched_step late_prog 0)
        [0, 0, 0, 0, 0, 0, 0, 0, 0, 0, 1, 1, 1, 1, 1, 1, 1, 1] (?stop s1) = Inr s \<and>
      m_auto_stop s \<and> m_stopping s \<and> m_fibers s = [cb_task 5 101] \<and>
      th_id (sc_runs s ! 0) = 101 \<and> th_pc (sc_runs s ! 0) = Run_Done \<and>
      th_pc (sc_runs s ! 1) = Run_Scan \<and> \<not> Scheduler_stopping s"
    by (simp add: sched_run_defs demo_sched_def late_prog_def eval_nat_numeral)
  have "sched_reach late_prog 0 demo_new s1" by (rule sched_reach_steps [OF demo_sched_reach s1])
  moreover have "Scheduler_stop False fiber_tls_init s1 = Inr (False, ?stop s1)"
    using st by (simp add: Scheduler_stop_def Let_def root_fiber_tickles)
  ultimately have "sched_reach late_prog 0 demo_new (?stop s1)" by (rule sr_stop)
  with late show ?thesis using sched_reach_steps by blast
qed

text \<open>C35: The scan of the queue takes the first task that is for this thread or any and whose fiber is not
  being executed, leaves the others in their order, and reports a task for another thread exactly when it
  has passed one; without such a task the queue stays as it is.\<close>

theorem scan_takes_first:
  assumes "Scheduler_ctor conf threads use_caller tid other tls w e = Inr (tls', s0)"
    and "sched_reach prog conf s0 s" and "i < length (sc_runs s)" and "sc_runs s ! i = th" and "th_pc th = Run_Scan"
  shows "\<exists>s' r. sched_step prog conf i s = Inr s' \<and> th_pc (sc_runs s' ! i) = Run_Task r \<and>
           (case r of
              None \<Rightarrow> m_fibers s' = m_fibers s \<and> m_active s' = m_active s \<and>
                (\<forall>ft\<in>set (m_fibers s). \<not> eligible (th_id th) (state_at (sc_world s)) ft) \<and>
                (sc_tickles s' = sc_tickles s + (if \<exists>ft\<in>set (m_fibers s). foreign (th_id th) ft then 1 else 0))
            | Some ft \<Rightarrow> \<exists>pre post. m_fibers s = pre @ ft # post \<and> m_fibers s' = pre @ post \<and>
                m_active s' = m_active s + 1 \<and> eligible (th_id th) (state_at (sc_world s)) ft \<and>
                (\<forall>x\<in>set pre. \<not> eligible (th_id th) (state_at (sc_world s)) x) \<and>
                (sc_tickles s' = sc_tickles s + (if \<exists>x\<in>set pre. foreign (th_id th) x then 1 else 0)))"
proof -
  have inv: "sched_inv s" by (rule sched_reach_inv [OF assms(2) sched_inv_ctor [OF assms(1)]])
  then obtain r tm q where sc: "scan_queue (th_id th) (state_at (sc_world s)) (m_fibers s) = Inr (r, tm, q)"
    and spec: "case r of
        None \<Rightarrow> q = m_fibers s \<and> (\<forall>ft\<in>set (m_fibers s). \<not> eligible (th_id th) (state_at (sc_world s)) ft) \<and>
                (tm \<longleftrightarrow> (\<exists>ft\<in>set (m_fibers s). foreign (th_id th) ft))
      | Some ft \<Rightarrow> \<exists>pre post. m_fibers s = pre @ ft # post \<and> q = pre @ post \<and>
          eligible (th_id th) (state_at (sc_world s)) ft \<and>
          (\<forall>ft\<in>set pre. \<not> eligible (th_id th) (state_at (sc_world s)) ft) \<and> (tm \<longleftrightarrow> (\<exists>ft\<in>set pre. foreign (th_id th) ft))"
    using scan_queue_spec [of "m_fibers s" "th_id th" "state_at (sc_world s)"] by (auto simp: sched_inv_def tasks_ok_def)
  let ?s = "s\<lparr>m_fibers := q, m_active := m_active s + (if r \<noteq> None then 1 else 0)\<rparr>"
  have "sched_step prog conf i s = Inr (set_thread i (th\<lparr>th_pc := Run_Task r\<rparr>) (if tm then Scheduler_tickle ?s else ?s))"
    using assms(3-5) sc by (simp add: sched_step_def thread_run_def run_scan_def Let_def)
  then show ?thesis
    using spec assms(3)
    by (intro exI [of _ "set_thread i (th\<lparr>th_pc := Run_Task r\<rparr>) (if tm then Scheduler_tickle ?s else ?s)"] exI [of _ r])
      (auto simp: set_thread_def Scheduler_tickle_def split: option.splits)
qed

text \<open>The first thread of the demo has begun and comes to the queue.\<close>

lemma demo_scan:
  "\<exists>s. sched_reach self_prog 0 demo_new s \<and> length (sc_runs s) = 2 \<and> th_pc (sc_runs s ! 0) = Run_Scan \<and>
       m_fibers s = [cb_task 0 (-1)]"
proof -
  have "\<exists>s. fold_r (sched_step self_prog 0) [0] (demo_sched [cb_task 0 (-1)]) = Inr s \<and> length (sc_runs s) = 2 \<and>
      th_pc (sc_runs s ! 0) = Run_Scan \<and> m_fibers s = [cb_task 0 (-1)]"
    by (simp add: sched_run_defs demo_sched_def)
  then obtain s where s: "fold_r (sched_step self_prog 0) [0] (demo_sched [cb_task 0 (-1)]) = Inr s"
    "length (sc_runs s) = 2" "th_pc (sc_runs s ! 0) = Run_Scan" "m_fibers s = [cb_task 0 (-1)]" by blast
  from sched_reach_steps [OF demo_sched_reach s(1)] s(2-4) show ?thesis by blast
qed

theorem scan_takes_first_witness:
  "\<exists>s s' r. sched_reach self_prog 0 demo_new s \<and> sched_step self_prog 0 0 s = Inr s' \<and>
            th_pc (sc_runs s' ! 0) = Run_Task r"
proof -
  obtain s where s: "sched_reach self_prog 0 demo_new s" "length (sc_runs s) = 2" "th_pc (sc_runs s ! 0) = Run_Scan"
    using demo_scan by blast
  then have "0 < length (sc_runs s)" by simp
  from scan_takes_first [OF demo_ctor s(1) this refl s(3)] s(1) show ?thesis by blast
qed

section \<open>Tasks that nobody can take\<close>

text \<open>A task for a thread id that no execution of \<open>run\<close> has, or only ones that have ended.\<close>

definition stranded :: "'p task \<Rightarrow> ('p, 'w) sched \<Rightarrow> bool" where
  "stranded ft s \<longleftrightarrow>
     ft \<in> set (m_fibers s) \<and> ft_thread ft \<noteq> -1 \<and> ft_thread ft \<noteq> m_root_thread_id s \<and>
     (\<forall>th\<in>set (sc_runs s). th_id th = ft_thread ft \<longrightarrow> th_pc th = Run_Done)"

lemma stranded_not_stopping: "stranded ft s \<Longrightarrow> \<not> Scheduler_stopping s"
  by (auto simp: stranded_def Scheduler_stopping_def)

text \<open>What a step of thread \<open>i\<close> keeps, when \<open>k\<close> is not its id.\<close>

definition keeps :: "nat \<Rightarrow> int \<Rightarrow> ('p, 'w) sched \<Rightarrow> ('p, 'w) sched \<Rightarrow> bool" where
  "keeps i k s s' \<longleftrightarrow>
     m_root_thread_id s' = m_root_thread_id s \<and>
     (\<forall>ft\<in>set (m_fibers s). ft_thread ft = k \<longrightarrow> ft \<in> set (m_fibers s')) \<and>
     (\<exists>th. sc_runs s' = (sc_runs s)[i := th] \<and> th_id th = th_id (sc_runs s ! i))"

lemma scan_queue_keeps:
  "scan_queue tid st fts = Inr (r, tm, q) \<Longrightarrow> k \<noteq> -1 \<Longrightarrow> k \<noteq> tid \<Longrightarrow> ft \<in> set fts \<Longrightarrow> ft_thread ft = k \<Longrightarrow> ft \<in> set q"
  by (induction fts arbitrary: r tm q) (auto split: if_splits)

lemma schedule_keeps [simp]:
  "set (m_fibers s) \<subseteq> set (m_fibers (Scheduler_schedule ft s))"
  "m_root_thread_id (Scheduler_schedule ft s) = m_root_thread_id s" "sc_runs (Scheduler_schedule ft s) = sc_runs s"
  by (auto simp: Scheduler_schedule_def Scheduler_scheduleNoLock_def Scheduler_tickle_def Let_def)

lemma code_step_keeps:
  "code_step prog cur c s = (s', r) \<Longrightarrow>
     set (m_fibers s) \<subseteq> set (m_fibers s') \<and> m_root_thread_id s' = m_root_thread_id s \<and> sc_runs s' = sc_runs s"
  using schedule_keeps(1) [of "s\<lparr>sc_env := e\<rparr>" for e]
  by (cases c) (fastforce split: prod.splits act.splits if_splits)+

lemma fiber_step_keeps:
  "fiber_step (code_step prog a) (ctl, st, s) = Inr (ctl', st', s') \<Longrightarrow>
     set (m_fibers s) \<subseteq> set (m_fibers s') \<and> m_root_thread_id s' = m_root_thread_id s \<and> sc_runs s' = sc_runs s"
  using code_step_keeps [of prog a _ s]
  by (auto simp: fiber_step_def split: control.splits prod.splits option.splits outcome.splits if_splits)

lemma keeps_set_thread:
  assumes "sc_runs s' = sc_runs s" and "m_root_thread_id s' = m_root_thread_id s"
    and "\<And>ft. ft \<in> set (m_fibers s) \<Longrightarrow> ft_thread ft = k \<Longrightarrow> ft \<in> set (m_fibers s')" and "th_id th = th_id (sc_runs s ! i)"
  shows "keeps i k s (set_thread i th s')"
  using assms by (auto simp: keeps_def set_thread_def)

lemma keeps_enter:
  "enter_fiber i th k a t = Inr s' \<Longrightarrow> sc_runs t = sc_runs s \<Longrightarrow> m_root_thread_id t = m_root_thread_id s \<Longrightarrow>
   m_fibers t = m_fibers s \<Longrightarrow> th_id th = th_id (sc_runs s ! i) \<Longrightarrow> keeps i j s s'"
  by (auto simp: enter_fiber_def split: prod.splits intro!: keeps_set_thread)

lemma keeps_thread_run:
  assumes run: "thread_run prog conf i (sc_runs s ! i) s = Inr s'" and i: "i < length (sc_runs s)"
    and k: "k \<noteq> -1" "th_id (sc_runs s ! i) \<noteq> k \<or> th_pc (sc_runs s ! i) = Run_Done"
  shows "keeps i k s s'"
proof -
  let ?th = "sc_runs s ! i"
  note set = keeps_set_thread [where s = s and i = i and k = k]
  show ?thesis
  proof (cases "th_pc ?th")
    case Run_Start
    then show ?thesis using run by (auto simp: thread_run_def run_start_def split: prod.splits if_splits intro!: set)
  next
    case Run_Scan
    then show ?thesis
      using run k scan_queue_keeps [of "th_id ?th" "state_at (sc_world s)" "m_fibers s"]
      by (auto simp: thread_run_def run_scan_def Let_def Scheduler_tickle_def split: if_splits intro!: set)
  next
    case (Run_Task r)
    then show ?thesis
      using run
      by (auto simp: thread_run_def run_task_def run_done_def Let_def split: if_splits option.splits prod.splits
          intro!: set elim!: keeps_enter)
  next
    case (Run_In kd a)
    then show ?thesis
      using run fiber_step_keeps [of prog a "th_ctl ?th" _ s]
      by (fastforce simp: thread_run_def run_in_def intro!: set)
  next
    case (Run_After kd a)
    then show ?thesis using run by (auto simp: thread_run_def run_after_def intro!: set)
  next
    case (Run_Check kd a)
    then show ?thesis
      using run
      by (cases kd) (auto simp: thread_run_def run_check_def hold_fiber_def Let_def split: if_splits
          intro!: set intro: subsetD [OF schedule_keeps(1)])
  next
    case Run_Done
    then show ?thesis using run i by (auto simp: thread_run_def keeps_def intro!: exI [of _ ?th])
  qed
qed

lemma stranded_step:
  assumes st: "stranded ft s" and step: "sched_step prog conf i s = Inr s'"
  shows "stranded ft s'"
proof (cases "i < length (sc_runs s)")
  case False
  then show ?thesis using st step by (simp add: sched_step_def)
next
  case True
  let ?th = "sc_runs s ! i"
  have run: "thread_run prog conf i ?th s = Inr s'" using step True by (simp add: sched_step_def)
  have k: "ft_thread ft \<noteq> -1" "th_id ?th \<noteq> ft_thread ft \<or> th_pc ?th = Run_Done"
    using st True by (auto simp: stranded_def)
  obtain th where th: "sc_runs s' = (sc_runs s)[i := th]" "th_id th = th_id ?th"
    and kept: "m_root_thread_id s' = m_root_thread_id s" "ft \<in> set (m_fibers s')"
    using keeps_thread_run [OF run True k] st by (auto simp: keeps_def stranded_def)
  have "th_pc th = Run_Done" if "th_id th = ft_thread ft"
  proof -
    have "th_pc ?th = Run_Done" using k(2) th(2) that by simp
    then have "s' = s" using run by (simp add: thread_run_def)
    then have "th = ?th" using th(1) True by (metis nth_list_update_eq)
    then show ?thesis using \<open>th_pc ?th = Run_Done\<close> by simp
  qed
  then show ?thesis
    using st th(1) kept set_update_subset_insert [of "sc_runs s" i th] by (auto simp: stranded_def)
qed

lemma stranded_schedule_all: "stranded ft s \<Longrightarrow> stranded ft (snd (schedule_all fts nt s))"
proof (induction fts arbitrary: nt s)
  case (Cons x fts)
  obtain b t where t: "Scheduler_scheduleNoLock (x\<lparr>ft_thread := -1\<rparr>) s = (b, t)"
    by (cases "Scheduler_scheduleNoLock (x\<lparr>ft_thread := -1\<rparr>) s")
  then have "stranded ft t" using Cons.prems
    by (cases "task_empty (x\<lparr>ft_thread := -1\<rparr>)") (auto simp: Scheduler_scheduleNoLock_def Let_def stranded_def)
  from Cons.IH [OF this] t show ?case by simp
qed simp

lemma stranded_tickle [simp]:
  "stranded ft (Scheduler_tickle s) = stranded ft s" "stranded ft ((Scheduler_tickle ^^ n) s) = stranded ft s"
proof -
  show tick: "stranded ft (Scheduler_tickle s) = stranded ft s" for s :: "('a, 'b) sched"
    by (simp add: stranded_def Scheduler_tickle_def)
  show "stranded ft ((Scheduler_tickle ^^ n) s) = stranded ft s" by (induction n) (simp_all add: tick)
qed

lemma stranded_range:
  assumes "stranded ft s" and "Scheduler_schedule_range fts s = (fts', s')"
  shows "stranded ft s'"
  using stranded_schedule_all [OF assms(1), of fts False] assms(2)
  by (auto simp: Scheduler_schedule_range_def split: prod.splits if_splits)

lemma stranded_flags [simp]:
  "stranded ft (s\<lparr>m_stopping := b\<rparr>) = stranded ft s" "stranded ft (s\<lparr>m_auto_stop := b\<rparr>) = stranded ft s"
  by (simp_all add: stranded_def)

lemma stranded_root:
  assumes "stranded ft s" and "th_id th = m_root_thread_id s"
  shows "stranded ft (s\<lparr>sc_world := w, sc_runs := sc_runs s @ [th]\<rparr>)"
  using assms by (auto simp: stranded_def)

lemma stranded_stop: "stranded ft s \<Longrightarrow> Scheduler_stop this tls s = Inr (early, s') \<Longrightarrow> stranded ft s'"
  by (auto simp: Scheduler_stop_def Let_def split: if_splits option.splits intro!: stranded_root)

lemma stranded_schedule: "stranded ft s \<Longrightarrow> stranded ft (Scheduler_schedule x s)"
  using subsetD [OF schedule_keeps(1), of ft s x] by (auto simp: stranded_def)

lemma stranded_swap: "stranded ft s \<Longrightarrow> Scheduler_stop_swap s = (thrs, s') \<Longrightarrow> stranded ft s'"
  by (auto simp: Scheduler_stop_swap_def stranded_def)

lemma stranded_start:
  "stranded ft s \<Longrightarrow> Scheduler_start tids s = Inr s' \<Longrightarrow> ft_thread ft \<notin> set tids \<Longrightarrow> stranded ft s'"
  using in_set_takeD [of "ft_thread ft" "m_thread_count s" tids]
  by (auto simp: Scheduler_start_def Let_def stranded_def new_sthread_def split: if_splits)

text \<open>A callback that was scheduled for thread 102 and yields to READY goes on in thread 101: \<open>run\<close>
  schedules the fiber again without its thread.\<close>

theorem pinned_callback_migrates:
  "\<exists>s. sched_reach late_prog 0 demo_new (demo_sched [cb_task 0 102]) \<and>
       sched_reach late_prog 0 (demo_sched [cb_task 0 102]) s \<and>
       th_id (sc_runs s ! 0) = 101 \<and> (\<exists>a. th_ctl (sc_runs s ! 0) = At_Callback False a (User 1))"
proof -
  have "\<exists>s. fold_r (sched_step late_prog 0) [1, 1, 1, 1, 1, 1, 1, 1, 0, 0, 0] (demo_sched [cb_task 0 102]) = Inr s \<and>
      th_id (sc_runs s ! 0) = 101 \<and> (\<exists>a. th_ctl (sc_runs s ! 0) = At_Callback False a (User 1))"
    by (simp add: sched_run_defs demo_sched_def late_prog_def)
  then obtain s where s: "fold_r (sched_step late_prog 0) [1, 1, 1, 1, 1, 1, 1, 1, 0, 0, 0] (demo_sched [cb_task 0 102]) = Inr s"
    "th_id (sc_runs s ! 0) = 101" "\<exists>a. th_ctl (sc_runs s ! 0) = At_Callback False a (User 1)" by blast
  show ?thesis
    by (intro exI [of _ s] conjI demo_sched_reach sched_reach_steps [OF sr_init s(1)] s(2,3))
qed

end
