(* ===== verification/Pool_Model.thy ===== *)
theory Pool_Model
  imports Scheduler
begin

text \<open>
  The worker pool that a scheduler without the caller's thread is for its users (\<open>pool_step\<close>), the invariant of
  the scheduler that makes it one (\<open>pool_inv\<close>), the abstraction (\<open>pool_abs\<close>), and the lemmas on updates of
  one thread that keep both.
\<close>

section \<open>The abstract worker pool\<close>

text \<open>
  A queue of tasks, what each worker executes, and the rest of the program. A worker without work may take the
  first task it is allowed to; a worker with work executes the callback step by step, to its return or to an
  exception that is caught. A worker can also do nothing.
\<close>

type_synonym ('p, 'w) pool = "'p task list \<times> 'p option list \<times> 'w"

inductive pool_step :: "('p, 'w) user_prog \<Rightarrow> int \<Rightarrow> nat \<Rightarrow> ('p, 'w) pool \<Rightarrow> ('p, 'w) pool \<Rightarrow> bool" for prog tid i where
  pool_nothing: "pool_step prog tid i (q, rs, e) (q, rs, e)"
| pool_take: "rs ! i = None \<Longrightarrow> \<not> foreign tid ft \<Longrightarrow> \<forall>t\<in>set pre. foreign tid t \<Longrightarrow> ft_cb ft = Some p \<Longrightarrow>
     pool_step prog tid i (pre @ ft # post, rs, e) (pre @ post, rs[i := Some p], e)"
| pool_work: "rs ! i = Some p \<Longrightarrow> prog p e = (e', A_Work p') \<Longrightarrow>
     pool_step prog tid i (q, rs, e) (q, rs[i := Some p'], e')"
| pool_schedule: "rs ! i = Some p \<Longrightarrow> prog p e = (e', A_Schedule ft p') \<Longrightarrow>
     pool_step prog tid i (q, rs, e) (q @ (if task_empty ft then [] else [ft]), rs[i := Some p'], e')"
| pool_return: "rs ! i = Some p \<Longrightarrow> prog p e = (e', A_Return) \<Longrightarrow>
     pool_step prog tid i (q, rs, e) (q, rs[i := None], e')"
| pool_throw: "rs ! i = Some p \<Longrightarrow> prog p e = (e', A_Throw x) \<Longrightarrow>
     pool_step prog tid i (q, rs, e) (q, rs[i := None], e')"

text \<open>Programs whose callbacks schedule callbacks only, do not yield, and throw nothing that ends the process.\<close>

definition callback_prog :: "('p, 'w) user_prog \<Rightarrow> bool" where
  "callback_prog prog \<longleftrightarrow>
     (\<forall>p e. case snd (prog p e) of
              A_Work p' \<Rightarrow> True
            | A_Schedule ft p' \<Rightarrow> ft_fiber ft = None
            | A_Return \<Rightarrow> True
            | A_Throw x \<Rightarrow> is_exception x
            | _ \<Rightarrow> False)"

section \<open>The invariant of a pool\<close>

definition own :: "'p sthread \<Rightarrow> nat set" where
  "own th = {a. th_idle th = Some a \<or> th_cb_fiber th = Some a}"

definition settled :: "'p sthread \<Rightarrow> bool" where
  "settled th \<longleftrightarrow> (\<exists>m. th_tls th = \<lparr>t_fiber = Some m, t_threadFiber = Some m, t_main_fiber = Some m\<rparr>)"

definition inside :: "nat \<Rightarrow> 'p sthread \<Rightarrow> bool" where
  "inside a th \<longleftrightarrow> (\<exists>m. th_tls th = \<lparr>t_fiber = Some a, t_threadFiber = Some m, t_main_fiber = Some m\<rparr>)"

definition idle_rests :: "'p code fiber_world \<Rightarrow> 'p sthread \<Rightarrow> bool" where
  "idle_rests w th \<longleftrightarrow>
     (\<exists>d f. th_idle th = Some d \<and> fw_fibers w d = Some f \<and>
        (f_state f = TERM' \<or>
         f_state f \<noteq> EXEC \<and> (f_ctx f = Ctx_MainFunc \<and> f_cb f = Some Idle_Loop \<or> f_ctx f = Ctx_At Idle_Loop)))"

definition cb_rests :: "'p code fiber_world \<Rightarrow> 'p sthread \<Rightarrow> bool" where
  "cb_rests w th \<longleftrightarrow>
     (\<forall>c. th_cb_fiber th = Some c \<longrightarrow> th_idle th \<noteq> Some c \<and>
        (\<exists>f. fw_fibers w c = Some f \<and> f_stack f \<and> f_state f \<in> {TERM', EXCEPT, INIT}))"

fun cb_control :: "nat \<Rightarrow> 'p code control \<Rightarrow> 'p code fiber \<Rightarrow> bool" where
  "cb_control a (At_Entry False) f = (\<exists>p. f_cb f = Some (User p))"
| "cb_control a (At_Callback False b (User p)) f = (b = a)"
| "cb_control a (At_Exit False b) f = (b = a \<and> f_state f \<in> {TERM', EXCEPT})"
| "cb_control a c f = False"

fun idle_control :: "nat \<Rightarrow> 'p code control \<Rightarrow> 'p code fiber \<Rightarrow> bool" where
  "idle_control a (At_Entry False) f = (f_state f = EXEC \<and> f_cb f = Some Idle_Loop)"
| "idle_control a (At_Callback False b Idle_Loop) f = (f_state f = EXEC \<and> b = a)"
| "idle_control a (At_Yield False b Idle_Loop) f = (b = a \<and> f_state f = HOLD)"
| "idle_control a (At_Exit False b) f = (b = a \<and> f_state f = TERM')"
| "idle_control a c f = False"

definition cb_task_ok :: "'p task \<Rightarrow> bool" where
  "cb_task_ok ft \<longleftrightarrow> ft_fiber ft = None \<and> ft_cb ft \<noteq> None"

fun pc_ok :: "'p code fiber_world \<Rightarrow> 'p sthread \<Rightarrow> 'p run_pc \<Rightarrow> bool" where
  "pc_ok w th Run_Start = (th_tls th = fiber_tls_init \<and> th_idle th = None \<and> th_cb_fiber th = None)"
| "pc_ok w th Run_Scan = (settled th \<and> idle_rests w th \<and> cb_rests w th)"
| "pc_ok w th (Run_Task r) =
     (settled th \<and> idle_rests w th \<and> cb_rests w th \<and> (\<forall>ft. r = Some ft \<longrightarrow> cb_task_ok ft))"
| "pc_ok w th (Run_In k a) =
     (inside a th \<and>
      (k = K_Cb \<and> th_cb_fiber th = Some a \<and> th_idle th \<noteq> Some a \<and> idle_rests w th \<and>
         (\<exists>f. fw_fibers w a = Some f \<and> f_stack f \<and> cb_control a (th_ctl th) f) \<or>
       k = K_Idle \<and> th_idle th = Some a \<and> cb_rests w th \<and>
         (\<exists>f. fw_fibers w a = Some f \<and> idle_control a (th_ctl th) f)))"
| "pc_ok w th (Run_After k a) =
     (settled th \<and> idle_rests w th \<and> cb_rests w th \<and>
      (k = K_Cb \<and> th_cb_fiber th = Some a \<and> state_at w a \<in> {Some TERM', Some EXCEPT} \<or> k = K_Idle \<and> th_idle th = Some a))"
| "pc_ok w th (Run_Check k a) =
     (settled th \<and> idle_rests w th \<and> cb_rests w th \<and>
      (k = K_Cb \<and> th_cb_fiber th = Some a \<and> state_at w a \<in> {Some TERM', Some EXCEPT} \<or> k = K_Idle \<and> th_idle th = Some a))"
| "pc_ok w th Run_Done = True"

definition thread_ok :: "'p code fiber_world \<Rightarrow> 'p sthread \<Rightarrow> bool" where
  "thread_ok w th \<longleftrightarrow>
     (\<forall>a\<in>own th. fw_fibers w a \<noteq> None) \<and> th_id th \<noteq> -1 \<and> \<not> th_root th \<and> pc_ok w th (th_pc th)"

definition fibers_live :: "'p fiber_world \<Rightarrow> bool" where
  "fibers_live w \<longleftrightarrow> (\<forall>a. fw_fibers w a \<noteq> None \<longrightarrow> a < fw_next w)"

definition pool_inv :: "('p, 'w) sched \<Rightarrow> bool" where
  "pool_inv s \<longleftrightarrow>
     m_root_fiber s = None \<and> m_root_thread_id s = -1 \<and> (\<forall>ft\<in>set (m_fibers s). cb_task_ok ft) \<and>
     fibers_live (sc_world s) \<and> (\<forall>th\<in>set (sc_runs s). thread_ok (sc_world s) th) \<and>
     (\<forall>i j. i < length (sc_runs s) \<longrightarrow> j < length (sc_runs s) \<longrightarrow> i \<noteq> j \<longrightarrow>
        own (sc_runs s ! i) \<inter> own (sc_runs s ! j) = {})"

text \<open>What a worker executes.\<close>

definition running :: "'p code fiber_world \<Rightarrow> 'p sthread \<Rightarrow> 'p option" where
  "running w th =
     (case th_pc th of
        Run_Task (Some ft) \<Rightarrow> ft_cb ft
      | Run_In K_Cb a \<Rightarrow>
          (case th_ctl th of
             At_Entry c \<Rightarrow> (case map_option f_cb (fw_fibers w a) of Some (Some (User p)) \<Rightarrow> Some p | _ \<Rightarrow> None)
           | At_Callback c b (User p) \<Rightarrow> Some p
           | _ \<Rightarrow> None)
      | _ \<Rightarrow> None)"

definition pool_abs :: "('p, 'w) sched \<Rightarrow> ('p, 'w) pool" where
  "pool_abs s = (m_fibers s, map (running (sc_world s)) (sc_runs s), sc_env s)"

section \<open>Measures of progress\<close>

text \<open>
  Programs whose callbacks come to an end: \<open>rank\<close> bounds the steps of a callback from a point on and of what it
  schedules. \<open>pot\<close> counts what is left to do for the task in the hand of a thread, \<open>queue_pot\<close> for the tasks in the
  queue.
\<close>

definition terminating :: "('p, 'w) user_prog \<Rightarrow> ('p \<Rightarrow> nat) \<Rightarrow> bool" where
  "terminating prog rank \<longleftrightarrow>
     (\<forall>p e. case snd (prog p e) of
              A_Work p' \<Rightarrow> rank p' < rank p
            | A_Schedule ft p' \<Rightarrow> rank p' + (case ft_cb ft of Some q \<Rightarrow> rank q | None \<Rightarrow> 0) < rank p
            | _ \<Rightarrow> True)"

definition task_pot :: "('p \<Rightarrow> nat) \<Rightarrow> 'p task \<Rightarrow> nat" where
  "task_pot rank ft = (case ft_cb ft of Some p \<Rightarrow> 7 * rank p + 6 | None \<Rightarrow> 0)"

definition queue_pot :: "('p \<Rightarrow> nat) \<Rightarrow> 'p task list \<Rightarrow> nat" where
  "queue_pot rank q = sum_list (map (task_pot rank) q)"

definition pot :: "('p \<Rightarrow> nat) \<Rightarrow> 'p code fiber_world \<Rightarrow> 'p sthread \<Rightarrow> nat" where
  "pot rank w th =
     (case th_pc th of
        Run_Task (Some ft) \<Rightarrow> (case running w th of Some p \<Rightarrow> 7 * rank p + 5 | None \<Rightarrow> 0)
      | Run_In k a \<Rightarrow>
          if k = K_Idle then 0
          else (case (th_ctl th, running w th) of
                  (At_Entry c, Some p) \<Rightarrow> 7 * rank p + 4
                | (At_Callback c b x, Some p) \<Rightarrow> 7 * rank p + 3
                | _ \<Rightarrow> 2)
      | Run_After k a \<Rightarrow> if k = K_Idle then 0 else 1
      | _ \<Rightarrow> 0)"

text \<open>Whether the idle fiber of a thread has ended, and how far a thread is from the queue and from its end.\<close>

definition idle_term :: "'p code fiber_world \<Rightarrow> 'p sthread \<Rightarrow> bool" where
  "idle_term w th = (case th_idle th of None \<Rightarrow> False | Some d \<Rightarrow> state_at w d = Some TERM')"

definition leaving :: "'p code fiber_world \<Rightarrow> 'p sthread \<Rightarrow> bool" where
  "leaving w th \<longleftrightarrow> th_pc th = Run_Done \<or> idle_term w th"

definition to_queue :: "'p sthread \<Rightarrow> nat" where
  "to_queue th =
     (case th_pc th of
        Run_Start \<Rightarrow> 1
      | Run_Scan \<Rightarrow> 0
      | Run_Task r \<Rightarrow> 6
      | Run_In k a \<Rightarrow> (case th_ctl th of At_Entry c \<Rightarrow> 5 | At_Callback c b x \<Rightarrow> 4 | _ \<Rightarrow> 3)
      | Run_After k a \<Rightarrow> 2
      | Run_Check k a \<Rightarrow> 1
      | Run_Done \<Rightarrow> 0)"

definition to_end :: "'p code fiber_world \<Rightarrow> 'p sthread \<Rightarrow> nat" where
  "to_end w th =
     (case th_pc th of
        Run_Start \<Rightarrow> 10
      | Run_Scan \<Rightarrow> if idle_term w th then 2 else 9
      | Run_Task r \<Rightarrow> if idle_term w th then 1 else 8
      | Run_In k a \<Rightarrow>
          if idle_term w th then 5 else (case th_ctl th of At_Entry c \<Rightarrow> 7 | At_Callback c b x \<Rightarrow> 6 | _ \<Rightarrow> 12)
      | Run_After k a \<Rightarrow> if idle_term w th then 4 else 11
      | Run_Check k a \<Rightarrow> if idle_term w th then 3 else 10
      | Run_Done \<Rightarrow> 0)"

text \<open>
  What a step of the thread \<open>th0\<close> in \<open>s\<close> to \<open>th\<close> in \<open>t\<close> achieves: with a task in hand, less is left to do; without,
  it takes a task, or comes nearer to the queue, or finds no task in it that is for this thread or any. A thread
  begins to leave only when the scheduler is stopping, and then each step brings it nearer to its end.
\<close>

definition progress ::
  "('p \<Rightarrow> nat) \<Rightarrow> ('p, 'w) user_prog \<Rightarrow> ('p, 'w) sched \<Rightarrow> 'p sthread \<Rightarrow> ('p, 'w) sched \<Rightarrow> 'p sthread \<Rightarrow> bool" where
  "progress rank prog s th0 t th \<longleftrightarrow>
     m_auto_stop t = m_auto_stop s \<and> m_stopping t = m_stopping s \<and>
     (if 0 < pot rank (sc_world s) th0
      then terminating prog rank \<longrightarrow>
             queue_pot rank (m_fibers t) + pot rank (sc_world t) th < queue_pot rank (m_fibers s) + pot rank (sc_world s) th0
      else queue_pot rank (m_fibers t) + pot rank (sc_world t) th < queue_pot rank (m_fibers s) \<or>
           m_fibers t = m_fibers s \<and> pot rank (sc_world t) th = 0 \<and>
           (leaving (sc_world s) th0 \<or>
            (if th_pc th0 = Run_Scan then \<forall>ft\<in>set (m_fibers s). foreign (th_id th0) ft else to_queue th < to_queue th0))) \<and>
     (leaving (sc_world t) th \<longrightarrow> leaving (sc_world s) th0 \<or> Scheduler_stopping s) \<and>
     (Scheduler_stopping s \<and> \<not> active_pc (th_pc th0) \<and> th_pc th0 \<noteq> Run_Done \<longrightarrow>
        to_end (sc_world t) th < to_end (sc_world s) th0)"

lemmas progress_defs = progress_def pot_def leaving_def idle_term_def to_queue_def to_end_def running_def active_pc_def

section \<open>Updates that keep it\<close>

lemma pc_ok_frame:
  assumes "\<forall>a\<in>own th. fw_fibers w' a = fw_fibers w a"
  shows "pc_ok w' th pc = pc_ok w th pc"
proof -
  have eq: "fw_fibers w' a = fw_fibers w a" if "th_idle th = Some a \<or> th_cb_fiber th = Some a" for a
    using assms that unfolding own_def by blast
  then have "idle_rests w' th = idle_rests w th" "cb_rests w' th = cb_rests w th"
    by (cases "th_idle th"; simp add: idle_rests_def) (cases "th_cb_fiber th"; simp add: cb_rests_def eq)
  with eq show ?thesis by (cases pc) (auto simp: state_at_def)
qed

lemma thread_ok_frame:
  "\<forall>a\<in>own th. fw_fibers w' a = fw_fibers w a \<Longrightarrow> thread_ok w th \<Longrightarrow> thread_ok w' th"
  unfolding thread_ok_def by (metis pc_ok_frame)

lemma running_frame:
  "\<forall>a\<in>own th. fw_fibers w' a = fw_fibers w a \<Longrightarrow> thread_ok w th \<Longrightarrow> running w' th = running w th"
  by (auto simp: running_def thread_ok_def own_def split: run_pc.splits option.splits kind.splits control.splits)

lemma measures_frame:
  assumes "\<forall>a\<in>own th. fw_fibers w' a = fw_fibers w a" and "thread_ok w th"
  shows "pot rank w' th = pot rank w th" "idle_term w' th = idle_term w th" "leaving w' th = leaving w th"
    "to_end w' th = to_end w th"
proof -
  show "pot rank w' th = pot rank w th" unfolding pot_def running_frame [OF assms] ..
  show i: "idle_term w' th = idle_term w th"
    using assms(1) by (auto simp: idle_term_def state_at_def own_def split: option.splits)
  show "leaving w' th = leaving w th" "to_end w' th = to_end w th" by (simp_all add: leaving_def to_end_def i)
qed

definition world_le :: "nat set \<Rightarrow> 'p fiber_world \<Rightarrow> 'p fiber_world \<Rightarrow> bool" where
  "world_le A w w' \<longleftrightarrow>
     fw_next w \<le> fw_next w' \<and> (fibers_live w \<longrightarrow> fibers_live w') \<and>
     (\<forall>b. b \<notin> A \<longrightarrow> b < fw_next w \<longrightarrow> fw_fibers w' b = fw_fibers w b)"

lemma world_le_refl [simp]: "world_le A w w"
  by (simp add: world_le_def)

lemma world_le_trans: "world_le A w w' \<Longrightarrow> world_le A w' w'' \<Longrightarrow> world_le A w w''"
  by (simp add: world_le_def)

lemma world_le_upd [simp]: "a \<in> A \<Longrightarrow> world_le A w (upd_fiber a f w)"
  by (auto simp: world_le_def fibers_live_def)

lemma world_le_ctor: "Fiber_ctor conf cb stacksize use_caller w = (a, w') \<Longrightarrow> world_le A w w'"
  by (auto simp: world_le_def Fiber_ctor_def new_fiber_def fibers_live_def Let_def less_Suc_eq split: if_splits)

lemma world_le_GetThis: "Fiber_GetThis (tls, w) = (a, tls', w') \<Longrightarrow> world_le A w w'"
  by (auto simp: world_le_def Fiber_GetThis_def Fiber_ctor_main_def new_fiber_def fibers_live_def less_Suc_eq
      split: option.splits if_splits)

text \<open>A step of thread \<open>i\<close> to the thread state \<open>th\<close>, in the state \<open>t\<close> whose threads are still the old ones.\<close>

definition pool_update :: "nat \<Rightarrow> ('p, 'w) sched \<Rightarrow> 'p sthread \<Rightarrow> ('p, 'w) sched \<Rightarrow> bool" where
  "pool_update i s th t \<longleftrightarrow>
     sc_runs t = sc_runs s \<and> m_root_fiber t = m_root_fiber s \<and> m_root_thread_id t = m_root_thread_id s \<and>
     (\<forall>ft\<in>set (m_fibers t). cb_task_ok ft) \<and> world_le (own th) (sc_world s) (sc_world t) \<and>
     own th \<subseteq> own (sc_runs s ! i) \<union> {a. fw_next (sc_world s) \<le> a} \<and> thread_ok (sc_world t) th"

lemma pool_inv_thread: "pool_inv s \<Longrightarrow> i < length (sc_runs s) \<Longrightarrow> thread_ok (sc_world s) (sc_runs s ! i)"
  by (simp add: pool_inv_def)

lemma own_lt: "fibers_live w \<Longrightarrow> thread_ok w th \<Longrightarrow> a \<in> own th \<Longrightarrow> a < fw_next w"
  by (auto simp: thread_ok_def fibers_live_def)

lemma pool_update_others:
  assumes inv: "pool_inv s" and i: "i < length (sc_runs s)" and up: "pool_update i s th t"
    and j: "j < length (sc_runs s)" "j \<noteq> i"
  shows "own th \<inter> own (sc_runs s ! j) = {}"
    and "\<forall>a\<in>own (sc_runs s ! j). fw_fibers (sc_world t) a = fw_fibers (sc_world s) a"
proof -
  have lt: "a < fw_next (sc_world s)" if "a \<in> own (sc_runs s ! j)" for a
    using own_lt [of "sc_world s" "sc_runs s ! j" a] pool_inv_thread [OF inv j(1)] inv that
    by (simp add: pool_inv_def)
  have "own (sc_runs s ! i) \<inter> own (sc_runs s ! j) = {}" using inv i j by (simp add: pool_inv_def)
  then show disj: "own th \<inter> own (sc_runs s ! j) = {}"
    using up lt unfolding pool_update_def by fastforce
  show "\<forall>a\<in>own (sc_runs s ! j). fw_fibers (sc_world t) a = fw_fibers (sc_world s) a"
    using up lt disj unfolding pool_update_def world_le_def by blast
qed

lemma pool_update_inv:
  assumes inv: "pool_inv s" and i: "i < length (sc_runs s)" and up: "pool_update i s th t"
  shows "pool_inv (set_thread i th t)"
proof -
  note others = pool_update_others [OF inv i up]
  have "thread_ok (sc_world t) ((sc_runs s)[i := th] ! j)" if "j < length (sc_runs s)" for j
    using that up others(2) [of j] pool_inv_thread [OF inv that] i
    by (cases "j = i") (auto simp: pool_update_def intro: thread_ok_frame)
  then have "\<forall>th'\<in>set ((sc_runs s)[i := th]). thread_ok (sc_world t) th'"
    by (auto simp: in_set_conv_nth)
  moreover have "own ((sc_runs s)[i := th] ! j) \<inter> own ((sc_runs s)[i := th] ! k) = {}"
    if "j < length (sc_runs s)" "k < length (sc_runs s)" "j \<noteq> k" for j k
    using that others(1) [of j] others(1) [of k] inv i by (auto simp: nth_list_update pool_inv_def)
  ultimately show ?thesis
    using inv up by (simp add: pool_inv_def pool_update_def set_thread_def world_le_def)
qed

lemma pool_update_abs:
  assumes inv: "pool_inv s" and i: "i < length (sc_runs s)" and up: "pool_update i s th t"
  shows "pool_abs (set_thread i th t) =
           (m_fibers t, (map (running (sc_world s)) (sc_runs s))[i := running (sc_world t) th], sc_env t)"
proof -
  have "running (sc_world t) ((sc_runs s)[i := th] ! j) =
      (map (running (sc_world s)) (sc_runs s))[i := running (sc_world t) th] ! j" if "j < length (sc_runs s)" for j
    using that i running_frame [OF pool_update_others(2) [OF inv i up] pool_inv_thread [OF inv]]
    by (cases "j = i") auto
  then have "map (running (sc_world t)) ((sc_runs s)[i := th]) =
      (map (running (sc_world s)) (sc_runs s))[i := running (sc_world t) th]"
    by (intro nth_equalityI) simp_all
  then show ?thesis using up by (simp add: pool_abs_def set_thread_def pool_update_def)
qed

section \<open>One step\<close>

definition pool_ok :: "('p \<Rightarrow> nat) \<Rightarrow> ('p, 'w) user_prog \<Rightarrow> nat \<Rightarrow> ('p, 'w) sched \<Rightarrow> ('p, 'w) sched \<Rightarrow> bool" where
  "pool_ok rank prog i s s' \<longleftrightarrow>
     (\<exists>th t. s' = set_thread i th t \<and> pool_update i s th t \<and> th_id th = th_id (sc_runs s ! i) \<and>
        progress rank prog s (sc_runs s ! i) t th \<and>
        pool_step prog (th_id th) i (pool_abs s)
          (m_fibers t, (map (running (sc_world s)) (sc_runs s))[i := running (sc_world t) th], sc_env t))"

lemma pool_ok_nothing:
  assumes "i < length (sc_runs s)" and "pool_update i s th t" and "th_id th = th_id (sc_runs s ! i)"
    and "m_fibers t = m_fibers s" and "sc_env t = sc_env s"
    and "running (sc_world t) th = running (sc_world s) (sc_runs s ! i)"
    and "progress rank prog s (sc_runs s ! i) t th"
  shows "pool_ok rank prog i s (set_thread i th t)"
proof -
  have "(map (running (sc_world s)) (sc_runs s))[i := running (sc_world t) th] =
      map (running (sc_world s)) (sc_runs s)"
    using assms(1,6) by (simp add: list_update_same_conv)
  then show ?thesis
    unfolding pool_ok_def pool_abs_def using assms
    by (intro exI [of _ th] exI [of _ t]) (simp add: pool_nothing)
qed

end
