(* ===== verification/Scheduler_Pool.thy ===== *)
theory Scheduler_Pool
  imports Pool_Model
begin

text \<open>
  What the scheduler owes its users: scheduling a range is scheduling its elements, and a pool of threads that is
  given callbacks executes them as an abstract worker pool would.
\<close>

section \<open>Ranges\<close>

definition enqueue :: "'p task list \<Rightarrow> nat \<Rightarrow> ('p, 'w) sched \<Rightarrow> ('p, 'w) sched" where
  "enqueue fts n s = s\<lparr>m_fibers := m_fibers s @ fts, sc_tickles := sc_tickles s + n\<rparr>"

lemma enqueue_simps [simp]:
  "enqueue [] 0 s = s" "enqueue fts m (enqueue fts' n s) = enqueue (fts' @ fts) (n + m) s"
  "m_fibers (enqueue fts n s) = m_fibers s @ fts"
  by (simp_all add: enqueue_def)

lemma Scheduler_schedule_enqueue:
  "\<not> task_empty ft \<Longrightarrow> Scheduler_schedule ft s = enqueue [ft] (if m_fibers s = [] then 1 else 0) s"
  by (simp add: Scheduler_schedule_def Scheduler_scheduleNoLock_def Scheduler_tickle_def enqueue_def Let_def)

lemma task_empty_thread [simp]: "task_empty (ft\<lparr>ft_thread := t\<rparr>) = task_empty ft"
  by (simp add: task_empty_def)

lemma fold_schedule_enqueue:
  "\<forall>ft\<in>set fts. \<not> task_empty ft \<Longrightarrow>
   fold Scheduler_schedule fts s = enqueue fts (if m_fibers s = [] \<and> fts \<noteq> [] then 1 else 0) s"
  by (induction fts arbitrary: s) (simp_all add: Scheduler_schedule_enqueue)

lemma schedule_all_enqueue:
  "\<forall>ft\<in>set fts. \<not> task_empty ft \<Longrightarrow>
   schedule_all fts b s =
     ((m_fibers s = [] \<and> fts \<noteq> []) \<or> b, enqueue (map (\<lambda>ft. ft\<lparr>ft_thread := -1\<rparr>) fts) 0 s)"
proof (induction fts arbitrary: b s)
  case (Cons ft fts)
  have "Scheduler_scheduleNoLock (ft\<lparr>ft_thread := -1\<rparr>) s = (m_fibers s = [], enqueue [ft\<lparr>ft_thread := -1\<rparr>] 0 s)"
    using Cons.prems by (simp add: Scheduler_scheduleNoLock_def enqueue_def Let_def)
  then show ?case using Cons by simp
qed simp

lemma Scheduler_schedule_range_enqueue:
  "\<forall>ft\<in>set fts. \<not> task_empty ft \<Longrightarrow>
   snd (Scheduler_schedule_range fts s) =
     enqueue (map (\<lambda>ft. ft\<lparr>ft_thread := -1\<rparr>) fts) (if m_fibers s = [] \<and> fts \<noteq> [] then 1 else 0) s"
  by (simp add: Scheduler_schedule_range_def schedule_all_enqueue Scheduler_tickle_def enqueue_def)

text \<open>C40: Scheduling a range is scheduling its elements. For tasks that are not empty, the range version of \<open>schedule\<close>,
  which takes the lock once and tickles at most once, leaves the scheduler in the same state as one call of
  \<open>schedule\<close> per element without a fixed thread: the same queue in the same order and the same number of tickles.\<close>

theorem schedule_range_equiv:
  assumes "\<forall>ft\<in>set fts. \<not> task_empty ft"
  shows "snd (Scheduler_schedule_range fts s) = fold (\<lambda>ft. Scheduler_schedule (ft\<lparr>ft_thread := -1\<rparr>)) fts s"
proof -
  have "fold (\<lambda>ft. Scheduler_schedule (ft\<lparr>ft_thread := -1\<rparr>)) fts s =
      fold Scheduler_schedule (map (\<lambda>ft. ft\<lparr>ft_thread := -1\<rparr>) fts) s"
    by (simp add: fold_map o_def)
  also have "\<dots> = enqueue (map (\<lambda>ft. ft\<lparr>ft_thread := -1\<rparr>) fts) (if m_fibers s = [] \<and> fts \<noteq> [] then 1 else 0) s"
    using assms by (subst fold_schedule_enqueue) auto
  also have "\<dots> = snd (Scheduler_schedule_range fts s)"
    using assms by (simp add: Scheduler_schedule_range_enqueue)
  finally show ?thesis by simp
qed

theorem schedule_range_equiv_witness:
  "snd (Scheduler_schedule_range [cb_task (1 :: nat) 101, cb_task 2 (-1)] (demo_sched [])) =
     Scheduler_schedule (cb_task 2 (-1)) (Scheduler_schedule (cb_task 1 (-1)) (demo_sched []))"
proof -
  have "\<forall>ft\<in>set [cb_task (1 :: nat) 101, cb_task 2 (-1)]. \<not> task_empty ft"
    by (simp add: cb_task_def task_empty_def)
  from schedule_range_equiv [OF this, of "demo_sched []"] show ?thesis by (simp add: cb_task_def)
qed

section \<open>Steps of a pool\<close>

text \<open>The thread that steps.\<close>

lemma pool_inv_step:
  assumes "pool_inv s" and "i < length (sc_runs s)"
  shows "thread_ok (sc_world s) (sc_runs s ! i)" "fibers_live (sc_world s)" "m_root_thread_id s = -1"
    "\<forall>ft\<in>set (m_fibers s). cb_task_ok ft"
  using assms by (auto simp: pool_inv_def)

lemma pool_start:
  assumes inv: "pool_inv s" and i: "i < length (sc_runs s)" and pc: "th_pc (sc_runs s ! i) = Run_Start"
  shows "pool_ok rank prog i s (run_start conf i (sc_runs s ! i) s)"
proof -
  let ?th = "sc_runs s ! i"
  note ok = pool_inv_step [OF inv i]
  obtain m tls w where m: "Fiber_GetThis (th_tls ?th, sc_world s) = (m, tls, w)" by (metis prod_cases3)
  obtain a w' where a: "Fiber_ctor conf (Some Idle_Loop) 0 False w = (a, w')" by (metis surj_pair)
  let ?th' = "?th\<lparr>th_tls := tls\<lparr>t_main_fiber := Some m\<rparr>, th_idle := Some a, th_cb_fiber := None, th_pc := Run_Scan\<rparr>"
  have le: "world_le {a} (sc_world s) w'"
    by (rule world_le_trans [OF world_le_GetThis [OF m] world_le_ctor [OF a]])
  have init: "th_tls ?th = fiber_tls_init" "th_id ?th \<noteq> -1" "\<not> th_root ?th"
    using ok(1) pc by (simp_all add: thread_ok_def)
  have a_new: "fw_next (sc_world s) \<le> a"
    using m a by (auto simp: init Fiber_GetThis_def Fiber_ctor_main_def new_fiber_def Fiber_ctor_def fiber_tls_init_def Let_def)
  have f: "\<exists>f. fw_fibers w' a = Some f \<and> f_state f = INIT \<and> f_ctx f = Ctx_MainFunc \<and> f_cb f = Some Idle_Loop"
    using a by (auto simp: Fiber_ctor_def new_fiber_def Let_def)
  have "settled ?th'"
    using m by (auto simp: init settled_def Fiber_GetThis_def Fiber_ctor_main_def new_fiber_def Fiber_SetThis_def fiber_tls_init_def)
  then have "pool_update i s ?th' (s\<lparr>sc_world := w'\<rparr>)"
    using ok le f a_new init
    by (auto simp: pool_update_def own_def thread_ok_def idle_rests_def cb_rests_def)
  moreover have "progress rank prog s ?th (s\<lparr>sc_world := w'\<rparr>) ?th'"
    using pc f by (auto simp: progress_defs state_at_def)
  ultimately have "pool_ok rank prog i s (set_thread i ?th' (s\<lparr>sc_world := w'\<rparr>))"
    using i pc by (intro pool_ok_nothing) (auto simp: running_def)
  moreover have "run_start conf i ?th s = set_thread i ?th' (s\<lparr>sc_world := w'\<rparr>)"
    using m a init ok by (simp add: run_start_def)
  ultimately show ?thesis by simp
qed

lemma pool_scan:
  assumes inv: "pool_inv s" and i: "i < length (sc_runs s)" and pc: "th_pc (sc_runs s ! i) = Run_Scan"
  shows "\<exists>s'. run_scan i (sc_runs s ! i) s = Inr s' \<and> pool_ok rank prog i s s'"
proof -
  let ?th = "sc_runs s ! i"
  note ok = pool_inv_step [OF inv i]
  have "\<forall>ft\<in>set (m_fibers s). \<not> task_empty ft" using ok(4) by (auto simp: cb_task_ok_def task_empty_def)
  from scan_queue_spec [OF this, of "th_id ?th" "state_at (sc_world s)"]
  obtain r tm q where sc: "scan_queue (th_id ?th) (state_at (sc_world s)) (m_fibers s) = Inr (r, tm, q)"
    and spec: "case r of
        None \<Rightarrow> q = m_fibers s \<and> (\<forall>ft\<in>set (m_fibers s). \<not> eligible (th_id ?th) (state_at (sc_world s)) ft)
      | Some ft \<Rightarrow> \<exists>pre post. m_fibers s = pre @ ft # post \<and> q = pre @ post \<and>
          eligible (th_id ?th) (state_at (sc_world s)) ft \<and>
          (\<forall>ft\<in>set pre. \<not> eligible (th_id ?th) (state_at (sc_world s)) ft)"
    by (fastforce split: option.splits)
  let ?s = "s\<lparr>m_fibers := q, m_active := m_active s + (if r \<noteq> None then 1 else 0)\<rparr>"
  let ?t = "if tm then Scheduler_tickle ?s else ?s" and ?th' = "?th\<lparr>th_pc := Run_Task r\<rparr>"
  have run: "run_scan i ?th s = Inr (set_thread i ?th' ?t)" using sc by (simp add: run_scan_def Let_def)
  have t: "m_fibers ?t = q" "sc_runs ?t = sc_runs s" "sc_world ?t = sc_world s" "sc_env ?t = sc_env s"
    "m_root_fiber ?t = m_root_fiber s" "m_root_thread_id ?t = m_root_thread_id s"
    by (simp_all add: Scheduler_tickle_def)
  have sub: "set q \<subseteq> set (m_fibers s)" "\<forall>ft. r = Some ft \<longrightarrow> ft \<in> set (m_fibers s)"
    using spec by (auto split: option.splits)
  have up: "pool_update i s ?th' ?t"
    unfolding pool_update_def t using ok pc sub
    by (auto simp: thread_ok_def own_def settled_def idle_rests_def cb_rests_def)
  have idle: "running (sc_world s) ?th = None" using pc by (simp add: running_def)
  have flags: "m_auto_stop ?t = m_auto_stop s" "m_stopping ?t = m_stopping s" by (simp_all add: Scheduler_tickle_def)
  have "pool_ok rank prog i s (set_thread i ?th' ?t)"
  proof (cases r)
    case None
    have "\<forall>ft\<in>set (m_fibers s). foreign (th_id ?th) ft"
      using None spec ok(4) by (auto simp: eligible_def foreign_def cb_task_ok_def)
    with None have "progress rank prog s ?th ?t ?th'"
      unfolding progress_def t flags using pc spec by (auto simp: progress_defs)
    with None show ?thesis using i up t spec idle by (intro pool_ok_nothing) (auto simp: running_def)
  next
    case (Some ft)
    then obtain pre post where split: "m_fibers s = pre @ ft # post" "q = pre @ post"
      "eligible (th_id ?th) (state_at (sc_world s)) ft" "\<forall>ft\<in>set pre. \<not> eligible (th_id ?th) (state_at (sc_world s)) ft"
      using spec by auto
    have "\<not> foreign (th_id ?th) ft" using split(3) by (auto simp: eligible_def foreign_def)
    moreover have "\<forall>t\<in>set pre. foreign (th_id ?th) t"
      using split(1,4) ok(4) by (auto simp: eligible_def foreign_def cb_task_ok_def)
    moreover obtain p where p: "ft_cb ft = Some p" using ok(4) split(1) by (auto simp: cb_task_ok_def)
    ultimately have "pool_step prog (th_id ?th) i (pool_abs s)
        (pre @ post, (map (running (sc_world s)) (sc_runs s))[i := Some p], sc_env s)"
      unfolding pool_abs_def split(1) using i idle by (intro pool_take) auto
    moreover have "running (sc_world ?t) ?th' = Some p" using Some p by (simp add: running_def)
    moreover have "progress rank prog s ?th ?t ?th'"
      unfolding progress_def t flags using Some p pc split(1,2)
      by (auto simp: progress_defs queue_pot_def task_pot_def)
    ultimately show ?thesis
      unfolding pool_ok_def using up t split(2) by (intro exI [of _ ?th'] exI [of _ ?t]) (simp del: if_split)
  qed
  with run show ?thesis by blast
qed

lemma settled_enter:
  assumes "settled th" and "fw_fibers (sc_world t) a = Some f" and "f_state f \<noteq> EXEC" and "jump False a (f_ctx f) = Inr c"
  shows "\<exists>tls. enter_fiber i th k a t =
      Inr (set_thread i (th\<lparr>th_tls := tls, th_ctl := c, th_pc := Run_In k a\<rparr>)
             (t\<lparr>sc_world := upd_fiber a (\<lambda>f. f\<lparr>f_state := EXEC\<rparr>) (sc_world t)\<rparr>)) \<and>
      inside a (th\<lparr>th_tls := tls, th_ctl := c, th_pc := Run_In k a\<rparr>)"
  using assms by (auto simp: settled_def inside_def enter_fiber_def Fiber_swapIn_def Fiber_SetThis_def)

lemma rests_upd [simp]:
  "cb_rests w (th\<lparr>th_tls := tls\<rparr>) = cb_rests w th" "idle_rests w (th\<lparr>th_tls := tls\<rparr>) = idle_rests w th"
  "own (th\<lparr>th_tls := tls\<rparr>) = own th"
  "cb_rests w (th\<lparr>th_ctl := c\<rparr>) = cb_rests w th" "idle_rests w (th\<lparr>th_ctl := c\<rparr>) = idle_rests w th"
  "own (th\<lparr>th_ctl := c\<rparr>) = own th" "settled (th\<lparr>th_ctl := c\<rparr>) = settled th"
  "cb_rests w (th\<lparr>th_pc := pc\<rparr>) = cb_rests w th" "idle_rests w (th\<lparr>th_pc := pc\<rparr>) = idle_rests w th"
  "own (th\<lparr>th_pc := pc\<rparr>) = own th" "settled (th\<lparr>th_pc := pc\<rparr>) = settled th"
  "inside a (th\<lparr>th_ctl := c\<rparr>) = inside a th" "inside a (th\<lparr>th_pc := pc\<rparr>) = inside a th"
  by (simp_all add: cb_rests_def idle_rests_def own_def settled_def inside_def)

lemma cb_rests_other:
  "th_idle th = Some d \<Longrightarrow> cb_rests (upd_fiber d g w) th = cb_rests w th"
  by (auto simp: cb_rests_def)

lemma idle_rests_other:
  "th_idle th \<noteq> Some c \<Longrightarrow> idle_rests (upd_fiber c g w) th = idle_rests w th"
  by (auto simp: idle_rests_def)

lemma thread_ok_fibers: "thread_ok w th \<Longrightarrow> a \<in> own th \<Longrightarrow> fw_fibers w a \<noteq> None"
  by (simp add: thread_ok_def)

lemma thread_ok_step:
  assumes "thread_ok w th" and "own th' = own th" and "th_id th' = th_id th" and "th_root th' = th_root th"
    and "\<forall>a\<in>own th. fw_fibers w' a \<noteq> None" and "pc_ok w' th' (th_pc th')"
  shows "thread_ok w' th'"
  using assms by (simp add: thread_ok_def)

lemma pool_update_same_own:
  assumes inv: "pool_inv s" and i: "i < length (sc_runs s)" and "own th' = own (sc_runs s ! i)"
    and "th_id th' = th_id (sc_runs s ! i)" "th_root th' = th_root (sc_runs s ! i)"
    and "sc_runs t = sc_runs s" "m_root_fiber t = m_root_fiber s" "m_root_thread_id t = m_root_thread_id s"
    and "\<forall>ft\<in>set (m_fibers t). cb_task_ok ft"
    and w: "sc_world t = sc_world s \<or> (\<exists>a g. a \<in> own th' \<and> sc_world t = upd_fiber a g (sc_world s))"
    and "pc_ok (sc_world t) th' (th_pc th')"
  shows "pool_update i s th' t"
proof -
  note ok = pool_inv_step [OF inv i]
  have "world_le (own th') (sc_world s) (sc_world t)" using w by auto
  moreover have "\<forall>a\<in>own (sc_runs s ! i). fw_fibers (sc_world t) a \<noteq> None"
    using w ok(1) by (auto simp: thread_ok_def)
  ultimately show ?thesis
    using assms ok thread_ok_step [OF ok(1) assms(3,4,5)] by (auto simp: pool_update_def)
qed

lemma pool_task_none:
  assumes inv: "pool_inv s" and i: "i < length (sc_runs s)" and pc: "th_pc (sc_runs s ! i) = Run_Task None"
  shows "\<exists>s'. run_task conf i (sc_runs s ! i) None s = Inr s' \<and> pool_ok rank prog i s s'"
proof -
  let ?th = "sc_runs s ! i" and ?w = "sc_world s"
  note ok = pool_inv_step [OF inv i]
  have rest: "settled ?th" "idle_rests ?w ?th" "cb_rests ?w ?th" "\<not> th_root ?th"
    using ok(1) pc by (simp_all add: thread_ok_def)
  then obtain d f where d: "th_idle ?th = Some d" "fw_fibers ?w d = Some f"
    and f: "f_state f = TERM' \<or> f_state f \<noteq> EXEC \<and>
        (f_ctx f = Ctx_MainFunc \<and> f_cb f = Some Idle_Loop \<or> f_ctx f = Ctx_At Idle_Loop)"
    by (auto simp: idle_rests_def)
  have idle: "running ?w ?th = None" using pc by (simp add: running_def)
  show ?thesis
  proof (cases "f_state f = TERM'")
    case True
    let ?th' = "?th\<lparr>th_pc := Run_Done\<rparr>"
    have "pool_update i s ?th' s" using ok by (intro pool_update_same_own [OF inv i]) simp_all
    moreover have "progress rank prog s ?th s ?th'"
      using pc True d by (auto simp: progress_defs state_at_def)
    ultimately have "pool_ok rank prog i s (set_thread i ?th' s)"
      using i idle by (intro pool_ok_nothing) (auto simp: running_def)
    then show ?thesis using True d rest by (auto simp: run_task_def run_done_def state_at_def)
  next
    case False
    with f obtain c where ctl: "f_state f \<noteq> EXEC" "jump False d (f_ctx f) = Inr c"
      "c = At_Entry False \<and> f_cb f = Some Idle_Loop \<or> c = At_Callback False d Idle_Loop"
      by (auto simp: jump_def)
    let ?t = "s\<lparr>m_idle := m_idle s + 1\<rparr>"
    have fw: "fw_fibers (sc_world ?t) d = Some f" using d by simp
    from settled_enter [OF rest(1) fw ctl(1,2), of i K_Idle] obtain tls where
      run: "enter_fiber i ?th K_Idle d ?t = Inr (set_thread i (?th\<lparr>th_tls := tls, th_ctl := c, th_pc := Run_In K_Idle d\<rparr>)
        (?t\<lparr>sc_world := upd_fiber d (\<lambda>f. f\<lparr>f_state := EXEC\<rparr>) (sc_world ?t)\<rparr>))"
      and ins: "inside d (?th\<lparr>th_tls := tls, th_ctl := c, th_pc := Run_In K_Idle d\<rparr>)" by blast
    let ?th' = "?th\<lparr>th_tls := tls, th_ctl := c, th_pc := Run_In K_Idle d\<rparr>"
    let ?t' = "?t\<lparr>sc_world := upd_fiber d (\<lambda>f. f\<lparr>f_state := EXEC\<rparr>) (sc_world ?t)\<rparr>"
    have "cb_rests (upd_fiber d (\<lambda>f. f\<lparr>f_state := EXEC\<rparr>) ?w) ?th" using rest(3) cb_rests_other [OF d(1)] by blast
    then have "pc_ok (sc_world ?t') ?th' (th_pc ?th')" using ins d ctl(3) by auto
    then have "pool_update i s ?th' ?t'"
      using ok d by (intro pool_update_same_own [OF inv i]) (auto simp: own_def)
    moreover have "progress rank prog s ?th ?t' ?th'"
      using pc False d ctl(3) by (auto simp: progress_defs state_at_def)
    ultimately have "pool_ok rank prog i s (set_thread i ?th' ?t')"
      using i idle by (intro pool_ok_nothing) (auto simp: running_def)
    moreover have "run_task conf i ?th None s = Inr (set_thread i ?th' ?t')"
      using run d False by (simp add: run_task_def state_at_def)
    ultimately show ?thesis by blast
  qed
qed

text \<open>The callback of a task enters a fiber whose entry function is next.\<close>

lemma pool_enter_cb:
  assumes inv: "pool_inv s" and i: "i < length (sc_runs s)" and pc: "th_pc (sc_runs s ! i) = Run_Task (Some ft)"
    and p: "ft_cb ft = Some p"
    and th: "th = (sc_runs s ! i)\<lparr>th_cb_fiber := Some a\<rparr>" and new: "a \<in> own (sc_runs s ! i) \<or> fw_next (sc_world s) \<le> a"
    and own: "th_cb_fiber (sc_runs s ! i) = None \<or> th_cb_fiber (sc_runs s ! i) = Some a"
    and idle: "th_idle (sc_runs s ! i) \<noteq> Some a"
    and f: "fw_fibers w a = Some f" "f_state f = INIT" "f_ctx f = Ctx_MainFunc" "f_cb f = Some (User p)" "f_stack f"
    and le: "world_le {a} (sc_world s) w"
  shows "\<exists>s'. enter_fiber i th K_Cb a (s\<lparr>sc_world := w\<rparr>) = Inr s' \<and> pool_ok rank prog i s s'"
proof -
  let ?th = "sc_runs s ! i"
  note ok = pool_inv_step [OF inv i]
  have rest: "settled ?th" "idle_rests (sc_world s) ?th" using ok(1) pc by (simp_all add: thread_ok_def)
  have st: "settled th" using rest(1) by (simp add: th settled_def)
  have fw: "fw_fibers (sc_world (s\<lparr>sc_world := w\<rparr>)) a = Some f" using f by simp
  have j: "f_state f \<noteq> EXEC" "jump False a (f_ctx f) = Inr (At_Entry False)" using f by (simp_all add: jump_def)
  from settled_enter [OF st fw j, of i K_Cb] obtain tls where
    run: "enter_fiber i th K_Cb a (s\<lparr>sc_world := w\<rparr>) =
      Inr (set_thread i (th\<lparr>th_tls := tls, th_ctl := At_Entry False, th_pc := Run_In K_Cb a\<rparr>)
        (s\<lparr>sc_world := upd_fiber a (\<lambda>f. f\<lparr>f_state := EXEC\<rparr>) w\<rparr>))"
    and ins: "inside a (th\<lparr>th_tls := tls, th_ctl := At_Entry False, th_pc := Run_In K_Cb a\<rparr>)" by auto
  let ?th' = "th\<lparr>th_tls := tls, th_ctl := At_Entry False, th_pc := Run_In K_Cb a\<rparr>"
  let ?t' = "s\<lparr>sc_world := upd_fiber a (\<lambda>f. f\<lparr>f_state := EXEC\<rparr>) w\<rparr>"
  have own': "own ?th' = insert a (own ?th)" using own by (auto simp: own_def th)
  have le': "world_le {a} (sc_world s) (sc_world ?t')" using world_le_trans [OF le world_le_upd] by simp
  have fib: "fw_fibers (sc_world ?t') b \<noteq> None" if "b \<in> own ?th'" for b
  proof (cases "b = a")
    case False
    then have "b \<in> own ?th" using that own' by simp
    then show ?thesis
      using own_lt [OF ok(2,1)] thread_ok_fibers [OF ok(1)] le' False by (auto simp: world_le_def)
  qed (use f in simp)
  have same: "fw_fibers (sc_world ?t') b = fw_fibers (sc_world s) b" if "b \<in> own ?th" "b \<noteq> a" for b
    using that own_lt [OF ok(2,1)] le' by (auto simp: world_le_def)
  obtain d fd where d: "th_idle ?th = Some d" "fw_fibers (sc_world s) d = Some fd" using rest(2) by (auto simp: idle_rests_def)
  have dw: "fw_fibers (sc_world ?t') d = Some fd" using same [of d] d idle by (simp add: own_def)
  have "idle_rests (sc_world ?t') ?th' = idle_rests (sc_world s) ?th"
    using d dw by (simp add: th idle_rests_def del: upd_fiber_at)
  then have "pc_ok (sc_world ?t') ?th' (th_pc ?th')" using ins idle f rest(2) by (auto simp: th)
  moreover have "th_id ?th' = th_id ?th" "th_root ?th' = th_root ?th" by (simp_all add: th)
  ultimately have "thread_ok (sc_world ?t') ?th'" using ok(1) fib by (simp add: thread_ok_def del: upd_fiber_at)
  moreover have "world_le (own ?th') (sc_world s) (sc_world ?t')" using le' own' by (auto simp: world_le_def)
  moreover have "own ?th' \<subseteq> own ?th \<union> {a. fw_next (sc_world s) \<le> a}" using own' new by auto
  ultimately have "pool_update i s ?th' ?t'" using ok(4) by (simp add: pool_update_def)
  moreover have "progress rank prog s ?th ?t' ?th'"
    using pc p f d dw by (auto simp: progress_defs state_at_def th)
  ultimately have "pool_ok rank prog i s (set_thread i ?th' ?t')"
    using i pc p f by (intro pool_ok_nothing) (auto simp: running_def th)
  with run show ?thesis by blast
qed

lemma pool_task_some:
  assumes inv: "pool_inv s" and i: "i < length (sc_runs s)" and pc: "th_pc (sc_runs s ! i) = Run_Task (Some ft)"
  shows "\<exists>s'. run_task conf i (sc_runs s ! i) (Some ft) s = Inr s' \<and> pool_ok rank prog i s s'"
proof -
  let ?th = "sc_runs s ! i" and ?w = "sc_world s"
  note ok = pool_inv_step [OF inv i]
  have ft: "cb_task_ok ft" and rest: "idle_rests ?w ?th" "cb_rests ?w ?th"
    using ok(1) pc by (simp_all add: thread_ok_def)
  obtain p where p: "ft_cb ft = Some p" "ft_fiber ft = None" using ft by (auto simp: cb_task_ok_def)
  show ?thesis
  proof (cases "th_cb_fiber ?th")
    case None
    obtain a w where a: "Fiber_ctor conf (Some (User p)) 0 False ?w = (a, w)" by (metis surj_pair)
    then have f: "a = fw_next ?w" "\<exists>f. fw_fibers w a = Some f \<and> f_state f = INIT \<and> f_ctx f = Ctx_MainFunc \<and>
        f_cb f = Some (User p) \<and> f_stack f"
      by (auto simp: Fiber_ctor_def new_fiber_def Let_def)
    have "th_idle ?th \<noteq> Some a"
      using own_lt [OF ok(2,1), of a] f(1) by (auto simp: own_def)
    with pool_enter_cb [OF inv i pc p(1) refl, of a w] f None world_le_ctor [OF a]
    have "\<exists>s'. enter_fiber i (?th\<lparr>th_cb_fiber := Some a\<rparr>) K_Cb a (s\<lparr>sc_world := w\<rparr>) = Inr s' \<and> pool_ok rank prog i s s'" by blast
    then show ?thesis using a p None by (simp add: run_task_def)
  next
    case (Some a)
    then obtain f where f: "th_idle ?th \<noteq> Some a" "fw_fibers ?w a = Some f" "f_stack f" "f_state f \<in> {TERM', EXCEPT, INIT}"
      using rest(2) by (auto simp: cb_rests_def)
    let ?w' = "upd_fiber a (\<lambda>f. f\<lparr>f_cb := Some (User p), f_ctx := Ctx_MainFunc, f_state := INIT\<rparr>) ?w"
    have "Fiber_reset (Some (User p)) a ?w = Inr ?w'" using f by (auto simp: Fiber_reset_def)
    then have run: "run_task conf i ?th (Some ft) s = enter_fiber i ?th K_Cb a (s\<lparr>sc_world := ?w'\<rparr>)"
      using p Some by (simp add: run_task_def)
    have eq: "?th = ?th\<lparr>th_cb_fiber := Some a\<rparr>" using Some by simp
    show ?thesis
      unfolding run using f Some
      by (intro pool_enter_cb [OF inv i pc p(1) eq, where f = "f\<lparr>f_cb := Some (User p), f_ctx := Ctx_MainFunc, f_state := INIT\<rparr>"])
        (auto simp: own_def)
  qed
qed

text \<open>A step inside a fiber: where the thread is afterwards.\<close>

definition in_next :: "'p sthread \<Rightarrow> kind \<Rightarrow> nat \<Rightarrow> 'p code control \<Rightarrow> fiber_tls \<Rightarrow> 'p sthread" where
  "in_next th k a c tls =
     th\<lparr>th_tls := tls, th_ctl := c, th_pc := (if c = Outside then Run_After k a else Run_In k a)\<rparr>"

lemma in_next_simps [simp]:
  "own (in_next th k a c tls) = own th" "th_id (in_next th k a c tls) = th_id th"
  "th_root (in_next th k a c tls) = th_root th" "th_idle (in_next th k a c tls) = th_idle th"
  "th_cb_fiber (in_next th k a c tls) = th_cb_fiber th" "th_ctl (in_next th k a c tls) = c"
  "th_pc (in_next th k a c tls) = (if c = Outside then Run_After k a else Run_In k a)"
  "th_tls (in_next th k a c tls) = tls"
  "cb_rests w (in_next th k a c tls) = cb_rests w th" "idle_rests w (in_next th k a c tls) = idle_rests w th"
  by (simp_all add: in_next_def own_def cb_rests_def idle_rests_def)

lemma run_in_next:
  "fiber_step (code_step prog a) (th_ctl th, (th_tls th, sc_world s), s) = Inr (c, (tls, w), s') \<Longrightarrow>
   run_in prog i th k a s = Inr (set_thread i (in_next th k a c tls) (s'\<lparr>sc_world := w\<rparr>))"
  by (simp add: run_in_def in_next_def)

lemma inside_get: "inside a th \<Longrightarrow> Fiber_GetThis (th_tls th, w) = (a, th_tls th, w)"
  by (auto simp: inside_def)

lemma inside_out:
  "inside a th \<Longrightarrow> \<exists>tls. Fiber_swapOut a c (th_tls th, w) = Inr (tls, upd_fiber a (\<lambda>f. f\<lparr>f_ctx := c\<rparr>) w) \<and>
     settled (in_next th k a Outside tls)"
  by (auto simp: inside_def Fiber_swapOut_def Fiber_SetThis_def settled_def)

lemma pool_in_idle:
  assumes inv: "pool_inv s" and i: "i < length (sc_runs s)" and pc: "th_pc (sc_runs s ! i) = Run_In K_Idle a"
  shows "\<exists>s'. run_in prog i (sc_runs s ! i) K_Idle a s = Inr s' \<and> pool_ok rank prog i s s'"
proof -
  let ?th = "sc_runs s ! i" and ?w = "sc_world s"
  note ok = pool_inv_step [OF inv i]
  have ins: "inside a ?th" and idle: "th_idle ?th = Some a" and rest: "cb_rests ?w ?th"
    using ok(1) pc by (simp_all add: thread_ok_def)
  obtain f where f: "fw_fibers ?w a = Some f" "idle_control a (th_ctl ?th) f"
    using ok(1) pc by (auto simp: thread_ok_def)
  have run: "running ?w ?th = None" using pc by (simp add: running_def)
  have step: "\<exists>s'. run_in prog i ?th K_Idle a s = Inr s' \<and> pool_ok rank prog i s s'"
    if st: "fiber_step (code_step prog a) (th_ctl ?th, (th_tls ?th, ?w), s) = Inr (c, (tls, w), s)"
      and w: "w = ?w \<or> (\<exists>g. w = upd_fiber a g ?w)" and ctl: "pc_ok w (in_next ?th K_Idle a c tls) (th_pc (in_next ?th K_Idle a c tls))"
      and pr: "progress rank prog s ?th (s\<lparr>sc_world := w\<rparr>) (in_next ?th K_Idle a c tls)"
    for c tls w
  proof -
    have "pool_update i s (in_next ?th K_Idle a c tls) (s\<lparr>sc_world := w\<rparr>)"
      using w idle ctl ok(4) by (intro pool_update_same_own [OF inv i]) (auto simp: own_def)
    then have "pool_ok rank prog i s (set_thread i (in_next ?th K_Idle a c tls) (s\<lparr>sc_world := w\<rparr>))"
      using i run pr by (intro pool_ok_nothing) (auto simp: running_def)
    with run_in_next [OF st] show ?thesis by blast
  qed
  have ins': "inside a (in_next ?th K_Idle a c (th_tls ?th))" for c using ins by (simp add: inside_def)
  have rest': "cb_rests (upd_fiber a g ?w) ?th" for g using cb_rests_other [OF idle] rest by blast
  consider (entry) "th_ctl ?th = At_Entry False" "f_cb f = Some Idle_Loop" "f_state f = EXEC"
    | (callback) "th_ctl ?th = At_Callback False a Idle_Loop" "f_state f = EXEC"
    | (yield) "th_ctl ?th = At_Yield False a Idle_Loop" "f_state f = HOLD"
    | (exit) "th_ctl ?th = At_Exit False a" "f_state f = TERM'"
    using f(2) by (cases "(a, th_ctl ?th, f)" rule: idle_control.cases) auto
  then show ?thesis
  proof cases
    case entry
    show ?thesis
      by (rule step [of "At_Callback False a Idle_Loop" "th_tls ?th" ?w])
        (use entry f ins ins' rest idle pc in \<open>simp_all add: fiber_step_def inside_get progress_defs state_at_def\<close>)
  next
    case callback
    show ?thesis
    proof (cases "Scheduler_stopping s")
      case True
      show ?thesis
        by (rule step [of "At_Exit False a" "th_tls ?th" "upd_fiber a (\<lambda>f. f\<lparr>f_cb := None, f_state := TERM'\<rparr>) ?w"])
          (use callback True f ins' rest' idle pc in \<open>auto simp: fiber_step_def progress_defs state_at_def\<close>)
    next
      case False
      show ?thesis
        by (rule step [of "At_Yield False a Idle_Loop" "th_tls ?th" "upd_fiber a (\<lambda>f. f\<lparr>f_state := HOLD\<rparr>) ?w"])
          (use callback False f ins ins' rest' idle pc in
            \<open>auto simp: fiber_step_def Fiber_YieldToHold_def inside_get progress_defs state_at_def\<close>)
    qed
  next
    case yield
    from inside_out [OF ins, of "Ctx_At Idle_Loop" ?w K_Idle] obtain tls where
      out: "Fiber_swapOut a (Ctx_At Idle_Loop) (th_tls ?th, ?w) =
        Inr (tls, upd_fiber a (\<lambda>f. f\<lparr>f_ctx := Ctx_At Idle_Loop\<rparr>) ?w)" "settled (in_next ?th K_Idle a Outside tls)" by blast
    show ?thesis
      by (rule step [of Outside tls "upd_fiber a (\<lambda>f. f\<lparr>f_ctx := Ctx_At Idle_Loop\<rparr>) ?w"])
        (use yield f out rest' idle pc in \<open>auto simp: fiber_step_def idle_rests_def progress_defs state_at_def\<close>)
  next
    case exit
    from inside_out [OF ins, of Ctx_Past_End ?w K_Idle] obtain tls where
      out: "Fiber_swapOut a Ctx_Past_End (th_tls ?th, ?w) = Inr (tls, upd_fiber a (\<lambda>f. f\<lparr>f_ctx := Ctx_Past_End\<rparr>) ?w)"
        "settled (in_next ?th K_Idle a Outside tls)" by blast
    show ?thesis
      by (rule step [of Outside tls "upd_fiber a (\<lambda>f. f\<lparr>f_ctx := Ctx_Past_End\<rparr>) ?w"])
        (use exit f out rest' idle pc in \<open>auto simp: fiber_step_def idle_rests_def progress_defs state_at_def\<close>)
  qed
qed

lemma schedule_cb_fields:
  "m_fibers (Scheduler_schedule ft s) = m_fibers s @ (if task_empty ft then [] else [ft])"
  "sc_world (Scheduler_schedule ft s) = sc_world s" "sc_env (Scheduler_schedule ft s) = sc_env s"
  "m_root_fiber (Scheduler_schedule ft s) = m_root_fiber s"
  by (simp_all add: Scheduler_schedule_def Scheduler_scheduleNoLock_def Scheduler_tickle_def Let_def)

lemma schedule_flags [simp]:
  "m_auto_stop (Scheduler_schedule ft s) = m_auto_stop s" "m_stopping (Scheduler_schedule ft s) = m_stopping s"
  by (simp_all add: Scheduler_schedule_def Scheduler_scheduleNoLock_def Scheduler_tickle_def Let_def)

lemma terminatingD:
  assumes "terminating prog rank"
  shows "prog p e = (e', A_Work q) \<Longrightarrow> rank q < rank p"
    and "prog p e = (e', A_Schedule ft q) \<Longrightarrow>
      queue_pot rank (if task_empty ft then [] else [ft]) + (7 * rank q + 3) < 7 * rank p + 3"
proof -
  note less = assms [unfolded terminating_def, rule_format, of p e]
  show "rank q < rank p" if "prog p e = (e', A_Work q)" using less that by simp
  show "queue_pot rank (if task_empty ft then [] else [ft]) + (7 * rank q + 3) < 7 * rank p + 3"
    if "prog p e = (e', A_Schedule ft q)"
    using less that by (auto simp: queue_pot_def task_pot_def split: option.splits)
qed

lemma queue_pot_append [simp]: "queue_pot rank (q @ q') = queue_pot rank q + queue_pot rank q'"
  by (simp add: queue_pot_def)

lemma pool_in_cb:
  assumes prog: "callback_prog prog" and inv: "pool_inv s" and i: "i < length (sc_runs s)"
    and pc: "th_pc (sc_runs s ! i) = Run_In K_Cb a"
  shows "\<exists>s'. run_in prog i (sc_runs s ! i) K_Cb a s = Inr s' \<and> pool_ok rank prog i s s'"
proof -
  let ?th = "sc_runs s ! i" and ?w = "sc_world s"
  note ok = pool_inv_step [OF inv i]
  have ins: "inside a ?th" and cb: "th_cb_fiber ?th = Some a" "th_idle ?th \<noteq> Some a" and rest: "idle_rests ?w ?th"
    using ok(1) pc by (simp_all add: thread_ok_def)
  obtain f where f: "fw_fibers ?w a = Some f" "f_stack f" "cb_control a (th_ctl ?th) f"
    using ok(1) pc by (auto simp: thread_ok_def)
  have term': "idle_term (upd_fiber a g ?w) ?th = idle_term ?w ?th" for g
    using cb(2) by (auto simp: idle_term_def state_at_def split: option.splits)
  have pr: "progress rank prog s ?th (t\<lparr>sc_world := w\<rparr>) (in_next ?th K_Cb a c tls)"
    if "m_auto_stop t = m_auto_stop s" "m_stopping t = m_stopping s" "w = ?w \<or> (\<exists>g. w = upd_fiber a g ?w)"
      and "0 < pot rank ?w ?th" and "terminating prog rank \<Longrightarrow>
        queue_pot rank (m_fibers t) + pot rank w (in_next ?th K_Cb a c tls) < queue_pot rank (m_fibers s) + pot rank ?w ?th"
    for c tls w t
  proof -
    have "idle_term w (in_next ?th K_Cb a c tls) = idle_term ?w ?th" using that(3) term' by (auto simp: idle_term_def)
    then show ?thesis using that pc by (auto simp: progress_def leaving_def active_pc_def)
  qed
  have step: "\<exists>s'. run_in prog i ?th K_Cb a s = Inr s' \<and> pool_ok rank prog i s s'"
    if st: "fiber_step (code_step prog a) (th_ctl ?th, (th_tls ?th, ?w), s) = Inr (c, (tls, w), t)"
      and w: "w = ?w \<or> (\<exists>g. w = upd_fiber a g ?w)"
      and t: "sc_runs t = sc_runs s" "m_root_fiber t = m_root_fiber s" "m_root_thread_id t = m_root_thread_id s"
        "\<forall>ft\<in>set (m_fibers t). cb_task_ok ft"
      and ctl: "pc_ok w (in_next ?th K_Cb a c tls) (th_pc (in_next ?th K_Cb a c tls))"
      and abs: "pool_step prog (th_id ?th) i (m_fibers s, map (running ?w) (sc_runs s), sc_env s)
        (m_fibers t, (map (running ?w) (sc_runs s))[i := running w (in_next ?th K_Cb a c tls)], sc_env t)"
      and less: "m_auto_stop t = m_auto_stop s" "m_stopping t = m_stopping s" "0 < pot rank ?w ?th"
        "terminating prog rank \<Longrightarrow>
         queue_pot rank (m_fibers t) + pot rank w (in_next ?th K_Cb a c tls) < queue_pot rank (m_fibers s) + pot rank ?w ?th"
    for c tls w t
  proof -
    have "pool_update i s (in_next ?th K_Cb a c tls) (t\<lparr>sc_world := w\<rparr>)"
      using w cb ctl t by (intro pool_update_same_own [OF inv i]) (auto simp: own_def)
    with abs pr [OF less(1,2) w less(3,4)] have "pool_ok rank prog i s (set_thread i (in_next ?th K_Cb a c tls) (t\<lparr>sc_world := w\<rparr>))"
      unfolding pool_ok_def pool_abs_def
      by (intro exI [of _ "in_next ?th K_Cb a c tls"] exI [of _ "t\<lparr>sc_world := w\<rparr>"]) simp
    with run_in_next [OF st] show ?thesis by blast
  qed
  have still: "pool_step prog (th_id ?th) i (m_fibers s, map (running ?w) (sc_runs s), sc_env s)
      (m_fibers s, (map (running ?w) (sc_runs s))[i := r], sc_env s)" if "running ?w ?th = r" for r
    using that i list_update_id [of "map (running ?w) (sc_runs s)" i] by (simp add: pool_nothing)
  have ins': "inside a (in_next ?th K_Cb a c (th_tls ?th))" for c using ins by (simp add: inside_def)
  have rest': "idle_rests (upd_fiber a g ?w) ?th" for g using idle_rests_other [OF cb(2)] rest by blast
  consider (entry) p where "th_ctl ?th = At_Entry False" "f_cb f = Some (User p)"
    | (callback) p where "th_ctl ?th = At_Callback False a (User p)"
    | (exit) "th_ctl ?th = At_Exit False a" "f_state f \<in> {TERM', EXCEPT}"
    using f(3) by (cases "(a, th_ctl ?th, f)" rule: cb_control.cases) auto
  then show ?thesis
  proof cases
    case (entry p)
    show ?thesis
      by (rule step [OF _ _ _ _ _ _ _ still, of "At_Callback False a (User p)" "th_tls ?th" ?w])
        (use entry pc f ins ins' rest cb ok in \<open>simp_all add: fiber_step_def inside_get running_def pot_def\<close>)
  next
    case (callback p)
    obtain e act where act: "prog p (sc_env s) = (e, act)" by (metis surj_pair)
    have rs: "map (running ?w) (sc_runs s) ! i = Some p" using i callback pc by (simp add: running_def)
    have po: "pot rank ?w ?th = 7 * rank p + 3" using callback pc by (simp add: pot_def running_def)
    let ?s = "s\<lparr>sc_env := e\<rparr>"
    show ?thesis
    proof (cases act)
      case (A_Work q)
      with act have a: "prog p (sc_env s) = (e, A_Work q)" by simp
      show ?thesis
        by (rule step [of "At_Callback False a (User q)" "th_tls ?th" ?w ?s])
          (use callback a pool_work [where q = "m_fibers s" and prog = prog, OF rs a] f ins' rest cb ok po
              terminatingD(1) [where prog = prog and rank = rank, OF _ a] in
            \<open>simp_all add: fiber_step_def running_def pot_def\<close>)
    next
      case (A_Schedule ft q)
      with act have a: "prog p (sc_env s) = (e, A_Schedule ft q)" by simp
      have "ft_fiber ft = None"
        using prog [unfolded callback_prog_def, rule_format, of p "sc_env s"] a by simp
      then have ft: "task_empty ft \<or> cb_task_ok ft" by (auto simp: task_empty_def cb_task_ok_def)
      show ?thesis
        by (rule step [of "At_Callback False a (User q)" "th_tls ?th" ?w "Scheduler_schedule ft ?s"])
          (use callback a pool_schedule [where q = "m_fibers s" and prog = prog, OF rs a] f ins' rest cb ok ft po
              terminatingD(2) [where prog = prog and rank = rank, OF _ a] in
            \<open>auto simp: fiber_step_def running_def schedule_cb_fields pot_def\<close>)
    next
      case A_Return
      with act have a: "prog p (sc_env s) = (e, A_Return)" by simp
      show ?thesis
        by (rule step [of "At_Exit False a" "th_tls ?th" "upd_fiber a (\<lambda>f. f\<lparr>f_cb := None, f_state := TERM'\<rparr>) ?w" ?s])
          (use callback a pool_return [where q = "m_fibers s" and prog = prog, OF rs a] f ins' rest' cb ok po in
            \<open>auto simp: fiber_step_def running_def pot_def\<close>)
    next
      case (A_Throw x)
      with act have a: "prog p (sc_env s) = (e, A_Throw x)" by simp
      have "is_exception x"
        using prog [unfolded callback_prog_def, rule_format, of p "sc_env s"] a by simp
      then show ?thesis
        by (intro step [of "At_Exit False a" "th_tls ?th" "upd_fiber a (\<lambda>f. f\<lparr>f_state := EXCEPT\<rparr>) ?w" ?s])
          (use callback a pool_throw [where q = "m_fibers s" and prog = prog, OF rs a] f ins' rest' cb ok po in
            \<open>auto simp: fiber_step_def running_def pot_def\<close>)
    qed (use prog [unfolded callback_prog_def, rule_format, of p "sc_env s"] act in simp_all)
  next
    case exit
    from inside_out [OF ins, of Ctx_Past_End ?w K_Cb] obtain tls where
      out: "Fiber_swapOut a Ctx_Past_End (th_tls ?th, ?w) = Inr (tls, upd_fiber a (\<lambda>f. f\<lparr>f_ctx := Ctx_Past_End\<rparr>) ?w)"
        "settled (in_next ?th K_Cb a Outside tls)" by blast
    show ?thesis
      by (rule step [OF _ _ _ _ _ _ _ still, of Outside tls "upd_fiber a (\<lambda>f. f\<lparr>f_ctx := Ctx_Past_End\<rparr>) ?w"])
        (use exit pc f out rest' cb ok in \<open>auto simp: fiber_step_def running_def cb_rests_def state_at_def pot_def\<close>)
  qed
qed

lemma pool_after:
  assumes inv: "pool_inv s" and i: "i < length (sc_runs s)" and pc: "th_pc (sc_runs s ! i) = Run_After k a"
  shows "pool_ok rank prog i s (run_after i (sc_runs s ! i) k a s)"
proof -
  let ?th' = "(sc_runs s ! i)\<lparr>th_pc := Run_Check k a\<rparr>"
    and ?t = "if k = K_Idle then s\<lparr>m_idle := m_idle s - 1\<rparr> else s\<lparr>m_active := m_active s - 1\<rparr>"
  note ok = pool_inv_step [OF inv i]
  have "pool_update i s ?th' ?t"
    using ok pc by (intro pool_update_same_own [OF inv i]) (auto simp: thread_ok_def)
  moreover have "progress rank prog s (sc_runs s ! i) ?t ?th'"
    using pc by (auto simp: progress_defs split: option.splits)
  ultimately have "pool_ok rank prog i s (set_thread i ?th' ?t)"
    using i pc by (intro pool_ok_nothing) (auto simp: running_def)
  then show ?thesis by (simp add: run_after_def)
qed

lemma pool_check:
  assumes inv: "pool_inv s" and i: "i < length (sc_runs s)" and pc: "th_pc (sc_runs s ! i) = Run_Check k a"
  shows "\<exists>s'. run_check i (sc_runs s ! i) k a s = Inr s' \<and> pool_ok rank prog i s s'"
proof -
  let ?th = "sc_runs s ! i" and ?w = "sc_world s"
  let ?th' = "?th\<lparr>th_pc := Run_Scan\<rparr>"
  note ok = pool_inv_step [OF inv i]
  have rest: "settled ?th" "idle_rests ?w ?th" "cb_rests ?w ?th"
    and k: "k = K_Cb \<and> th_cb_fiber ?th = Some a \<and> state_at ?w a \<in> {Some TERM', Some EXCEPT} \<or> k = K_Idle \<and> th_idle ?th = Some a"
    using ok(1) pc by (simp_all add: thread_ok_def)
  have step: "pool_ok rank prog i s (set_thread i ?th' (s\<lparr>sc_world := w\<rparr>))"
    if "w = ?w \<or> (\<exists>g. w = upd_fiber a g ?w)" "idle_rests w ?th" "cb_rests w ?th" "idle_term w ?th = idle_term ?w ?th" for w
  proof -
    have "pool_update i s ?th' (s\<lparr>sc_world := w\<rparr>)"
      using that k ok rest by (intro pool_update_same_own [OF inv i]) (auto simp: own_def)
    moreover have "progress rank prog s ?th (s\<lparr>sc_world := w\<rparr>) ?th'"
      using that(4) pc by (auto simp: progress_def pot_def leaving_def to_queue_def to_end_def idle_term_def)
    ultimately show ?thesis using i pc by (intro pool_ok_nothing) (auto simp: running_def)
  qed
  from k show ?thesis
  proof
    assume k: "k = K_Cb \<and> th_cb_fiber ?th = Some a \<and> state_at ?w a \<in> {Some TERM', Some EXCEPT}"
    then obtain f where f: "th_idle ?th \<noteq> Some a" "fw_fibers ?w a = Some f" "f_stack f" "f_state f \<in> {TERM', EXCEPT}"
      using rest(3) by (auto simp: cb_rests_def state_at_def)
    let ?w' = "upd_fiber a (\<lambda>f. f\<lparr>f_cb := None, f_ctx := Ctx_MainFunc, f_state := INIT\<rparr>) ?w"
    have "Fiber_reset None a ?w = Inr ?w'" using f by (auto simp: Fiber_reset_def)
    then have "run_check i ?th k a s = Inr (set_thread i ?th' (s\<lparr>sc_world := ?w'\<rparr>))"
      using k by (auto simp: run_check_def)
    moreover have "idle_rests ?w' ?th" using idle_rests_other [OF f(1)] rest(2) by blast
    moreover have "cb_rests ?w' ?th" using f k by (auto simp: cb_rests_def)
    moreover have "idle_term ?w' ?th = idle_term ?w ?th"
      using f(1) by (auto simp: idle_term_def state_at_def split: option.splits)
    ultimately show ?thesis using step [of ?w'] by blast
  next
    assume k: "k = K_Idle \<and> th_idle ?th = Some a"
    let ?w' = "if state_at ?w a = Some TERM' \<or> state_at ?w a = Some EXCEPT then ?w else upd_fiber a (\<lambda>f. f\<lparr>f_state := HOLD\<rparr>) ?w"
    have "run_check i ?th k a s = Inr (set_thread i ?th' (s\<lparr>sc_world := ?w'\<rparr>))"
      using k by (simp add: run_check_def hold_fiber_def Let_def)
    moreover have "idle_rests ?w' ?th" using k rest(2) by (auto simp: idle_rests_def state_at_def)
    moreover have "cb_rests ?w' ?th" using k rest(3) cb_rests_other [of ?th a] by auto
    moreover have "idle_term ?w' ?th = idle_term ?w ?th"
      using k rest(2) by (auto simp: idle_term_def idle_rests_def state_at_def)
    ultimately show ?thesis using step [of ?w'] by (auto split: if_splits)
  qed
qed

lemma pool_thread_run:
  assumes prog: "callback_prog prog" and inv: "pool_inv s" and i: "i < length (sc_runs s)"
  shows "(\<exists>s'. sched_step prog conf i s = Inr s' \<and> pool_ok rank prog i s s') \<or>
         sched_step prog conf i s = Inr s \<and> th_pc (sc_runs s ! i) = Run_Done"
proof -
  let ?th = "sc_runs s ! i"
  note ok = pool_inv_step [OF inv i]
  have "(\<exists>s'. thread_run prog conf i ?th s = Inr s' \<and> pool_ok rank prog i s s') \<or>
      thread_run prog conf i ?th s = Inr s \<and> th_pc ?th = Run_Done"
  proof (cases "th_pc ?th")
    case Run_Start
    then show ?thesis using pool_start [OF inv i] by (simp add: thread_run_def)
  next
    case Run_Scan
    then show ?thesis using pool_scan [OF inv i] by (simp add: thread_run_def)
  next
    case (Run_Task r)
    then show ?thesis
      using pool_task_none [OF inv i] pool_task_some [OF inv i] by (cases r) (simp_all add: thread_run_def)
  next
    case (Run_In k a)
    moreover from this have "k = K_Cb \<or> k = K_Idle" using ok(1) by (auto simp: thread_ok_def)
    ultimately show ?thesis
      using pool_in_cb [OF prog inv i] pool_in_idle [OF inv i] by (auto simp: thread_run_def)
  next
    case (Run_After k a)
    then show ?thesis using pool_after [OF inv i] by (simp add: thread_run_def)
  next
    case (Run_Check k a)
    then show ?thesis using pool_check [OF inv i] by (simp add: thread_run_def)
  next
    case Run_Done
    then show ?thesis by (simp add: thread_run_def)
  qed
  then show ?thesis using i by (simp add: sched_step_def)
qed

lemma pool_sched_step:
  assumes prog: "callback_prog prog" and inv: "pool_inv s" and i: "i < length (sc_runs s)"
  shows "\<exists>s'. sched_step prog conf i s = Inr s' \<and> pool_inv s' \<and>
           pool_step prog (th_id (sc_runs s ! i)) i (pool_abs s) (pool_abs s')"
  using pool_thread_run [OF prog inv i, of conf "\<lambda>_. 0"]
proof
  assume "\<exists>s'. sched_step prog conf i s = Inr s' \<and> pool_ok (\<lambda>_. 0) prog i s s'"
  then obtain th t where t: "sched_step prog conf i s = Inr (set_thread i th t)" "pool_update i s th t"
    "th_id th = th_id (sc_runs s ! i)"
    "pool_step prog (th_id th) i (pool_abs s)
        (m_fibers t, (map (running (sc_world s)) (sc_runs s))[i := running (sc_world t) th], sc_env t)"
    unfolding pool_ok_def by blast
  then show ?thesis
    using pool_update_inv [OF inv i t(2)] pool_update_abs [OF inv i t(2)] by simp
next
  assume "sched_step prog conf i s = Inr s \<and> th_pc (sc_runs s ! i) = Run_Done"
  then show ?thesis using inv by (auto simp: pool_abs_def intro: pool_nothing)
qed

section \<open>Runs of a pool\<close>

text \<open>
  A scheduler that is only given callbacks. The ids the system gives to new threads are in \<open>ids\<close>; it gives no thread the
  id -1.
\<close>

inductive pool_runs ::
  "('p, 'w) user_prog \<Rightarrow> 32 word \<Rightarrow> int set \<Rightarrow> ('p, 'w) sched \<Rightarrow> ('p, 'w) sched \<Rightarrow> bool" for prog conf ids s0 where
  pr_init: "pool_runs prog conf ids s0 s0"
| pr_step: "pool_runs prog conf ids s0 s \<Longrightarrow> sched_step prog conf i s = Inr s' \<Longrightarrow> pool_runs prog conf ids s0 s'"
| pr_schedule: "pool_runs prog conf ids s0 s \<Longrightarrow> ft_fiber ft = None \<Longrightarrow>
     pool_runs prog conf ids s0 (Scheduler_schedule ft s)"
| pr_range: "pool_runs prog conf ids s0 s \<Longrightarrow> \<forall>ft\<in>set fts. ft_fiber ft = None \<and> ft_cb ft \<noteq> None \<Longrightarrow>
     Scheduler_schedule_range fts s = (fts', s') \<Longrightarrow> pool_runs prog conf ids s0 s'"
| pr_start: "pool_runs prog conf ids s0 s \<Longrightarrow> set tids \<subseteq> ids \<Longrightarrow> Scheduler_start tids s = Inr s' \<Longrightarrow>
     pool_runs prog conf ids s0 s'"
| pr_stop: "pool_runs prog conf ids s0 s \<Longrightarrow> Scheduler_stop this tls s = Inr (early, s') \<Longrightarrow>
     pool_runs prog conf ids s0 s'"
| pr_swap: "pool_runs prog conf ids s0 s \<Longrightarrow> Scheduler_stop_swap s = (thrs, s') \<Longrightarrow> pool_runs prog conf ids s0 s'"

abbreviation pool_reach :: "('p, 'w) user_prog \<Rightarrow> 32 word \<Rightarrow> ('p, 'w) sched \<Rightarrow> ('p, 'w) sched \<Rightarrow> bool" where
  "pool_reach prog conf \<equiv> pool_runs prog conf (- {-1})"

lemma pool_runs_mono: "pool_runs prog conf ids s0 s \<Longrightarrow> ids \<subseteq> ids' \<Longrightarrow> pool_runs prog conf ids' s0 s"
  by (induction rule: pool_runs.induct) (auto intro: pool_runs.intros)

lemma pool_runs_trans: "pool_runs prog conf ids s1 s2 \<Longrightarrow> pool_runs prog conf ids s0 s1 \<Longrightarrow> pool_runs prog conf ids s0 s2"
  by (induction rule: pool_runs.induct) (auto intro: pool_runs.intros)

lemma pool_inv_queue:
  assumes "pool_inv s" and "sc_runs s' = sc_runs s" "sc_world s' = sc_world s" "m_root_fiber s' = m_root_fiber s"
    "m_root_thread_id s' = m_root_thread_id s" and "\<forall>ft\<in>set (m_fibers s'). cb_task_ok ft"
  shows "pool_inv s'"
  using assms by (simp add: pool_inv_def)

lemma tickles_fields [simp]:
  "sc_runs ((Scheduler_tickle ^^ n) s) = sc_runs s" "sc_world ((Scheduler_tickle ^^ n) s) = sc_world s"
  "m_root_thread_id ((Scheduler_tickle ^^ n) s) = m_root_thread_id s" "m_fibers ((Scheduler_tickle ^^ n) s) = m_fibers s"
  "m_threads ((Scheduler_tickle ^^ n) s) = m_threads s"
  by (induction n) (simp_all add: Scheduler_tickle_def)

lemma pool_inv_stop:
  assumes "pool_inv s" and "Scheduler_stop this tls s = Inr (early, s')"
  shows "pool_inv s'"
proof -
  have "m_root_fiber s = None" using assms(1) by (simp add: pool_inv_def)
  then have "s' = (Scheduler_tickle ^^ m_thread_count s) (s\<lparr>m_auto_stop := True, m_stopping := True\<rparr>)"
    using assms(2) by (auto simp: Scheduler_stop_def Let_def split: if_splits)
  then show ?thesis
    using assms(1) by (intro pool_inv_queue [OF assms(1)]) (simp_all add: pool_inv_def)
qed

lemma thread_ok_new: "tid \<noteq> -1 \<Longrightarrow> thread_ok w (new_sthread tid)" "own (new_sthread tid) = {}"
  by (simp_all add: thread_ok_def new_sthread_def own_def)

lemma pool_inv_append:
  assumes inv: "pool_inv s" and ids: "-1 \<notin> set tids"
  shows "pool_inv (s\<lparr>sc_runs := sc_runs s @ map new_sthread tids\<rparr>)"
proof -
  have "thread_ok w (new_sthread tid)" if "tid \<in> set tids" for w :: "'a code fiber_world" and tid
    using thread_ok_new(1) ids that by metis
  moreover have "own ((sc_runs s @ map new_sthread tids) ! i) = (if i < length (sc_runs s) then own (sc_runs s ! i) else {})"
    if "i < length (sc_runs s) + length tids" for i
    using that by (simp add: nth_append thread_ok_new(2))
  ultimately show ?thesis using inv by (auto simp: pool_inv_def)
qed

lemma pool_inv_start:
  assumes "pool_inv s" and "-1 \<notin> set tids" and "Scheduler_start tids s = Inr s'"
  shows "pool_inv s'"
proof (cases "m_stopping s")
  case True
  let ?ids = "take (m_thread_count s) tids"
  have "-1 \<notin> set ?ids" using assms(2) in_set_takeD by fast
  note inv = pool_inv_append [OF assms(1) this]
  have "\<forall>ft\<in>set (m_fibers s). cb_task_ok ft" using assms(1) by (simp add: pool_inv_def)
  then show ?thesis
    using True assms(3) by (intro pool_inv_queue [OF inv]) (auto simp: Scheduler_start_def Let_def split: if_splits)
next
  case False
  then show ?thesis using assms by (simp add: Scheduler_start_def)
qed

lemma pool_inv_swap: "pool_inv s \<Longrightarrow> Scheduler_stop_swap s = (thrs, s') \<Longrightarrow> pool_inv s'"
  by (rule pool_inv_queue [of s]) (auto simp: Scheduler_stop_swap_def pool_inv_def)

lemma cb_task_ok_thread [simp]: "cb_task_ok (ft\<lparr>ft_thread := t\<rparr>) = cb_task_ok ft"
  by (simp add: cb_task_ok_def)

lemma pool_runs_inv:
  assumes "callback_prog prog"
  shows "pool_runs prog conf ids s0 s \<Longrightarrow> -1 \<notin> ids \<Longrightarrow> pool_inv s0 \<Longrightarrow> pool_inv s"
proof (induction rule: pool_runs.induct)
  case (pr_step s i s')
  then show ?case
    using pool_sched_step [OF assms, of s i conf] by (cases "i < length (sc_runs s)") (auto simp: sched_step_def)
next
  case (pr_schedule s ft)
  then have inv: "pool_inv s" by simp
  have ft: "task_empty ft \<or> cb_task_ok ft" using pr_schedule(2) by (auto simp: task_empty_def cb_task_ok_def)
  have q: "\<forall>ft\<in>set (m_fibers s). cb_task_ok ft" using inv by (simp add: pool_inv_def)
  show ?case
    by (rule pool_inv_queue [OF inv]) (use ft q in \<open>auto simp: schedule_cb_fields\<close>)
next
  case (pr_range s fts fts' s')
  then have inv: "pool_inv s" by simp
  have "\<forall>ft\<in>set fts. \<not> task_empty ft" using pr_range(2) by (auto simp: task_empty_def)
  from Scheduler_schedule_range_enqueue [OF this, of s] pr_range(3)
  have s': "s' = enqueue (map (\<lambda>ft. ft\<lparr>ft_thread := -1\<rparr>) fts) (if m_fibers s = [] \<and> fts \<noteq> [] then 1 else 0) s" by simp
  have "\<forall>ft\<in>set (m_fibers s). cb_task_ok ft" using inv by (simp add: pool_inv_def)
  moreover have "\<forall>ft\<in>set fts. cb_task_ok ft" using pr_range(2) by (simp add: cb_task_ok_def)
  ultimately have "\<forall>ft\<in>set (m_fibers s'). cb_task_ok ft" by (auto simp: s')
  then show ?case unfolding s' by (intro pool_inv_queue [OF inv]) (simp_all add: enqueue_def)
qed (auto intro: pool_inv_stop pool_inv_start pool_inv_swap)

lemma pool_reach_inv:
  assumes "callback_prog prog" and "pool_reach prog conf s0 s" and "pool_inv s0"
  shows "pool_inv s"
  by (rule pool_runs_inv [OF assms(1,2) _ assms(3)]) simp

lemma pool_inv_ctor:
  assumes "Scheduler_ctor conf threads False tid other tls fiber_world_init e = Inr (tls', s)"
  shows "pool_inv s"
  using assms by (auto simp: Scheduler_ctor_def pool_inv_def fibers_live_def fiber_world_init_def Let_def split: if_splits)

text \<open>C34: A scheduler without the caller's thread that is only given callbacks is a worker pool. Whatever has
  happened, a step of any of its threads never fails: no assertion of \<open>Scheduler\<close> or \<open>Fiber\<close>, no use of a fiber
  that is not there. And it is a step of the abstract pool: the thread takes the first task of the queue that it may
  take and leaves the others in their order, or executes the callback it took for one step, or changes
  nothing that the pool's users see. The fibers that callbacks run in, their reuse and the idle fibers are invisible.\<close>

theorem pool_refines:
  assumes "callback_prog prog"
    and "Scheduler_ctor conf threads False tid other tls fiber_world_init e = Inr (tls', s0)"
    and "pool_reach prog conf s0 s" and "i < length (sc_runs s)"
  shows "\<exists>s'. sched_step prog conf i s = Inr s' \<and>
           pool_step prog (th_id (sc_runs s ! i)) i (pool_abs s) (pool_abs s')"
  using pool_sched_step [OF assms(1) pool_reach_inv [OF assms(1,3) pool_inv_ctor [OF assms(2)]] assms(4), of conf] by blast

text \<open>A callback that schedules another one, which throws.\<close>

definition pool_prog :: "(nat, unit) user_prog" where
  "pool_prog p e =
     (e, if p = 0 then A_Schedule (cb_task 1 (-1)) 2 else if p = 1 then A_Throw (Logic_Error ''bad'') else A_Return)"

lemma demo_pool_reach: "pool_reach pool_prog 0 demo_new (demo_sched [cb_task p thread])"
proof -
  have start: "Scheduler_start [101, 102] demo_new = Inr (demo_sched [])"
    by (simp add: Scheduler_start_def demo_new_def demo_sched_def new_sthread_def)
  have "set [101, 102 :: int] \<subseteq> - {-1}" by simp
  from pr_start [OF pr_init this start] have "pool_reach pool_prog 0 demo_new (demo_sched [])" .
  from pr_schedule [OF this, of "cb_task p thread"] show ?thesis
    by (simp add: Scheduler_schedule_def Scheduler_scheduleNoLock_def demo_sched_def Let_def task_empty_def cb_task_def
        Scheduler_tickle_def)
qed

text \<open>The first thread takes the callback.\<close>

theorem pool_refines_witness:
  "\<exists>s s'. pool_reach pool_prog 0 demo_new s \<and> sched_step pool_prog 0 0 s = Inr s' \<and>
          pool_abs s = ([cb_task 0 (-1)], [None, None], ()) \<and> pool_abs s' = ([], [Some 0, None], ()) \<and>
          pool_step pool_prog 101 0 (pool_abs s) (pool_abs s')"
proof -
  have "\<exists>s s'. fold_r (sched_step pool_prog 0) [0] (demo_sched [cb_task 0 (-1)]) = Inr s \<and>
      sched_step pool_prog 0 0 s = Inr s' \<and> length (sc_runs s) = 2 \<and> th_id (sc_runs s ! 0) = 101 \<and>
      pool_abs s = ([cb_task 0 (-1)], [None, None], ()) \<and> pool_abs s' = ([], [Some 0, None], ())"
    by (simp add: sched_run_defs demo_sched_def pool_abs_def running_def)
  then obtain s s' where s: "fold_r (sched_step pool_prog 0) [0] (demo_sched [cb_task 0 (-1)]) = Inr s"
    and s': "sched_step pool_prog 0 0 s = Inr s'" "pool_abs s = ([cb_task 0 (-1)], [None, None], ())"
      "pool_abs s' = ([], [Some 0, None], ())"
    and th: "length (sc_runs s) = 2" "th_id (sc_runs s ! 0) = 101" by blast
  have prog: "callback_prog pool_prog" by (simp add: callback_prog_def pool_prog_def cb_task_def)
  have reach: "pool_reach pool_prog 0 demo_new s"
    using pr_step [OF demo_pool_reach [of 0 "-1"], of 0 s] s by simp
  have "0 < length (sc_runs s)" using th by simp
  from pool_refines [OF prog demo_ctor reach this] s' th reach show ?thesis by auto
qed

end
