(* ===== verification/Scheduler_Liveness.thy ===== *)
theory Scheduler_Liveness
  imports Scheduler_Pool
begin

text \<open>
  \<open>stop\<close> returns: a pool that is given callbacks which come to an end drains its queue and its threads leave \<open>run\<close>,
  whatever the fair order in which the system lets them run. The proof is on the measures of \<open>Pool_Model\<close>.
\<close>

section \<open>The sums of the measures\<close>

definition work_left :: "('p \<Rightarrow> nat) \<Rightarrow> ('p, 'w) sched \<Rightarrow> nat" where
  "work_left rank s = queue_pot rank (m_fibers s) + (\<Sum>th\<leftarrow>sc_runs s. pot rank (sc_world s) th)"

definition way_left :: "('p, 'w) sched \<Rightarrow> nat" where
  "way_left s = (\<Sum>th\<leftarrow>sc_runs s. to_end (sc_world s) th)"

lemma sum_list_update_frame:
  fixes f g :: "'a \<Rightarrow> nat"
  assumes "i < length xs" and "\<And>j. j < length xs \<Longrightarrow> j \<noteq> i \<Longrightarrow> g (xs ! j) = f (xs ! j)"
  shows "(\<Sum>x\<leftarrow>xs[i := y]. g x) + f (xs ! i) = (\<Sum>x\<leftarrow>xs. f x) + g y"
  using assms
proof (induction xs arbitrary: i)
  case (Cons x xs)
  show ?case
  proof (cases i)
    case 0
    have "map g xs = map f xs"
      using Cons.prems(2) [of "Suc _"] 0 by (intro nth_equalityI) auto
    then show ?thesis using 0 by (simp del: map_eq_conv)
  next
    case (Suc k)
    have "g x = f x" using Cons.prems(2) [of 0] Suc by simp
    moreover have "(\<Sum>x\<leftarrow>xs[k := y]. g x) + f (xs ! k) = (\<Sum>x\<leftarrow>xs. f x) + g y"
      by (rule Cons.IH) (use Cons.prems(1) Cons.prems(2) [of "Suc _"] Suc in auto)
    ultimately show ?thesis using Suc by simp
  qed
qed simp

text \<open>What one step of thread \<open>i\<close> does to the measures: it moves from \<open>th0\<close> to \<open>th\<close>, the others keep theirs.\<close>

definition moved ::
  "('p \<Rightarrow> nat) \<Rightarrow> ('p, 'w) user_prog \<Rightarrow> nat \<Rightarrow> ('p, 'w) sched \<Rightarrow> ('p, 'w) sched \<Rightarrow> bool" where
  "moved rank prog i s s' \<longleftrightarrow>
     (\<exists>th t. s' = set_thread i th t \<and> sc_runs t = sc_runs s \<and> th_id th = th_id (sc_runs s ! i) \<and>
        progress rank prog s (sc_runs s ! i) t th \<and>
        work_left rank s' + (queue_pot rank (m_fibers s) + pot rank (sc_world s) (sc_runs s ! i)) =
          work_left rank s + (queue_pot rank (m_fibers t) + pot rank (sc_world t) th) \<and>
        way_left s' + to_end (sc_world s) (sc_runs s ! i) = way_left s + to_end (sc_world t) th \<and>
        (\<forall>j < length (sc_runs s). j \<noteq> i \<longrightarrow>
           pot rank (sc_world t) (sc_runs s ! j) = pot rank (sc_world s) (sc_runs s ! j) \<and>
           leaving (sc_world t) (sc_runs s ! j) = leaving (sc_world s) (sc_runs s ! j)))"

lemma pool_ok_moved:
  assumes inv: "pool_inv s" and i: "i < length (sc_runs s)" and ok: "pool_ok rank prog i s s'"
  shows "moved rank prog i s s'"
proof -
  obtain th t where s': "s' = set_thread i th t" and up: "pool_update i s th t" and id: "th_id th = th_id (sc_runs s ! i)"
    and pr: "progress rank prog s (sc_runs s ! i) t th"
    using ok unfolding pool_ok_def by blast
  have ths: "sc_runs t = sc_runs s" using up by (simp add: pool_update_def)
  have frame: "pot rank (sc_world t) (sc_runs s ! j) = pot rank (sc_world s) (sc_runs s ! j)"
    "leaving (sc_world t) (sc_runs s ! j) = leaving (sc_world s) (sc_runs s ! j)"
    "to_end (sc_world t) (sc_runs s ! j) = to_end (sc_world s) (sc_runs s ! j)"
    if "j < length (sc_runs s)" "j \<noteq> i" for j
    using measures_frame [OF pool_update_others(2) [OF inv i up that] pool_inv_thread [OF inv that(1)]] by simp_all
  have "(\<Sum>x\<leftarrow>(sc_runs s)[i := th]. pot rank (sc_world t) x) + pot rank (sc_world s) (sc_runs s ! i) =
      (\<Sum>x\<leftarrow>sc_runs s. pot rank (sc_world s) x) + pot rank (sc_world t) th"
    by (rule sum_list_update_frame [OF i]) (rule frame(1))
  moreover have "(\<Sum>x\<leftarrow>(sc_runs s)[i := th]. to_end (sc_world t) x) + to_end (sc_world s) (sc_runs s ! i) =
      (\<Sum>x\<leftarrow>sc_runs s. to_end (sc_world s) x) + to_end (sc_world t) th"
    by (rule sum_list_update_frame [OF i]) (rule frame(3))
  ultimately show ?thesis
    unfolding moved_def using s' ths id pr frame
    by (intro exI [of _ th] exI [of _ t]) (simp add: work_left_def way_left_def set_thread_def)
qed

lemma pot_active: "thread_ok w th \<Longrightarrow> 0 < pot rank w th \<longleftrightarrow> active_pc (th_pc th)"
  by (auto simp: thread_ok_def pot_def active_pc_def running_def cb_task_ok_def
      split: run_pc.splits option.splits kind.splits control.splits code.splits)

section \<open>After \<open>stop\<close>\<close>

text \<open>
  \<open>stop\<close> has been called, nothing is scheduled from outside any more, every task is for a thread that is there, and
  threads only leave when there is nothing left to do.
\<close>

definition for_live :: "('p, 'w) sched \<Rightarrow> 'p task \<Rightarrow> bool" where
  "for_live s ft \<longleftrightarrow> ft_thread ft = -1 \<or> ft_thread ft \<in> set (map th_id (sc_runs s))"

definition draining :: "('p, 'w) sched \<Rightarrow> bool" where
  "draining s \<longleftrightarrow>
     pool_inv s \<and> sched_inv s \<and> m_auto_stop s \<and> m_stopping s \<and> (\<forall>ft\<in>set (m_fibers s). for_live s ft) \<and>
     (\<forall>th\<in>set (sc_runs s). leaving (sc_world s) th \<longrightarrow> Scheduler_stopping s)"

lemma stopping_no_active:
  assumes "sched_inv s" and "Scheduler_stopping s" and "th \<in> set (sc_runs s)"
  shows "\<not> active_pc (th_pc th)"
proof
  assume "active_pc (th_pc th)"
  then have "0 < pc_count active_pc (sc_runs s)"
  proof -
    obtain as bs where "sc_runs s = as @ th # bs" using split_list [OF assms(3)] by blast
    then show ?thesis
      using \<open>active_pc (th_pc th)\<close> pc_count_nonneg(1) [of active_pc as] pc_count_nonneg(1) [of active_pc bs] by simp
  qed
  with assms(1,2) show False by (simp add: sched_inv_def Scheduler_stopping_def)
qed

lemma pool_step_queue:
  "pool_step prog tid i (q, rs, e) (q', rs', e') \<Longrightarrow> ft \<in> set q' \<Longrightarrow>
     ft \<in> set q \<or> (\<exists>p p' e. snd (prog p e) = A_Schedule ft p')"
  by (erule pool_step.cases) (auto split: if_splits, metis snd_conv)

text \<open>Callbacks that only schedule for threads in \<open>ids\<close>, or for any.\<close>

definition targets :: "('p, 'w) user_prog \<Rightarrow> int set \<Rightarrow> bool" where
  "targets prog ids \<longleftrightarrow>
     (\<forall>p e. case snd (prog p e) of A_Schedule ft p' \<Rightarrow> ft_thread ft = -1 \<or> ft_thread ft \<in> ids | _ \<Rightarrow> True)"

definition live_ids :: "('p, 'w) sched \<Rightarrow> int set" where
  "live_ids s = th_id ` set (sc_runs s)"

lemma for_live_ids: "for_live s ft \<longleftrightarrow> ft_thread ft = -1 \<or> ft_thread ft \<in> live_ids s"
  by (simp add: for_live_def live_ids_def)

lemma moved_ids: "moved rank prog i s s' \<Longrightarrow> i < length (sc_runs s) \<Longrightarrow>
   map th_id (sc_runs s') = map th_id (sc_runs s) \<and> m_auto_stop s' = m_auto_stop s \<and> m_stopping s' = m_stopping s"
  by (auto simp: moved_def set_thread_def progress_def map_update list_update_same_conv)

lemma map_ids_live: "map th_id (sc_runs s') = map th_id (sc_runs s) \<Longrightarrow> live_ids s' = live_ids s"
  unfolding live_ids_def by (metis list.set_map)

text \<open>A scheduler that is stopping stays so.\<close>

lemma stopping_stays:
  assumes inv: "pool_inv s" "sched_inv s" and i: "i < length (sc_runs s)" and m: "moved rank prog i s s'"
    and inv': "pool_inv s'" "sched_inv s'" and stop: "Scheduler_stopping s"
  shows "Scheduler_stopping s'"
proof -
  obtain th t where s': "s' = set_thread i th t" "sc_runs t = sc_runs s"
    and pr: "progress rank prog s (sc_runs s ! i) t th"
    using m unfolding moved_def by blast
  have "\<not> active_pc (th_pc (sc_runs s ! i))" using stopping_no_active [OF inv(2) stop] i by simp
  then have pot0: "pot rank (sc_world s) (sc_runs s ! i) = 0"
    using pot_active [OF pool_inv_thread [OF inv(1) i], of rank] by simp
  have "m_fibers s = []" using stop by (simp add: Scheduler_stopping_def)
  with pr pot0 have q: "m_fibers t = []" "pot rank (sc_world t) th = 0"
    and fl: "m_auto_stop t = m_auto_stop s" "m_stopping t = m_stopping s"
    by (simp_all add: progress_def queue_pot_def)
  have threads': "sc_runs s' = (sc_runs s)[i := th]" using s' by (simp add: set_thread_def)
  have "thread_ok (sc_world t) th" using pool_inv_thread [OF inv'(1), of i] i s' by (simp add: set_thread_def)
  with q(2) have na: "\<not> active_pc (th_pc th)" using pot_active [of "sc_world t" th rank] by simp
  have "pc_count active_pc (sc_runs s') = pc_count active_pc (sc_runs s)"
    using pc_count_update [OF i, of active_pc th] na stopping_no_active [OF inv(2) stop] i by (simp add: threads')
  then have "m_active s' = m_active s" using inv(2) inv'(2) by (simp add: sched_inv_def)
  then show ?thesis using stop q(1) fl s' by (simp add: Scheduler_stopping_def set_thread_def)
qed

lemma draining_step:
  assumes prog: "callback_prog prog" and tg: "targets prog (live_ids s)" and dr: "draining s"
    and i: "i < length (sc_runs s)"
  shows "\<exists>s'. sched_step prog conf i s = Inr s' \<and> draining s' \<and>
           map th_id (sc_runs s') = map th_id (sc_runs s) \<and> (Scheduler_stopping s \<longrightarrow> Scheduler_stopping s') \<and>
           (moved rank prog i s s' \<or> s' = s \<and> th_pc (sc_runs s ! i) = Run_Done)"
proof -
  have inv: "pool_inv s" "sched_inv s" using dr by (simp_all add: draining_def)
  from pool_thread_run [OF prog inv(1) i, of conf rank] show ?thesis
  proof
    assume "\<exists>s'. sched_step prog conf i s = Inr s' \<and> pool_ok rank prog i s s'"
    then obtain s' where step: "sched_step prog conf i s = Inr s'" and m: "moved rank prog i s s'"
      using pool_ok_moved [OF inv(1) i] by blast
    from pool_sched_step [OF prog inv(1) i, of conf] step have inv': "pool_inv s'"
      and abs: "pool_step prog (th_id (sc_runs s ! i)) i (pool_abs s) (pool_abs s')" by simp_all
    have sinv': "sched_inv s'" using sched_inv_step [OF inv(2) step] .
    note ids = moved_ids [OF m i]
    note stays = stopping_stays [OF inv i m inv' sinv']
    have "for_live s' ft" if "ft \<in> set (m_fibers s')" for ft
    proof -
      have "ft \<in> set (m_fibers s) \<or> (\<exists>p p' e. snd (prog p e) = A_Schedule ft p')"
        using pool_step_queue [OF abs [unfolded pool_abs_def] that] .
      then have "for_live s ft"
      proof
        assume "\<exists>p p' e. snd (prog p e) = A_Schedule ft p'"
        then obtain p p' e where "snd (prog p e) = A_Schedule ft p'" by blast
        with tg [unfolded targets_def, rule_format, of p e] show ?thesis by (simp add: for_live_ids)
      qed (use dr in \<open>simp add: draining_def\<close>)
      then show ?thesis using map_ids_live [of s' s] ids by (simp add: for_live_ids)
    qed
    moreover have "Scheduler_stopping s'" if th': "th' \<in> set (sc_runs s')" "leaving (sc_world s') th'" for th'
    proof -
      obtain th t where s': "s' = set_thread i th t" "sc_runs t = sc_runs s"
        and pr: "progress rank prog s (sc_runs s ! i) t th"
        and others: "\<forall>j < length (sc_runs s). j \<noteq> i \<longrightarrow>
           leaving (sc_world t) (sc_runs s ! j) = leaving (sc_world s) (sc_runs s ! j)"
        using m unfolding moved_def by blast
      obtain j where j: "j < length (sc_runs s)" "th' = (sc_runs s)[i := th] ! j"
        using th'(1) s' by (auto simp: set_thread_def in_set_conv_nth)
      have lv: "leaving (sc_world t) th'" using th'(2) s' by (simp add: set_thread_def)
      have "\<exists>th0\<in>set (sc_runs s). leaving (sc_world s) th0 \<or> Scheduler_stopping s"
      proof (cases "j = i")
        case True
        then show ?thesis using lv j pr i by (auto simp: progress_def intro: bexI [of _ "sc_runs s ! i"])
      next
        case False
        then show ?thesis using lv j others by (auto intro: bexI [of _ "sc_runs s ! j"])
      qed
      then have "Scheduler_stopping s" using dr by (auto simp: draining_def)
      then show ?thesis by (rule stays)
    qed
    ultimately have "draining s'" using inv' sinv' ids dr by (simp add: draining_def)
    with step ids stays m show ?thesis by blast
  next
    assume "sched_step prog conf i s = Inr s \<and> th_pc (sc_runs s ! i) = Run_Done"
    with dr show ?thesis by blast
  qed
qed

section \<open>Something useful is always to be done\<close>

text \<open>A thread whose steps bring the work forward, and how many of them it takes at most.\<close>

definition helpful :: "('p \<Rightarrow> nat) \<Rightarrow> nat \<Rightarrow> ('p, 'w) sched \<Rightarrow> bool" where
  "helpful rank i s \<longleftrightarrow>
     i < length (sc_runs s) \<and>
     (0 < pot rank (sc_world s) (sc_runs s ! i) \<or>
      \<not> leaving (sc_world s) (sc_runs s ! i) \<and> (\<exists>ft\<in>set (m_fibers s). \<not> foreign (th_id (sc_runs s ! i)) ft))"

definition delay :: "('p \<Rightarrow> nat) \<Rightarrow> nat \<Rightarrow> ('p, 'w) sched \<Rightarrow> nat" where
  "delay rank i s =
     (if 0 < pot rank (sc_world s) (sc_runs s ! i) then 0 else to_queue (sc_runs s ! i))"

lemma queue_pot_pos: "\<forall>ft\<in>set q. cb_task_ok ft \<Longrightarrow> q \<noteq> [] \<Longrightarrow> 0 < queue_pot rank q"
  by (cases q) (auto simp: queue_pot_def task_pot_def cb_task_ok_def)

lemma helpful_exists:
  assumes dr: "draining s" and work: "0 < work_left rank s" and ths: "sc_runs s \<noteq> []"
  shows "\<exists>i. helpful rank i s"
proof (cases "\<exists>th\<in>set (sc_runs s). 0 < pot rank (sc_world s) th")
  case True
  then show ?thesis by (auto simp: helpful_def in_set_conv_nth)
next
  case False
  then have "(\<Sum>th\<leftarrow>sc_runs s. pot rank (sc_world s) th) = 0" by (simp add: sum_list_eq_0_iff)
  with work have "m_fibers s \<noteq> []" by (auto simp: work_left_def queue_pot_def)
  then obtain ft where ft: "ft \<in> set (m_fibers s)" by (meson list.set_sel(1))
  have "\<not> Scheduler_stopping s" using \<open>m_fibers s \<noteq> []\<close> by (simp add: Scheduler_stopping_def)
  then have stay: "\<not> leaving (sc_world s) (sc_runs s ! i)" if "i < length (sc_runs s)" for i
    using dr that by (auto simp: draining_def)
  have "for_live s ft" using dr ft by (simp add: draining_def)
  then obtain i where "i < length (sc_runs s)" "\<not> foreign (th_id (sc_runs s ! i)) ft"
    using ths by (cases "ft_thread ft = -1") (auto simp: for_live_def foreign_def in_set_conv_nth)
  with stay ft show ?thesis by (auto simp: helpful_def)
qed

lemma helpful_step:
  assumes dr: "draining s" and fin: "terminating prog rank" and hp: "helpful rank i s"
    and j: "j < length (sc_runs s)" and m: "moved rank prog j s s'"
  shows "work_left rank s' < work_left rank s \<or>
         work_left rank s' = work_left rank s \<and> helpful rank i s' \<and> delay rank i s' \<le> delay rank i s \<and>
         (j = i \<longrightarrow> delay rank i s' < delay rank i s)"
proof -
  let ?w = "sc_world s" and ?th0 = "sc_runs s ! j"
  obtain th t where s': "s' = set_thread j th t" "sc_runs t = sc_runs s" and id: "th_id th = th_id ?th0"
    and pr: "progress rank prog s ?th0 t th"
    and work: "work_left rank s' + (queue_pot rank (m_fibers s) + pot rank ?w ?th0) =
          work_left rank s + (queue_pot rank (m_fibers t) + pot rank (sc_world t) th)"
    and others: "\<forall>k < length (sc_runs s). k \<noteq> j \<longrightarrow>
           pot rank (sc_world t) (sc_runs s ! k) = pot rank ?w (sc_runs s ! k) \<and>
           leaving (sc_world t) (sc_runs s ! k) = leaving ?w (sc_runs s ! k)"
    using m unfolding moved_def by blast
  have s'_simps: "sc_world s' = sc_world t" "m_fibers s' = m_fibers t" "sc_runs s' = (sc_runs s)[j := th]"
    using s' by (simp_all add: set_thread_def)
  show ?thesis
  proof (cases "queue_pot rank (m_fibers t) + pot rank (sc_world t) th < queue_pot rank (m_fibers s) + pot rank ?w ?th0")
    case True
    with work show ?thesis by linarith
  next
    case False
    with pr fin have idle: "pot rank ?w ?th0 = 0" "m_fibers t = m_fibers s" "pot rank (sc_world t) th = 0"
      and go: "leaving ?w ?th0 \<or>
        (if th_pc ?th0 = Run_Scan then \<forall>ft\<in>set (m_fibers s). foreign (th_id ?th0) ft else to_queue th < to_queue ?th0)"
      and lv: "leaving (sc_world t) th \<longrightarrow> leaving ?w ?th0 \<or> Scheduler_stopping s"
      by (auto simp: progress_def split: if_splits)
    have same: "work_left rank s' = work_left rank s" using work idle by simp
    show ?thesis
    proof (cases "j = i")
      case True
      with hp idle(1) have h: "\<not> leaving ?w ?th0" "\<exists>ft\<in>set (m_fibers s). \<not> foreign (th_id ?th0) ft"
        by (auto simp: helpful_def)
      then have "\<not> Scheduler_stopping s" by (auto simp: Scheduler_stopping_def)
      with lv h have "\<not> leaving (sc_world t) th" by blast
      moreover have "to_queue th < to_queue ?th0" using go h by (auto split: if_splits)
      ultimately show ?thesis
        using same True h(2) idle j id by (auto simp: helpful_def delay_def s'_simps)
    next
      case False
      then have "i < length (sc_runs s)" "pot rank (sc_world t) (sc_runs s ! i) = pot rank ?w (sc_runs s ! i)"
        "leaving (sc_world t) (sc_runs s ! i) = leaving ?w (sc_runs s ! i)"
        using others hp by (auto simp: helpful_def)
      with False hp same idle show ?thesis by (auto simp: helpful_def delay_def s'_simps)
    qed
  qed
qed

lemma no_work_stopping:
  assumes dr: "draining s" and "work_left rank s = 0"
  shows "Scheduler_stopping s"
proof -
  have inv: "pool_inv s" "sched_inv s" "m_auto_stop s" "m_stopping s" using dr by (simp_all add: draining_def)
  have pots: "pot rank (sc_world s) th = 0" if "th \<in> set (sc_runs s)" for th
    using assms(2) that by (simp add: work_left_def sum_list_eq_0_iff)
  have "\<not> active_pc (th_pc th)" if "th \<in> set (sc_runs s)" for th
    using pots [OF that] pot_active [of "sc_world s" th rank] inv(1) that by (simp add: pool_inv_def)
  then have "pc_count active_pc (sc_runs s) = 0"
    by (simp add: pc_count_def sum_list_eq_0_iff cong: map_cong)
  then have "m_active s = 0" using inv(2) by (simp add: sched_inv_def)
  moreover have "m_fibers s = []"
    using queue_pot_pos [of "m_fibers s" rank] assms(2) inv(1) by (auto simp: work_left_def pool_inv_def)
  ultimately show ?thesis using inv(3,4) by (simp add: Scheduler_stopping_def)
qed

lemma way_step:
  assumes dr: "draining s" and stop: "Scheduler_stopping s" and j: "j < length (sc_runs s)"
    and m: "moved rank prog j s s'" and pc: "th_pc (sc_runs s ! j) \<noteq> Run_Done"
  shows "way_left s' < way_left s"
proof -
  have "\<not> active_pc (th_pc (sc_runs s ! j))"
    using dr stopping_no_active [OF _ stop] j by (simp add: draining_def)
  moreover obtain th t where "progress rank prog s (sc_runs s ! j) t th"
    and way: "way_left s' + to_end (sc_world s) (sc_runs s ! j) = way_left s + to_end (sc_world t) th"
    using m unfolding moved_def by blast
  ultimately have "to_end (sc_world t) th < to_end (sc_world s) (sc_runs s ! j)"
    using stop pc unfolding progress_def by blast
  with way show ?thesis by linarith
qed

section \<open>Fair runs\<close>

text \<open>\<open>sch n\<close> is the thread that the system lets make the \<open>n\<close>-th step.\<close>

primrec sched_run ::
  "('p, 'w) user_prog \<Rightarrow> 32 word \<Rightarrow> (nat \<Rightarrow> nat) \<Rightarrow> ('p, 'w) sched \<Rightarrow> nat \<Rightarrow> ('p, 'w) sched result" where
  "sched_run prog conf sch s 0 = Inr s"
| "sched_run prog conf sch s (Suc n) = bind_r (sched_run prog conf sch s n) (sched_step prog conf (sch n))"

definition fair :: "(nat \<Rightarrow> nat) \<Rightarrow> nat \<Rightarrow> bool" where
  "fair sch k \<longleftrightarrow> (\<forall>i<k. \<forall>n. \<exists>m\<ge>n. sch m = i)"

text \<open>A run after \<open>stop\<close>, as the sequence of its states.\<close>

definition drains ::
  "('p, 'w) user_prog \<Rightarrow> ('p \<Rightarrow> nat) \<Rightarrow> (nat \<Rightarrow> nat) \<Rightarrow> nat \<Rightarrow> (nat \<Rightarrow> ('p, 'w) sched) \<Rightarrow> bool" where
  "drains prog rank sch k run \<longleftrightarrow>
     terminating prog rank \<and> fair sch k \<and> 0 < k \<and>
     (\<forall>n. draining (run n) \<and> length (sc_runs (run n)) = k \<and>
          (Scheduler_stopping (run n) \<longrightarrow> Scheduler_stopping (run (Suc n))) \<and>
          (sch n < k \<and> th_pc (sc_runs (run n) ! sch n) \<noteq> Run_Done \<and> moved rank prog (sch n) (run n) (run (Suc n)) \<or>
           (sch n < k \<longrightarrow> th_pc (sc_runs (run n) ! sch n) = Run_Done) \<and> run (Suc n) = run n))"

lemma drains_exists:
  assumes prog: "callback_prog prog" and fin: "terminating prog rank" and tg: "targets prog (live_ids s)"
    and dr: "draining s" and ths: "sc_runs s \<noteq> []" and fair: "fair sch (length (sc_runs s))"
  shows "\<exists>run. run 0 = s \<and> (\<forall>n. sched_run prog conf sch s n = Inr (run n)) \<and>
           drains prog rank sch (length (sc_runs s)) run"
proof -
  let ?k = "length (sc_runs s)"
  let ?ok = "\<lambda>t. draining t \<and> map th_id (sc_runs t) = map th_id (sc_runs s)"
  have step: "\<exists>t'. sched_step prog conf i t = Inr t' \<and> ?ok t' \<and> (Scheduler_stopping t \<longrightarrow> Scheduler_stopping t') \<and>
      (i < ?k \<and> th_pc (sc_runs t ! i) \<noteq> Run_Done \<and> moved rank prog i t t' \<or>
       (i < ?k \<longrightarrow> th_pc (sc_runs t ! i) = Run_Done) \<and> t' = t)" if t: "?ok t" for t i
  proof -
    have len: "length (sc_runs t) = ?k" using t by (metis length_map)
    consider (out) "\<not> i < ?k" | (left) "i < ?k" "th_pc (sc_runs t ! i) = Run_Done"
      | (go) "i < ?k" "th_pc (sc_runs t ! i) \<noteq> Run_Done" by blast
    then show ?thesis
    proof cases
      case go
      have "targets prog (live_ids t)" using tg map_ids_live [of t s] t by simp
      from draining_step [OF prog this _ , of i conf rank] go t len show ?thesis by auto
    qed (use t len in \<open>auto simp: sched_step_def thread_run_def\<close>)
  qed
  have all: "\<exists>t. sched_run prog conf sch s n = Inr t \<and> ?ok t" for n
  proof (induction n)
    case (Suc n)
    then obtain t where "sched_run prog conf sch s n = Inr t" "?ok t" by blast
    with step [of t "sch n"] show ?case by auto
  qed (use dr in simp)
  then obtain run where run: "sched_run prog conf sch s n = Inr (run n)" "?ok (run n)" for n by metis
  have next_step: "sched_step prog conf (sch n) (run n) = Inr (run (Suc n))" for n
    using run(1) [of "Suc n"] run(1) [of n] by simp
  have "length (sc_runs (run n)) = ?k" for n using run(2) [of n] by (metis length_map)
  moreover have "(Scheduler_stopping (run n) \<longrightarrow> Scheduler_stopping (run (Suc n))) \<and>
      (sch n < ?k \<and> th_pc (sc_runs (run n) ! sch n) \<noteq> Run_Done \<and> moved rank prog (sch n) (run n) (run (Suc n)) \<or>
       (sch n < ?k \<longrightarrow> th_pc (sc_runs (run n) ! sch n) = Run_Done) \<and> run (Suc n) = run n)" for n
    using step [OF run(2) [of n], of "sch n"] next_step [of n] by auto
  ultimately have "drains prog rank sch ?k run"
    unfolding drains_def using fin fair ths run(2) by blast
  moreover have "run 0 = s" using run(1) [of 0] by simp
  ultimately show ?thesis using run(1) by blast
qed

lemma work_drops:
  assumes d: "drains prog rank sch k run" and hp: "helpful rank i (run n)"
  shows "\<exists>m. work_left rank (run m) < work_left rank (run n)"
  using hp
proof (induction "delay rank i (run n)" arbitrary: n rule: less_induct)
  case less
  have all: "draining (run l)" "length (sc_runs (run l)) = k"
    "sch l < k \<and> th_pc (sc_runs (run l) ! sch l) \<noteq> Run_Done \<and> moved rank prog (sch l) (run l) (run (Suc l)) \<or>
       (sch l < k \<longrightarrow> th_pc (sc_runs (run l) ! sch l) = Run_Done) \<and> run (Suc l) = run l" for l
    using d unfolding drains_def by blast+
  have fin: "terminating prog rank" and "fair sch k" using d by (simp_all add: drains_def)
  have "i < k" using less.prems all(2) by (simp add: helpful_def)
  then obtain m where m: "n \<le> m" "sch m = i" using \<open>fair sch k\<close> unfolding fair_def by blast
  let ?low = "\<exists>l. work_left rank (run l) < work_left rank (run n)"
  have keep: "?low \<or> work_left rank (run (n + j)) = work_left rank (run n) \<and> helpful rank i (run (n + j)) \<and>
      delay rank i (run (n + j)) \<le> delay rank i (run n)" for j
  proof (induction j)
    case (Suc j)
    show ?case
    proof (cases "sch (n + j) < k \<and> moved rank prog (sch (n + j)) (run (n + j)) (run (Suc (n + j)))")
      case True
      then show ?thesis
        using Suc.IH helpful_step [OF all(1) fin, of i "n + j" "sch (n + j)" "run (Suc (n + j))"] all(2)
        by (metis add_Suc_right le_trans)
    next
      case False
      then have "run (Suc (n + j)) = run (n + j)" using all(3) [of "n + j"] by blast
      with Suc.IH show ?thesis by simp
    qed
  qed (use less.prems in simp)
  show ?case
  proof (rule ccontr)
    assume low: "\<not> ?low"
    then have at: "work_left rank (run m) = work_left rank (run n)" "helpful rank i (run m)"
      "delay rank i (run m) \<le> delay rank i (run n)"
      using keep [of "m - n"] m(1) by auto
    have "th_pc (sc_runs (run m) ! i) \<noteq> Run_Done"
      using at(2) by (auto simp: helpful_def pot_def leaving_def)
    then have "moved rank prog i (run m) (run (Suc m))" using all(3) [of m] m(2) \<open>i < k\<close> by blast
    from helpful_step [OF all(1) fin at(2) _ this] all(2) \<open>i < k\<close> at(1) low
    have nx: "work_left rank (run (Suc m)) = work_left rank (run n)" "helpful rank i (run (Suc m))"
      "delay rank i (run (Suc m)) < delay rank i (run m)" by auto
    with less.hyps [of "Suc m"] at(3) low show False by auto
  qed
qed

lemma work_ends:
  assumes d: "drains prog rank sch k run"
  shows "\<exists>m. Scheduler_stopping (run m)"
proof -
  have "\<exists>m. work_left rank (run m) = 0" if "work_left rank (run n) = v" for n v
    using that
  proof (induction v arbitrary: n rule: less_induct)
    case (less v)
    have "draining (run n)" "length (sc_runs (run n)) = k" "0 < k" using d by (simp_all add: drains_def)
    then have "draining (run n)" "sc_runs (run n) \<noteq> []" by auto
    then show ?case
      using helpful_exists [of "run n" rank] work_drops [OF d, of _ n] less by (cases "v = 0") blast+
  qed
  then obtain m where "work_left rank (run m) = 0" by blast
  then show ?thesis using d no_work_stopping [of "run m"] by (auto simp: drains_def)
qed

lemma way_drops:
  assumes d: "drains prog rank sch k run" and stop: "Scheduler_stopping (run n)"
    and i: "i < k" "th_pc (sc_runs (run n) ! i) \<noteq> Run_Done"
  shows "\<exists>m\<ge>n. way_left (run m) < way_left (run n)"
proof -
  have all: "draining (run l)" "length (sc_runs (run l)) = k"
    "Scheduler_stopping (run l) \<Longrightarrow> Scheduler_stopping (run (Suc l))"
    "sch l < k \<and> th_pc (sc_runs (run l) ! sch l) \<noteq> Run_Done \<and> moved rank prog (sch l) (run l) (run (Suc l)) \<or>
       (sch l < k \<longrightarrow> th_pc (sc_runs (run l) ! sch l) = Run_Done) \<and> run (Suc l) = run l" for l
    using d unfolding drains_def by blast+
  have "fair sch k" using d by (simp add: drains_def)
  then obtain m where m: "n \<le> m" "sch m = i" using i(1) unfolding fair_def by blast
  let ?low = "\<exists>l\<ge>n. way_left (run l) < way_left (run n)"
  have less: "way_left (run (Suc l)) < way_left (run l)"
    if "Scheduler_stopping (run l)" "sch l < k" "th_pc (sc_runs (run l) ! sch l) \<noteq> Run_Done" for l
    using way_step [OF all(1) that(1) _ _ that(3)] that all(2) all(4) [of l] by auto
  have keep: "?low \<or> run (n + j) = run n" for j
  proof (induction j)
    case (Suc j)
    have "run (Suc (n + j)) = run (n + j) \<or> way_left (run (Suc (n + j))) < way_left (run (n + j))"
      if "run (n + j) = run n"
      using less [of "n + j"] all(4) [of "n + j"] stop that by metis
    with Suc show ?case by (metis add_Suc_right le_add1)
  qed simp
  show ?thesis
  proof (rule ccontr)
    assume low: "\<not> ?thesis"
    then have "run m = run n" using keep [of "m - n"] m(1) by auto
    with less [of m] stop i m have "way_left (run (Suc m)) < way_left (run n)" by simp
    with low m(1) show False by (meson le_SucI)
  qed
qed

lemma all_leave:
  assumes d: "drains prog rank sch k run" and "Scheduler_stopping (run n)"
  shows "\<exists>m. (\<forall>th\<in>set (sc_runs (run m)). th_pc th = Run_Done) \<and> Scheduler_stopping (run m)"
  using assms(2)
proof (induction "way_left (run n)" arbitrary: n rule: less_induct)
  case less
  have stays: "Scheduler_stopping (run (n + j))" for j
  proof (induction j)
    case (Suc j)
    then show ?case using d by (simp add: drains_def)
  qed (use less.prems in simp)
  show ?case
  proof (cases "\<forall>th\<in>set (sc_runs (run n)). th_pc th = Run_Done")
    case False
    have "length (sc_runs (run n)) = k" using d by (simp add: drains_def)
    with False obtain i where "i < k" "th_pc (sc_runs (run n) ! i) \<noteq> Run_Done"
      by (auto simp: in_set_conv_nth)
    from way_drops [OF d less.prems this] obtain m where m: "n \<le> m" "way_left (run m) < way_left (run n)" by blast
    with less.hyps [OF m(2)] stays [of "m - n"] show ?thesis by simp
  qed (use less.prems in blast)
qed

section \<open>Before \<open>stop\<close>\<close>

lemma pool_sched_reach: "pool_reach prog conf s0 s \<Longrightarrow> sched_reach prog conf s0 s"
  by (induction rule: pool_runs.induct) (auto intro: sched_reach.intros)

text \<open>As long as \<open>stop\<close> has not been called, no thread begins to leave.\<close>

definition staying :: "('p, 'w) sched \<Rightarrow> bool" where
  "staying s \<longleftrightarrow> m_auto_stop s \<or> (\<forall>th\<in>set (sc_runs s). \<not> leaving (sc_world s) th)"

lemma staying_same:
  "staying s \<Longrightarrow> sc_runs s' = sc_runs s \<Longrightarrow> sc_world s' = sc_world s \<Longrightarrow> m_auto_stop s' = m_auto_stop s \<Longrightarrow> staying s'"
  by (simp add: staying_def)

lemma tickles_flags [simp]:
  "m_auto_stop ((Scheduler_tickle ^^ n) s) = m_auto_stop s" "m_stopping ((Scheduler_tickle ^^ n) s) = m_stopping s"
  by (induction n) (simp_all add: Scheduler_tickle_def)

lemma staying_step:
  assumes prog: "callback_prog prog" and inv: "pool_inv s" and st: "staying s" and step: "sched_step prog conf i s = Inr s'"
  shows "staying s'"
proof (cases "i < length (sc_runs s) \<and> \<not> m_auto_stop s")
  case True
  then have i: "i < length (sc_runs s)" and auto: "\<not> m_auto_stop s" by simp_all
  from pool_thread_run [OF prog inv i, of conf "\<lambda>_. 0"] step have "s' = s \<or> pool_ok (\<lambda>_. 0) prog i s s'" by auto
  then show ?thesis
  proof
    assume "pool_ok (\<lambda>_. 0) prog i s s'"
    from pool_ok_moved [OF inv i this] obtain th t where s': "s' = set_thread i th t" "sc_runs t = sc_runs s"
      and pr: "progress (\<lambda>_. 0) prog s (sc_runs s ! i) t th"
      and others: "\<forall>j < length (sc_runs s). j \<noteq> i \<longrightarrow>
           leaving (sc_world t) (sc_runs s ! j) = leaving (sc_world s) (sc_runs s ! j)"
      unfolding moved_def by blast
    have now: "\<not> leaving (sc_world s) (sc_runs s ! j)" if "j < length (sc_runs s)" for j
      using st auto that by (simp add: staying_def)
    have "\<not> leaving (sc_world t) th"
      using pr now [OF i] auto by (simp add: progress_def Scheduler_stopping_def)
    then have "\<not> leaving (sc_world t) ((sc_runs s)[i := th] ! j)" if "j < length (sc_runs s)" for j
      using that others now [OF that] by (cases "j = i") auto
    then show ?thesis using s' by (auto simp: staying_def set_thread_def in_set_conv_nth)
  qed (use st in simp)
next
  case False
  have "m_auto_stop s' = m_auto_stop s" if i: "i < length (sc_runs s)"
  proof -
    have "s' = s \<or> pool_ok (\<lambda>_. 0) prog i s s'"
      using pool_thread_run [OF prog inv i, of conf "\<lambda>_. 0"] step by auto
    with pool_ok_moved [OF inv i] moved_ids [OF _ i] show ?thesis by blast
  qed
  with False st step show ?thesis
    by (cases "i < length (sc_runs s)") (simp_all add: staying_def sched_step_def)
qed

lemma start_runs:
  assumes "Scheduler_start tids s = Inr s'"
  obtains ths where "sc_runs s' = sc_runs s @ ths" "sc_world s' = sc_world s" "m_auto_stop s' = m_auto_stop s"
    "\<forall>th\<in>set ths. \<not> leaving (sc_world s) th"
proof
  let ?ths = "drop (length (sc_runs s)) (sc_runs s')"
  show "sc_runs s' = sc_runs s @ ?ths" "sc_world s' = sc_world s" "m_auto_stop s' = m_auto_stop s"
    "\<forall>th\<in>set ?ths. \<not> leaving (sc_world s) th"
    using assms by (auto simp: Scheduler_start_def Let_def new_sthread_def leaving_def idle_term_def split: if_splits)
qed

lemma pool_reach_staying:
  assumes prog: "callback_prog prog" and inv: "pool_inv s0"
  shows "pool_reach prog conf s0 s \<Longrightarrow> staying s0 \<Longrightarrow> staying s"
proof (induction rule: pool_runs.induct)
  case (pr_step s i s')
  then show ?case using staying_step [OF prog pool_reach_inv [OF prog pr_step(1) inv]] by blast
next
  case (pr_schedule s ft)
  then have "staying s" by simp
  then show ?case by (rule staying_same) (simp_all add: schedule_cb_fields)
next
  case (pr_range s fts fts' s')
  have "\<forall>ft\<in>set fts. \<not> task_empty ft" using pr_range(2) by (auto simp: task_empty_def)
  from Scheduler_schedule_range_enqueue [OF this, of s] pr_range(3)
  have s': "s' = enqueue (map (\<lambda>ft. ft\<lparr>ft_thread := -1\<rparr>) fts) (if m_fibers s = [] \<and> fts \<noteq> [] then 1 else 0) s" by simp
  have "staying s" using pr_range by simp
  then show ?case unfolding s' by (rule staying_same) (simp_all add: enqueue_def)
next
  case (pr_start s tids s')
  from start_runs [OF pr_start(3)] obtain ths where "sc_runs s' = sc_runs s @ ths" "sc_world s' = sc_world s"
    "m_auto_stop s' = m_auto_stop s" "\<forall>th\<in>set ths. \<not> leaving (sc_world s) th" .
  then show ?case using pr_start by (auto simp: staying_def)
next
  case (pr_swap s thrs s')
  then have "staying s" by simp
  then show ?case by (rule staying_same) (use pr_swap(2) in \<open>auto simp: Scheduler_stop_swap_def\<close>)
next
  case (pr_stop s this tls early s')
  have "m_root_fiber s = None" using pool_reach_inv [OF prog pr_stop(1) inv] by (simp add: pool_inv_def)
  with pr_stop(2) have "m_auto_stop s'" by (auto simp: Scheduler_stop_def Let_def split: if_splits)
  then show ?case by (simp add: staying_def)
qed

section \<open>A thread that never leaves\<close>

text \<open>While a task is stranded, no thread begins to leave \<open>run\<close>.\<close>

definition stays :: "nat \<Rightarrow> ('p, 'w) sched \<Rightarrow> bool" where
  "stays i s \<longleftrightarrow> i < length (sc_runs s) \<and> \<not> leaving (sc_world s) (sc_runs s ! i)"

lemma stays_more: "stays i s \<Longrightarrow> sc_world s' = sc_world s \<Longrightarrow> sc_runs s' = sc_runs s @ ths \<Longrightarrow> stays i s'"
  by (simp add: stays_def nth_append)

lemma stays_step:
  assumes prog: "callback_prog prog" and inv: "pool_inv s" and st: "stays i s" and stuck: "\<not> Scheduler_stopping s"
    and step: "sched_step prog conf j s = Inr s'"
  shows "stays i s'"
proof (cases "j < length (sc_runs s)")
  case True
  from pool_thread_run [OF prog inv True, of conf "\<lambda>_. 0"] step have "s' = s \<or> pool_ok (\<lambda>_. 0) prog j s s'" by auto
  then show ?thesis
  proof
    assume "pool_ok (\<lambda>_. 0) prog j s s'"
    from pool_ok_moved [OF inv True this] obtain th t where s': "s' = set_thread j th t" "sc_runs t = sc_runs s"
      and pr: "progress (\<lambda>_. 0) prog s (sc_runs s ! j) t th"
      and others: "\<forall>l < length (sc_runs s). l \<noteq> j \<longrightarrow>
           leaving (sc_world t) (sc_runs s ! l) = leaving (sc_world s) (sc_runs s ! l)"
      unfolding moved_def by blast
    have "\<not> leaving (sc_world t) th" if "j = i"
      using pr st stuck that by (simp add: progress_def stays_def)
    with st others s' show ?thesis by (cases "j = i") (auto simp: stays_def set_thread_def)
  qed (use st in simp)
qed (use st step in \<open>simp add: sched_step_def\<close>)

lemma stranded_stays:
  assumes prog: "callback_prog prog" and inv: "pool_inv s0"
  shows "pool_runs prog conf (- {-1, ft_thread ft}) s0 s \<Longrightarrow> stranded ft s0 \<Longrightarrow> stays i s0 \<Longrightarrow> stranded ft s \<and> stays i s"
proof (induction rule: pool_runs.induct)
  case (pr_step s j s')
  have "pool_inv s" by (rule pool_runs_inv [OF prog pr_step(1) _ inv]) simp
  with pr_step stranded_step stays_step [OF prog] stranded_not_stopping show ?case by blast
next
  case (pr_schedule s x)
  then have "stays i (Scheduler_schedule x s)" by (simp add: stays_def schedule_cb_fields)
  then show ?case using pr_schedule stranded_schedule by blast
next
  case (pr_range s fts fts' s')
  have "\<forall>ft\<in>set fts. \<not> task_empty ft" using pr_range(2) by (auto simp: task_empty_def)
  from Scheduler_schedule_range_enqueue [OF this, of s] pr_range(3)
  have s': "s' = enqueue (map (\<lambda>ft. ft\<lparr>ft_thread := -1\<rparr>) fts) (if m_fibers s = [] \<and> fts \<noteq> [] then 1 else 0) s" by simp
  then have "stays i s'" using pr_range stays_more [of i s s' "[]"] by (simp add: enqueue_def)
  then show ?case using pr_range stranded_range by blast
next
  case (pr_start s tids s')
  have "ft_thread ft \<notin> set tids" using pr_start(2) by auto
  have "\<exists>ths. sc_world s' = sc_world s \<and> sc_runs s' = sc_runs s @ ths"
    using start_runs [OF pr_start(3)] by metis
  then obtain ths where "sc_world s' = sc_world s" "sc_runs s' = sc_runs s @ ths" by blast
  then have "stays i s'" using pr_start stays_more [of i s s' ths] by simp
  moreover have "stranded ft s'" using pr_start stranded_start [OF _ pr_start(3) \<open>ft_thread ft \<notin> set tids\<close>] by simp
  ultimately show ?case by simp
next
  case (pr_stop s this tls early s')
  have "m_root_fiber s = None" using pool_runs_inv [OF prog pr_stop(1) _ inv] by (simp add: pool_inv_def)
  then have "stays i s'"
    using pr_stop stays_more [of i s s' "[]"] by (auto simp: Scheduler_stop_def Let_def split: if_splits)
  then show ?case using pr_stop stranded_stop by blast
next
  case (pr_swap s thrs s')
  then have "stays i s'" using stays_more [of i s s' "[]"] by (auto simp: Scheduler_stop_swap_def)
  then show ?case using pr_swap stranded_swap by blast
qed simp

section \<open>Properties\<close>

text \<open>C33: \<open>stop\<close> returns. Take a scheduler without the caller's thread that has only been given callbacks, each for
  any thread or for one of the scheduler's own, and callbacks that come to an end (each has a rank that falls with
  every step and covers what it schedules). When \<open>stop\<close> is called, it passes its assertions, and in every fair order in
  which the system lets the threads run, all of them leave \<open>run\<close>, so that the joins return; what was in the queue, and
  what the callbacks have added, has then been executed.\<close>

theorem pool_stop_returns:
  assumes "callback_prog prog" and "terminating prog rank"
    and "Scheduler_ctor conf threads False tid other tls fiber_world_init e = Inr (tls', s0)"
    and "pool_reach prog conf s0 s" and "\<not> m_auto_stop s"
    and "\<forall>ft\<in>set (m_fibers s). for_live s ft" and "targets prog (live_ids s)" and "fair sch (length (sc_runs s))"
  shows "\<exists>s1 s2. Scheduler_stop False stls s = Inr (False, s1) \<and> Scheduler_stop_swap s1 = (m_threads s, s2) \<and>
           (\<exists>n s'. sched_run prog conf sch s2 n = Inr s' \<and> stop_returns (m_threads s) s' \<and>
              (sc_runs s \<noteq> [] \<longrightarrow> m_fibers s' = []))"
proof -
  have inv0: "pool_inv s0" by (rule pool_inv_ctor [OF assms(3)])
  have inv: "pool_inv s" by (rule pool_reach_inv [OF assms(1,4) inv0])
  have sinv: "sched_inv s" by (rule sched_reach_inv [OF pool_sched_reach [OF assms(4)] sched_inv_ctor [OF assms(3)]])
  have "staying s0" using assms(3) by (auto simp: staying_def Scheduler_ctor_def split: if_splits)
  then have "staying s" by (rule pool_reach_staying [OF assms(1) inv0 assms(4)])
  let ?s1 = "(Scheduler_tickle ^^ m_thread_count s) (s\<lparr>m_auto_stop := True, m_stopping := True\<rparr>)"
  let ?s2 = "?s1\<lparr>m_threads := []\<rparr>"
  have stop: "Scheduler_stop False stls s = Inr (False, ?s1)"
    using inv by (simp add: Scheduler_stop_def pool_inv_def Let_def)
  have swap: "Scheduler_stop_swap ?s1 = (m_threads s, ?s2)" by (simp add: Scheduler_stop_swap_def)
  have below: "\<forall>i\<in>set (m_threads s). i < length (sc_runs s)" using sinv by (simp add: sched_inv_def)
  show ?thesis
  proof (cases "sc_runs s = []")
    case True
    then have "sched_run prog conf sch ?s2 0 = Inr ?s2 \<and> stop_returns (m_threads s) ?s2"
      using below by (auto simp: stop_returns_def)
    with stop swap True show ?thesis by blast
  next
    case False
    have "draining ?s2"
      using inv sinv pool_inv_swap [OF pool_inv_stop [OF inv stop] swap] sched_inv_swap [OF sched_inv_stop [OF sinv stop] swap]
        \<open>staying s\<close> assms(5,6)
      by (simp add: draining_def staying_def for_live_def)
    moreover have "targets prog (live_ids ?s2)" using assms(7) by (simp add: live_ids_def)
    ultimately obtain run where run: "\<forall>n. sched_run prog conf sch ?s2 n = Inr (run n)"
      "drains prog rank sch (length (sc_runs ?s2)) run"
      using drains_exists [OF assms(1,2), of ?s2 sch conf] False assms(8) by auto
    obtain n where "Scheduler_stopping (run n)" using work_ends [OF run(2)] by blast
    from all_leave [OF run(2) this] obtain m where
      m: "\<forall>th\<in>set (sc_runs (run m)). th_pc th = Run_Done" "Scheduler_stopping (run m)" by blast
    have "length (sc_runs (run m)) = length (sc_runs s)" using run(2) by (simp add: drains_def)
    then have "stop_returns (m_threads s) (run m)" using m(1) below by (simp add: stop_returns_def)
    with stop swap run(1) m(2) show ?thesis by (auto simp: Scheduler_stopping_def)
  qed
qed

text \<open>The callback that schedules another one, two threads that take turns.\<close>

theorem pool_stop_returns_witness:
  "\<exists>s1 s2 n s'. Scheduler_stop False fiber_tls_init (demo_sched [cb_task 0 (-1)]) = Inr (False, s1) \<and>
     Scheduler_stop_swap s1 = ([0, 1], s2) \<and>
     sched_run pool_prog 0 (\<lambda>n. n mod 2) s2 n = Inr s' \<and> stop_returns [0, 1] s' \<and> m_fibers s' = []"
proof -
  let ?s = "demo_sched [cb_task (0 :: nat) (-1)]"
  have prog: "callback_prog pool_prog" by (simp add: callback_prog_def pool_prog_def cb_task_def)
  have fin: "terminating pool_prog (\<lambda>p. if p = 0 then 1 else 0)"
    by (auto simp: terminating_def pool_prog_def cb_task_def)
  have tg: "targets pool_prog (live_ids ?s)" by (simp add: targets_def pool_prog_def cb_task_def)
  have live: "\<forall>ft\<in>set (m_fibers ?s). for_live ?s ft" by (simp add: demo_sched_def for_live_def cb_task_def)
  have auto: "\<not> m_auto_stop ?s" and len: "length (sc_runs ?s) = 2" "sc_runs ?s \<noteq> []" by (simp_all add: demo_sched_def)
  have "fair (\<lambda>n. n mod 2) 2"
    unfolding fair_def
  proof (intro allI impI)
    fix i n :: nat
    assume "i < 2"
    then show "\<exists>m\<ge>n. m mod 2 = i" by (intro exI [of _ "2 * n + i"]) simp
  qed
  then have fair: "fair (\<lambda>n. n mod 2) (length (sc_runs ?s))" using len by simp
  have "m_threads ?s = [0, 1]" by (simp add: demo_sched_def)
  with pool_stop_returns [OF prog fin demo_ctor demo_pool_reach auto live tg fair, of fiber_tls_init] len(2)
  show ?thesis by auto
qed

text \<open>C36: A task for a thread id that no live thread of a pool has (such a task can be scheduled at any time, and its
  thread can also leave first) is never taken, and as long as the scheduler is not started again with a thread
  of that id, \<open>stopping\<close> is never true: a thread whose idle fiber has not ended never leaves \<open>run\<close>, whatever
  is scheduled and however the threads are interleaved. So no \<open>stop\<close> that joins such a thread ever returns; in particular,
  a call of \<open>stop\<close> passes its assertions, takes the threads out of \<open>m_threads\<close> and then waits for ever.\<close>

theorem stranded_task_blocks_stop:
  assumes "callback_prog prog"
    and "Scheduler_ctor conf threads False tid other tls fiber_world_init e = Inr (tls', s0)"
    and "pool_reach prog conf s0 s" and "stranded ft s"
    and "i < length (sc_runs s)" and "\<not> leaving (sc_world s) (sc_runs s ! i)"
  shows "(\<forall>s'. pool_runs prog conf (- {-1, ft_thread ft}) s s' \<longrightarrow>
            ft \<in> set (m_fibers s') \<and> \<not> Scheduler_stopping s' \<and> th_pc (sc_runs s' ! i) \<noteq> Run_Done \<and>
            (\<forall>thrs. i \<in> set thrs \<longrightarrow> \<not> stop_returns thrs s')) \<and>
         (i \<in> set (m_threads s) \<longrightarrow>
            (\<exists>s1 s2. Scheduler_stop False stls s = Inr (False, s1) \<and> Scheduler_stop_swap s1 = (m_threads s, s2) \<and>
               m_threads s2 = [] \<and>
               (\<forall>s'. pool_runs prog conf (- {-1, ft_thread ft}) s2 s' \<longrightarrow> \<not> stop_returns (m_threads s) s')))"
proof -
  have inv: "pool_inv s" by (rule pool_reach_inv [OF assms(1,3) pool_inv_ctor [OF assms(2)]])
  have never: "ft \<in> set (m_fibers s') \<and> \<not> Scheduler_stopping s' \<and> th_pc (sc_runs s' ! i) \<noteq> Run_Done \<and>
      (\<forall>thrs. i \<in> set thrs \<longrightarrow> \<not> stop_returns thrs s')" if "pool_runs prog conf (- {-1, ft_thread ft}) s s'" for s'
  proof -
    have "stranded ft s' \<and> stays i s'"
      by (rule stranded_stays [OF assms(1) inv that assms(4)]) (use assms(5,6) in \<open>simp add: stays_def\<close>)
    then show ?thesis
      using stranded_not_stopping [of ft s'] by (auto simp: stranded_def stays_def leaving_def stop_returns_def)
  qed
  obtain s1 s2 where s1: "Scheduler_stop False stls s = Inr (False, s1)" and s2: "Scheduler_stop_swap s1 = (m_threads s, s2)"
    "m_threads s2 = []"
    using inv by (simp add: Scheduler_stop_def pool_inv_def Let_def Scheduler_stop_swap_def)
  have "pool_runs prog conf (- {-1, ft_thread ft}) s s2" by (rule pr_swap [OF pr_stop [OF pr_init s1] s2(1)])
  with pool_runs_trans never have "\<not> stop_returns (m_threads s) s'"
    if "i \<in> set (m_threads s)" "pool_runs prog conf (- {-1, ft_thread ft}) s2 s'" for s' using that by blast
  with never s1 s2 show ?thesis by blast
qed

text \<open>Two threads, 101 and 102, a task for 7, and some steps after \<open>stop\<close>.\<close>

theorem stranded_task_blocks_stop_witness:
  "\<exists>s1 s2 s'. Scheduler_stop False fiber_tls_init (demo_sched [cb_task 0 7]) = Inr (False, s1) \<and>
     Scheduler_stop_swap s1 = ([0, 1], s2) \<and> fold_r (sched_step pool_prog 0) [0, 1, 0, 0, 0, 0, 1, 0] s2 = Inr s' \<and>
     m_auto_stop s' \<and> m_stopping s' \<and> m_fibers s' = [cb_task 0 7] \<and> \<not> stop_returns [0, 1] s'"
proof -
  let ?s = "demo_sched [cb_task (0 :: nat) 7]"
  have prog: "callback_prog pool_prog" by (simp add: callback_prog_def pool_prog_def cb_task_def)
  have st: "stranded (cb_task 0 7) ?s" by (simp add: stranded_def demo_sched_def cb_task_def new_sthread_def)
  have i: "0 < length (sc_runs ?s)" "\<not> leaving (sc_world ?s) (sc_runs ?s ! 0)" and thrs: "m_threads ?s = [0, 1]"
    by (simp_all add: demo_sched_def leaving_def idle_term_def new_sthread_def)
  obtain s1 s2 where s1: "Scheduler_stop False fiber_tls_init ?s = Inr (False, s1)" "Scheduler_stop_swap s1 = ([0, 1], s2)"
    and never: "\<forall>s'. pool_runs pool_prog 0 (- {-1, 7}) s2 s' \<longrightarrow> \<not> stop_returns [0, 1] s'"
    using stranded_task_blocks_stop [OF prog demo_ctor demo_pool_reach st i, of fiber_tls_init] thrs
    by (auto simp: cb_task_def)
  have s2: "s2 = ?s\<lparr>m_auto_stop := True, m_stopping := True, sc_tickles := 3, m_threads := []\<rparr>"
    using s1 by (auto simp: Scheduler_stop_def Let_def demo_sched_def Scheduler_tickle_def eval_nat_numeral Scheduler_stop_swap_def)
  have "\<exists>s'. fold_r (sched_step pool_prog 0) [0, 1, 0, 0, 0, 0, 1, 0] s2 = Inr s' \<and> m_auto_stop s' \<and> m_stopping s' \<and>
      m_fibers s' = [cb_task 0 7]"
    unfolding s2 by (simp add: sched_run_defs demo_sched_def)
  then obtain s' where s': "fold_r (sched_step pool_prog 0) [0, 1, 0, 0, 0, 0, 1, 0] s2 = Inr s'"
    "m_auto_stop s'" "m_stopping s'" "m_fibers s' = [cb_task 0 7]" by blast
  have "pool_runs pool_prog 0 (- {-1, 7}) s2 s'"
    using fold_r_invariant [where P = "pool_runs pool_prog 0 (- {-1, 7}) s2", OF s'(1) pr_init] pr_step by blast
  with never s1 s' show ?thesis by blast
qed

end
