(* ===== verification/Lock_Order.thy ===== *)
theory Lock_Order
  imports Locks "HOL-Library.Multiset"
begin

text \<open>
  Threads that take locks in scopes. A program is a tree: a scope that holds a lock guard while its body
  runs, or a place where the thread reads data that other threads may change and goes on according to
  what it sees. The interface \<open>lock_table\<close> states what is needed of the locks; the mutexes and
  read-write locks of \<open>Locks\<close> provide it. When every program takes its locks in the order of a rank, threads never
  block each other for good, and every run ends.
\<close>

section \<open>Programs and their runs\<close>

datatype lock_mode = In_Lock | In_ReadLock | In_WriteLock

text \<open>
  \<open>Guard m l body\<close> is a block that opens with a guard of kind \<open>m\<close> on the lock \<open>l\<close>; \<open>Look f\<close> reads the shared data.
  \<open>Release m l\<close> is the destructor at the end of a block that has been entered.
\<close>

datatype ('l, 'e) prog =
    Guard lock_mode 'l "('l, 'e) prog list"
  | Look "'e \<Rightarrow> ('l, 'e) prog list"

datatype ('l, 'e) instr =
    Do "('l, 'e) prog"
  | Release lock_mode 'l

fun is_release :: "('l, 'e) instr \<Rightarrow> bool" where
  "is_release (Do p) = False"
| "is_release (Release m l) = True"

type_synonym ('l, 's) acquire = "lock_mode \<Rightarrow> nat \<Rightarrow> 'l \<Rightarrow> 's \<Rightarrow> 's option"
type_synonym ('l, 's) release = "lock_mode \<Rightarrow> nat \<Rightarrow> 'l \<Rightarrow> 's \<Rightarrow> 's"

text \<open>
  One step of thread \<open>t\<close> on the table of locks and its own continuation; \<open>seen\<close> says which shared data it may
  find. A constructor that would block makes no step.
\<close>

inductive thread_move ::
  "('l, 's) acquire \<Rightarrow> ('l, 's) release \<Rightarrow> ('e \<Rightarrow> bool) \<Rightarrow> nat \<Rightarrow>
   's \<times> ('l, 'e) instr list \<Rightarrow> 's \<times> ('l, 'e) instr list \<Rightarrow> bool"
  for acquire release seen t where
  mv_enter: "acquire m t l s = Some s' \<Longrightarrow>
     thread_move acquire release seen t (s, Do (Guard m l body) # k) (s', map Do body @ Release m l # k)"
| mv_leave: "thread_move acquire release seen t (s, Release m l # k) (release m t l s, k)"
| mv_look: "seen e \<Longrightarrow> thread_move acquire release seen t (s, Do (Look f) # k) (s, map Do (f e) @ k)"

inductive_cases thread_moveE: "thread_move acquire release seen t (s, k) (s', k')"

text \<open>
  An exception leaves scopes up to some handler: the rest of each scope is skipped, its guard is
  destroyed.
\<close>

inductive thread_throw :: "'s \<times> ('l, 'e) instr list \<Rightarrow> 's \<times> ('l, 'e) instr list \<Rightarrow> bool" where
  throw: "thread_throw (s, Do p # k1 @ k2) (s, filter is_release k1 @ k2)"

inductive_cases thread_throwE: "thread_throw (s, k) (s', k')"

type_synonym ('l, 'e, 's) run_state = "'s \<times> ('l, 'e) instr list list"

inductive sys_move ::
  "('l, 's) acquire \<Rightarrow> ('l, 's) release \<Rightarrow> ('e \<Rightarrow> bool) \<Rightarrow>
   ('l, 'e, 's) run_state \<Rightarrow> ('l, 'e, 's) run_state \<Rightarrow> bool"
  for acquire release seen where
  sys_thread: "t < length ts \<Longrightarrow> thread_move acquire release seen t (s, ts ! t) (s', k') \<Longrightarrow>
     sys_move acquire release seen (s, ts) (s', ts[t := k'])"

inductive sys_step ::
  "('l, 's) acquire \<Rightarrow> ('l, 's) release \<Rightarrow> ('e \<Rightarrow> bool) \<Rightarrow>
   ('l, 'e, 's) run_state \<Rightarrow> ('l, 'e, 's) run_state \<Rightarrow> bool"
  for acquire release seen where
  step_move: "sys_move acquire release seen c c' \<Longrightarrow> sys_step acquire release seen c c'"
| step_throw: "t < length ts \<Longrightarrow> thread_throw (s, ts ! t) (s', k') \<Longrightarrow>
     sys_step acquire release seen (s, ts) (s', ts[t := k'])"

inductive sys_reach ::
  "('l, 's) acquire \<Rightarrow> ('l, 's) release \<Rightarrow> ('e \<Rightarrow> bool) \<Rightarrow>
   ('l, 'e, 's) run_state \<Rightarrow> ('l, 'e, 's) run_state \<Rightarrow> bool"
  for acquire release seen c0 where
  reach_start: "sys_reach acquire release seen c0 c0"
| reach_step: "sys_reach acquire release seen c0 c \<Longrightarrow> sys_step acquire release seen c c' \<Longrightarrow>
     sys_reach acquire release seen c0 c'"

lemma thread_move_unfinished: "thread_move acquire release seen t (s, k) (s', k') \<Longrightarrow> k \<noteq> []"
  by (erule thread_moveE) simp_all

lemma thread_move_blocked:
  "acquire m t l s = None \<Longrightarrow> \<not> thread_move acquire release seen t (s, Do (Guard m l body) # k) (s', k')"
  by (auto elim: thread_moveE)

lemma sys_move_thread:
  assumes "sys_move acquire release seen (s, ts) c'"
  obtains t s' k' where "t < length ts" "thread_move acquire release seen t (s, ts ! t) (s', k')"
  using assms by cases

lemma sys_move_unfinished: "sys_move acquire release seen (s, ts) c' \<Longrightarrow> \<exists>k\<in>set ts. k \<noteq> []"
  by (erule sys_move_thread) (metis nth_mem thread_move_unfinished)

lemma reach_move:
  "sys_reach acquire release seen c0 (s, ts) \<Longrightarrow> t < length ts \<Longrightarrow>
   thread_move acquire release seen t (s, ts ! t) (s', k') \<Longrightarrow> ts' = ts[t := k'] \<Longrightarrow>
   sys_reach acquire release seen c0 (s', ts')"
  by (simp only:) (rule reach_step, assumption, rule step_move, rule sys_thread)

section \<open>Every run ends\<close>

text \<open>A program is above the programs it goes on with, whatever it reads; the relation is well-founded.\<close>

inductive below :: "('l, 'e) instr \<Rightarrow> ('l, 'e) instr \<Rightarrow> bool" where
  below_release: "below (Release m l) (Do p)"
| below_body: "p \<in> set body \<Longrightarrow> below (Do p) (Do (Guard m l body))"
| below_look: "p \<in> set (f e) \<Longrightarrow> below (Do p) (Do (Look f))"

inductive_cases below_GuardE: "below x (Do (Guard m l body))"
inductive_cases below_LookE: "below x (Do (Look f))"
inductive_cases below_ReleaseE: "below x (Release m l)"

definition below_rel :: "(('l, 'e) instr \<times> ('l, 'e) instr) set" where
  "below_rel = {(x, y). below x y}"

lemma acc_Release: "Wellfounded.accp below (Release m l)"
  by (rule accp.accI) (erule below_ReleaseE)

lemma acc_Do: "Wellfounded.accp below (Do p)"
proof (induction p)
  case (Guard m l body)
  show ?case
    by (rule accp.accI) (erule below_GuardE; use Guard.IH acc_Release in simp)
next
  case (Look f)
  show ?case
  proof (rule accp.accI)
    fix x assume "below x (Do (Look f))"
    then show "Wellfounded.accp below x"
      by (cases rule: below_LookE) (auto simp: acc_Release intro: Look.IH [OF rangeI])
  qed
qed

lemma wf_below: "wf (below_rel :: (('l, 'e) instr \<times> ('l, 'e) instr) set)"
proof -
  have "Wellfounded.accp below x" for x :: "('l, 'e) instr"
    by (cases x) (simp_all add: acc_Do acc_Release)
  then have "wfp (below :: ('l, 'e) instr \<Rightarrow> ('l, 'e) instr \<Rightarrow> bool)" by (intro accp_wfpI) simp
  then show ?thesis by (simp add: below_rel_def wfp_def)
qed

definition work :: "('l, 'e) instr list list \<Rightarrow> ('l, 'e) instr multiset" where
  "work ts = (\<Sum>k\<leftarrow>ts. mset k)"

lemma mset_lists_update:
  assumes "t < length xss"
  obtains r where "(\<Sum>xs\<leftarrow>xss. mset xs) = r + mset (xss ! t)"
    "\<And>ys. (\<Sum>xs\<leftarrow>xss[t := ys]. mset xs) = r + mset ys"
proof
  let ?r = "(\<Sum>xs\<leftarrow>take t xss. mset xs) + (\<Sum>xs\<leftarrow>drop (Suc t) xss. mset xs)"
  show upd: "(\<Sum>xs\<leftarrow>xss[t := ys]. mset xs) = ?r + mset ys" for ys
    using assms by (simp add: upd_conv_take_nth_drop ac_simps)
  show "(\<Sum>xs\<leftarrow>xss. mset xs) = ?r + mset (xss ! t)"
    using upd [of "xss ! t"] by simp
qed

lemma work_update:
  assumes "t < length ts"
  obtains r where "work ts = r + mset (ts ! t)" "\<And>k. work (ts[t := k]) = r + mset k"
  unfolding work_def by (rule mset_lists_update [OF assms]) (rule that [unfolded work_def])

lemma mult_less:
  "J \<noteq> {#} \<Longrightarrow> (\<And>x. x \<in># K \<Longrightarrow> \<exists>y. y \<in># J \<and> below x y) \<Longrightarrow> (I + K, I + J) \<in> mult below_rel"
  by (rule one_step_implies_mult) (auto simp: below_rel_def)

lemma thread_move_less:
  assumes "thread_move acquire release seen t (s, k) (s', k')"
  shows "(r + mset k', r + mset k) \<in> mult below_rel"
  using assms
proof cases
  case (mv_enter m l body k2)
  have "(r + mset k2 + (mset (map Do body) + {#Release m l#}), r + mset k2 + {#Do (Guard m l body)#}) \<in> mult below_rel"
    by (rule mult_less) (auto intro: below.intros)
  then show ?thesis using mv_enter by (simp add: ac_simps)
next
  case (mv_leave m l)
  have "(r + mset k' + {#}, r + mset k' + {#Release m l#}) \<in> mult below_rel"
    by (rule mult_less) auto
  then show ?thesis using mv_leave by simp
next
  case (mv_look e f k2)
  have "(r + mset k2 + mset (map Do (f e)), r + mset k2 + {#Do (Look f)#}) \<in> mult below_rel"
    by (rule mult_less) (auto intro: below.intros)
  then show ?thesis using mv_look by (simp add: ac_simps)
qed

lemma thread_throw_less:
  assumes "thread_throw (s, k) (s', k')"
  shows "(r + mset k', r + mset k) \<in> mult below_rel"
  using assms
proof cases
  case (throw p k1 k2)
  have "(r + mset (filter is_release k1 @ k2) + {#}, r + mset (filter is_release k1 @ k2) +
          ({#Do p#} + mset (filter (\<lambda>x. \<not> is_release x) k1))) \<in> mult below_rel"
    by (rule mult_less) auto
  then show ?thesis using throw by (simp add: ac_simps flip: multiset_partition)
qed

lemma sys_step_less:
  assumes "sys_step acquire release seen (s, ts) (s', ts')"
  shows "(work ts', work ts) \<in> mult below_rel"
  using assms
proof cases
  case step_move
  then show ?thesis
    by cases (metis work_update thread_move_less)
next
  case (step_throw t k')
  then show ?thesis by (metis work_update thread_throw_less)
qed

lemma no_infinite_work:
  fixes f :: "nat \<Rightarrow> ('l, 'e) instr multiset"
  shows "\<not> (\<forall>i. (f (Suc i), f i) \<in> mult below_rel)"
  using wf_mult [OF wf_below [where 'l = 'l and 'e = 'e]] by (simp add: wf_iff_no_infinite_down_chain)

text \<open>There is no infinite run, with or without exceptions.\<close>

lemma sys_steps_end: "\<not> (\<exists>c. \<forall>i. sys_step acquire release seen (c i) (c (Suc i)))"
proof
  assume "\<exists>c. \<forall>i. sys_step acquire release seen (c i) (c (Suc i))"
  then obtain c where c: "\<And>i. sys_step acquire release seen (c i) (c (Suc i))" by blast
  have "(work (snd (c (Suc i))), work (snd (c i))) \<in> mult below_rel" for i
    by (rule sys_step_less [of acquire release seen "fst (c i)" _ "fst (c (Suc i))"]) (simp add: c)
  then show False
    using no_infinite_work [of "\<lambda>i. work (snd (c i))"] by blast
qed

section \<open>Programs that lock in order\<close>

text \<open>
  \<open>ordered rank seen r p\<close>: whatever \<open>p\<close> sees, the locks it takes have ranks above \<open>r\<close> and grow inwards.
\<close>

inductive ordered :: "('l \<Rightarrow> nat) \<Rightarrow> ('e \<Rightarrow> bool) \<Rightarrow> nat \<Rightarrow> ('l, 'e) prog \<Rightarrow> bool" for rank seen where
  ord_guard: "r < rank l \<Longrightarrow> (\<And>p. p \<in> set body \<Longrightarrow> ordered rank seen (rank l) p) \<Longrightarrow>
     ordered rank seen r (Guard m l body)"
| ord_look: "(\<And>e p. seen e \<Longrightarrow> p \<in> set (f e) \<Longrightarrow> ordered rank seen r p) \<Longrightarrow> ordered rank seen r (Look f)"

inductive_simps ordered_Guard [simp]: "ordered rank seen r (Guard m l body)"
inductive_simps ordered_Look [simp]: "ordered rank seen r (Look f)"

lemma ordered_mono: "ordered rank seen r p \<Longrightarrow> r' \<le> r \<Longrightarrow> ordered rank seen r' p"
  by (induction arbitrary: r' rule: ordered.induct) auto

text \<open>The rank of the innermost lock a continuation is to release, and the continuations that keep the order.\<close>

fun innermost :: "('l \<Rightarrow> nat) \<Rightarrow> ('l, 'e) instr list \<Rightarrow> nat" where
  "innermost rank [] = 0"
| "innermost rank (Do p # k) = innermost rank k"
| "innermost rank (Release m l # k) = rank l"

fun in_order :: "('l \<Rightarrow> nat) \<Rightarrow> ('e \<Rightarrow> bool) \<Rightarrow> ('l, 'e) instr list \<Rightarrow> bool" where
  "in_order rank seen [] \<longleftrightarrow> True"
| "in_order rank seen (Do p # k) \<longleftrightarrow> ordered rank seen (innermost rank k) p \<and> in_order rank seen k"
| "in_order rank seen (Release m l # k) \<longleftrightarrow> innermost rank k < rank l \<and> in_order rank seen k"

lemma innermost_map_Do [simp]: "innermost rank (map Do ps @ k) = innermost rank k"
  by (induction ps) simp_all

lemma in_order_map_Do [simp]:
  "in_order rank seen (map Do ps @ k) \<longleftrightarrow>
     (\<forall>p\<in>set ps. ordered rank seen (innermost rank k) p) \<and> in_order rank seen k"
  by (induction ps) auto

lemma innermost_unwind [simp]: "innermost rank (filter is_release k1 @ k2) = innermost rank (k1 @ k2)"
proof (induction k1)
  case (Cons i k1)
  then show ?case by (cases i) simp_all
qed simp

lemma in_order_unwind: "in_order rank seen (k1 @ k2) \<Longrightarrow> in_order rank seen (filter is_release k1 @ k2)"
proof (induction k1)
  case (Cons i k1)
  then show ?case by (cases i) simp_all
qed simp

text \<open>The locks thread \<open>t\<close> holds: those its continuation is to release.\<close>

fun holds_of :: "nat \<Rightarrow> ('l, 'e) instr list \<Rightarrow> ('l \<times> lock_mode \<times> nat) multiset" where
  "holds_of t [] = {#}"
| "holds_of t (Do p # k) = holds_of t k"
| "holds_of t (Release m l # k) = add_mset (l, m, t) (holds_of t k)"

lemma holds_of_map_Do [simp]: "holds_of t (map Do ps @ k) = holds_of t k"
  by (induction ps) simp_all

lemma holds_of_unwind [simp]: "holds_of t (filter is_release k1 @ k2) = holds_of t (k1 @ k2)"
  by (induction t k1 rule: holds_of.induct) simp_all

lemma held_below_innermost:
  "in_order rank seen k \<Longrightarrow> (l, m, u) \<in># holds_of t k \<Longrightarrow> u = t \<and> rank l \<le> innermost rank k"
proof (induction k)
  case (Cons i k)
  then show ?case by (cases i) auto
qed simp

definition held :: "('l, 'e) instr list list \<Rightarrow> ('l \<times> lock_mode \<times> nat) multiset" where
  "held ts = (\<Sum>t<length ts. holds_of t (ts ! t))"

lemma held_update:
  assumes "t < length ts"
  obtains r where "held ts = r + holds_of t (ts ! t)" "\<And>k. held (ts[t := k]) = r + holds_of t k"
proof
  let ?r = "\<Sum>u\<in>{..<length ts} - {t}. holds_of u (ts ! u)"
  show "held ts = ?r + holds_of t (ts ! t)"
    using assms unfolding held_def by (subst sum.remove [of _ t]) (auto simp: ac_simps)
  show "held (ts[t := k]) = ?r + holds_of t k" for k
    using assms unfolding held_def by (subst sum.remove [of _ t]) (auto simp: ac_simps intro!: sum.cong)
qed

lemma in_held: "x \<in># held ts \<longleftrightarrow> (\<exists>t<length ts. x \<in># holds_of t (ts ! t))"
  by (auto simp: held_def set_mset_sum)

section \<open>The interface to the locks\<close>

text \<open>
  \<open>counted s H\<close>: the table \<open>s\<close> is as the guards in \<open>H\<close>, of a lock, a kind and a thread each, have left it. A
  constructor blocks only on a lock that is held, and counts when its thread does not hold the lock yet.
\<close>

locale lock_table =
  fixes acquire :: "('l, 's) acquire"
    and release :: "('l, 's) release"
    and counted :: "'s \<Rightarrow> ('l \<times> lock_mode \<times> nat) multiset \<Rightarrow> bool"
  assumes blocked: "counted s H \<Longrightarrow> acquire m t l s = None \<Longrightarrow> \<exists>m' u. (l, m', u) \<in># H"
    and entered: "counted s H \<Longrightarrow> (\<And>m'. (l, m', t) \<notin># H) \<Longrightarrow> acquire m t l s = Some s' \<Longrightarrow>
      counted s' (add_mset (l, m, t) H)"
    and left: "counted s (add_mset (l, m, t) H) \<Longrightarrow> counted (release m t l s) H"
begin

definition lock_inv :: "('l \<Rightarrow> nat) \<Rightarrow> ('e \<Rightarrow> bool) \<Rightarrow> ('l, 'e, 's) run_state \<Rightarrow> bool" where
  "lock_inv rank seen c \<longleftrightarrow>
     counted (fst c) (held (snd c)) \<and> (\<forall>k\<in>set (snd c). in_order rank seen k)"

lemma lock_inv_move:
  assumes "lock_inv rank seen (s, ts)" and "sys_move acquire release seen (s, ts) (s', ts')"
  shows "lock_inv rank seen (s', ts')"
  using assms(2)
proof cases
  case (sys_thread t k')
  obtain r where r: "held ts = r + holds_of t (ts ! t)" "\<And>k. held (ts[t := k]) = r + holds_of t k"
    by (rule held_update [OF sys_thread(2)]) (rule that)
  have cnt: "counted s (r + holds_of t (ts ! t))" and ord: "in_order rank seen (ts ! t)"
    and rest: "\<forall>k\<in>set ts. in_order rank seen k"
    using assms(1) sys_thread(2) r(1) by (simp_all add: lock_inv_def)
  have "counted s' (r + holds_of t k') \<and> in_order rank seen k'"
    using sys_thread(3)
  proof cases
    case (mv_enter m l body k2)
    have "(l, m', t) \<notin># held ts" for m'
    proof
      assume "(l, m', t) \<in># held ts"
      then obtain u where u: "u < length ts" "(l, m', t) \<in># holds_of u (ts ! u)" by (auto simp: in_held)
      then have "u = t" "rank l \<le> innermost rank (ts ! u)"
        using held_below_innermost [of rank seen "ts ! u" l m' t u] rest by auto
      with ord mv_enter(1) show False by simp
    qed
    then show ?thesis
      using entered [OF cnt, of l t m s'] ord mv_enter by (simp add: r(1))
  next
    case (mv_leave m l)
    then show ?thesis using left [of s l m t "r + holds_of t k'"] cnt ord by simp
  next
    case (mv_look e f k2)
    then show ?thesis using cnt ord by auto
  qed
  then show ?thesis
    using sys_thread(1) rest r(2) by (auto simp: lock_inv_def dest!: subsetD [OF set_update_subset_insert])
qed

lemma lock_inv_step:
  assumes "lock_inv rank seen (s, ts)" and "sys_step acquire release seen (s, ts) (s', ts')"
  shows "lock_inv rank seen (s', ts')"
  using assms(2)
proof cases
  case step_move
  then show ?thesis by (rule lock_inv_move [OF assms(1)])
next
  case (step_throw t k')
  obtain r where r: "held ts = r + holds_of t (ts ! t)" "\<And>k. held (ts[t := k]) = r + holds_of t k"
    by (rule held_update [OF step_throw(2)]) (rule that)
  have ord: "in_order rank seen (ts ! t)" using assms(1) step_throw(2) by (simp add: lock_inv_def)
  have "s' = s \<and> holds_of t k' = holds_of t (ts ! t) \<and> in_order rank seen k'"
    using step_throw(3)
  proof cases
    case (throw p k1 k2)
    then show ?thesis using ord by (simp add: in_order_unwind)
  qed
  then show ?thesis
    using assms(1) step_throw(1) r
    by (auto simp: lock_inv_def dest!: subsetD [OF set_update_subset_insert])
qed

lemma lock_inv_reach:
  assumes "sys_reach acquire release seen c0 c" and "lock_inv rank seen c0"
  shows "lock_inv rank seen c"
  using assms
proof (induction rule: sys_reach.induct)
  case (reach_step c c')
  then show ?case using lock_inv_step [of rank seen "fst c" "snd c" "fst c'" "snd c'"] by simp
qed

text \<open>
  A thread that is not finished and cannot move waits for a lock of a higher rank than those it holds,
  and another thread, which is not finished either, holds that lock.
\<close>

definition waits_for :: "('l, 'e, 's) run_state \<Rightarrow> nat \<Rightarrow> 'l \<Rightarrow> bool" where
  "waits_for c t l \<longleftrightarrow>
     t < length (snd c) \<and> (\<exists>m body k. snd c ! t = Do (Guard m l body) # k \<and> acquire m t l (fst c) = None)"

lemma move_or_wait:
  assumes "t < length ts" and "ts ! t \<noteq> []" and "seen e"
  shows "(\<exists>c'. sys_move acquire release seen (s, ts) c') \<or> (\<exists>l. waits_for (s, ts) t l)"
proof (cases "ts ! t")
  case (Cons i k)
  have move: "\<exists>c'. sys_move acquire release seen (s, ts) c'" if "thread_move acquire release seen t (s, ts ! t) (s', k')" for s' k'
    using sys_thread [OF assms(1) that] by blast
  show ?thesis
  proof (cases i)
    case (Release m l)
    show ?thesis
      using move [of "release m t l s" k] mv_leave [of acquire release seen t s m l k] Cons Release by simp
  next
    case (Do p)
    show ?thesis
    proof (cases p)
      case (Look f)
      show ?thesis
        using move [of s "map Do (f e) @ k"] mv_look [where seen = seen and e = e, OF assms(3), of acquire release t s f k] Cons Do Look by simp
    next
      case (Guard m l body)
      show ?thesis
      proof (cases "acquire m t l s")
        case None
        then show ?thesis using Cons Do Guard assms(1) by (auto simp: waits_for_def)
      next
        case (Some s')
        show ?thesis
          using move [of s' "map Do body @ Release m l # k"] mv_enter [where acquire = acquire, OF Some, of release seen body k] Cons Do Guard
          by simp
      qed
    qed
  qed
qed (use assms(2) in simp)

lemma waits_for_higher:
  assumes inv: "lock_inv rank seen (s, ts)" and wait: "waits_for (s, ts) t l" and "seen e"
    and stuck: "\<not> (\<exists>c'. sys_move acquire release seen (s, ts) c')"
  shows "\<exists>u l'. waits_for (s, ts) u l' \<and> rank l < rank l'"
proof -
  have "\<exists>m' u. (l, m', u) \<in># held ts"
    using blocked inv wait by (fastforce simp: waits_for_def lock_inv_def)
  then obtain m' u v where u: "u < length ts" "(l, m', v) \<in># holds_of u (ts ! u)" by (auto simp: in_held)
  have ord: "in_order rank seen (ts ! u)" using inv u(1) by (simp add: lock_inv_def)
  have "rank l \<le> innermost rank (ts ! u)" using held_below_innermost [OF ord u(2)] by simp
  moreover have "ts ! u \<noteq> []" using u(2) by auto
  then obtain l' where l': "waits_for (s, ts) u l'" using move_or_wait [where seen = seen and e = e, OF u(1) _ assms(3)] stuck by blast
  ultimately show ?thesis using ord by (auto simp: waits_for_def)
qed

theorem no_deadlock:
  assumes inv: "lock_inv rank seen (s, ts)" and e: "seen e" and bound: "\<And>l. rank l \<le> n"
    and "\<exists>k\<in>set ts. k \<noteq> []"
  shows "\<exists>c'. sys_move acquire release seen (s, ts) c'"
proof (rule ccontr)
  assume stuck: "\<not> ?thesis"
  obtain t where "t < length ts" "ts ! t \<noteq> []" using assms(4) by (auto simp: in_set_conv_nth)
  then have ex: "\<exists>t l. waits_for (s, ts) t l" using move_or_wait [where seen = seen and e = e, OF _ _ e] stuck by blast
  have "\<exists>t l. waits_for (s, ts) t l \<and> i \<le> rank l" for i
  proof (induction i)
    case (Suc i)
    then show ?case using waits_for_higher [where seen = seen and e = e, OF inv _ e stuck] by (meson Suc_leI le_less_trans)
  qed (use ex in blast)
  from this [of "Suc n"] bound show False by (meson Suc_n_not_le_n order_trans)
qed

lemma finished_free:
  assumes "lock_inv rank seen (s, ts)" and "\<forall>k\<in>set ts. k = []"
  shows "counted s {#}"
proof -
  have "held ts = {#}" using assms(2) by (auto simp: held_def all_set_conv_all_nth intro!: sum.neutral)
  then show ?thesis using assms(1) by (simp add: lock_inv_def)
qed

end

section \<open>The locks of the code\<close>

text \<open>
  A table of mutexes and one of read-write locks, by the same names. A guard is an object of \<open>ScopedLockImpl\<close>,
  \<open>ReadScopedLockImpl\<close> or \<open>WriteScopedLockImpl\<close>.
\<close>

record 'l locks =
  lk_mutex :: "'l \<Rightarrow> pthread_mutex"
  lk_rwlock :: "'l \<Rightarrow> rwlock"

definition locks_ctor :: "'l locks" where
  "locks_ctor = \<lparr>lk_mutex = (\<lambda>l. Mutex_ctor), lk_rwlock = (\<lambda>l. RWMutex_ctor)\<rparr>"

definition take_rw :: "'l \<Rightarrow> (rwlock \<times> bool) option \<Rightarrow> 'l locks \<Rightarrow> 'l locks option" where
  "take_rw l r s = map_option (\<lambda>(m, locked). s\<lparr>lk_rwlock := (lk_rwlock s)(l := m)\<rparr>) r"

fun guard_ctor :: "('l, 'l locks) acquire" where
  "guard_ctor In_Lock t l s =
     map_option (\<lambda>(m, locked). s\<lparr>lk_mutex := (lk_mutex s)(l := m)\<rparr>) (ScopedLockImpl_ctor Mutex_ops t (lk_mutex s l))"
| "guard_ctor In_ReadLock t l s = take_rw l (ReadScopedLockImpl_ctor RWMutex_ops t (lk_rwlock s l)) s"
| "guard_ctor In_WriteLock t l s = take_rw l (WriteScopedLockImpl_ctor RWMutex_ops t (lk_rwlock s l)) s"

fun guard_dtor :: "('l, 'l locks) release" where
  "guard_dtor In_Lock t l s =
     s\<lparr>lk_mutex := (lk_mutex s)(l := ScopedLockImpl_dtor Mutex_ops t (lk_mutex s l, True))\<rparr>"
| "guard_dtor In_ReadLock t l s =
     s\<lparr>lk_rwlock := (lk_rwlock s)(l := ReadScopedLockImpl_dtor RWMutex_ops t (lk_rwlock s l, True))\<rparr>"
| "guard_dtor In_WriteLock t l s =
     s\<lparr>lk_rwlock := (lk_rwlock s)(l := WriteScopedLockImpl_dtor RWMutex_ops t (lk_rwlock s l, True))\<rparr>"

text \<open>The table that a number of guards has left.\<close>

definition guards_on :: "lock_mode \<Rightarrow> 'l \<Rightarrow> ('l \<times> lock_mode \<times> nat) multiset \<Rightarrow> nat multiset" where
  "guards_on m l H = image_mset (\<lambda>(l', m', t). t) {#g \<in># H. fst g = l \<and> fst (snd g) = m#}"

definition owner_mset :: "nat option \<Rightarrow> nat multiset" where
  "owner_mset t = (case t of None \<Rightarrow> {#} | Some t \<Rightarrow> {#t#})"

definition counts :: "'l locks \<Rightarrow> ('l \<times> lock_mode \<times> nat) multiset \<Rightarrow> bool" where
  "counts s H \<longleftrightarrow>
     (\<forall>l. guards_on In_Lock l H = owner_mset (lk_mutex s l) \<and>
          guards_on In_WriteLock l H = owner_mset (rw_writer (lk_rwlock s l)) \<and>
          size (guards_on In_ReadLock l H) = rw_readers (lk_rwlock s l) \<and>
          (rw_writer (lk_rwlock s l) \<noteq> None \<longrightarrow> rw_readers (lk_rwlock s l) = 0))"

lemma guards_on_add [simp]:
  "guards_on m l (add_mset (l', m', t) H) =
     (if l' = l \<and> m' = m then add_mset t (guards_on m l H) else guards_on m l H)"
  by (simp add: guards_on_def)

lemma guards_on_empty [simp]: "guards_on m l {#} = {#}"
  by (simp add: guards_on_def)

lemma in_guards_on [simp]: "t \<in># guards_on m l H \<longleftrightarrow> (l, m, t) \<in># H"
  by (force simp: guards_on_def)

lemma owner_mset_simps [simp]:
  "owner_mset None = {#}" "owner_mset (Some t) = {#t#}" "owner_mset w = {#} \<longleftrightarrow> w = None"
  "{#} = owner_mset w \<longleftrightarrow> w = None" "add_mset u X = owner_mset w \<longleftrightarrow> w = Some u \<and> X = {#}"
  "u \<in># owner_mset w \<longleftrightarrow> w = Some u"
  by (auto simp: owner_mset_def split: option.split)

lemma countsD:
  assumes "counts s H"
  shows "guards_on In_Lock l H = owner_mset (lk_mutex s l)"
    and "guards_on In_WriteLock l H = owner_mset (rw_writer (lk_rwlock s l))"
    and "size (guards_on In_ReadLock l H) = rw_readers (lk_rwlock s l)"
    and "rw_writer (lk_rwlock s l) \<noteq> None \<Longrightarrow> rw_readers (lk_rwlock s l) = 0"
  using assms by (simp_all add: counts_def)

lemma guards_on_none: "guards_on m l H = {#} \<longleftrightarrow> (\<forall>t. (l, m, t) \<notin># H)"
  by (metis in_guards_on multiset_nonemptyE set_mset_empty empty_iff)

lemmas guard_defs = rw_scoped_lock_defs scoped_lock_defs Mutex_ops_def RWMutex_ops_def take_rw_def

lemma guard_ctor_blocked:
  assumes "counts s H" and "guard_ctor m t l s = None"
  shows "\<exists>m' u. (l, m', u) \<in># H"
proof (rule ccontr)
  assume "\<not> ?thesis"
  then have "guards_on m' l H = {#}" for m' by (simp add: guards_on_none)
  then have "lk_mutex s l = None" "rw_writer (lk_rwlock s l) = None" "rw_readers (lk_rwlock s l) = 0"
    using countsD [OF assms(1), of l] by simp_all
  then show False
    using assms(2) by (cases m) (simp_all add: guard_defs Mutex_lock_def RWMutex_rdlock_def RWMutex_wrlock_def)
qed

lemma guard_ctor_entered:
  assumes "counts s H" and "\<And>m'. (l, m', t) \<notin># H" and "guard_ctor m t l s = Some s'"
  shows "counts s' (add_mset (l, m, t) H)"
proof -
  have "t \<notin># guards_on In_WriteLock l H" using assms(2) by simp
  then have "rw_writer (lk_rwlock s l) \<noteq> Some t" unfolding countsD(2) [OF assms(1)] by simp
  then show ?thesis
    using assms(1,3)
    by (cases m) (auto simp: counts_def guard_defs Mutex_lock_def RWMutex_rdlock_def RWMutex_wrlock_def
        split: option.splits if_splits)
qed

lemma guard_dtor_left:
  assumes "counts s (add_mset (l, m, t) H)"
  shows "counts (guard_dtor m t l s) H"
  using assms countsD [OF assms, of l]
  by (cases m) (auto simp: counts_def guard_defs Mutex_unlock_def RWMutex_unlock_def split: if_splits)

lemma counts_one_owner: "counts s H \<Longrightarrow> (l, In_Lock, t) \<in># H \<Longrightarrow> (l, In_Lock, u) \<in># H \<Longrightarrow> t = u"
  using in_guards_on [of t In_Lock l H] in_guards_on [of u In_Lock l H] by (simp add: countsD(1))

interpretation code_locks: lock_table guard_ctor guard_dtor counts
  by unfold_locales (rule guard_ctor_blocked, assumption+, rule guard_ctor_entered, assumption+, rule guard_dtor_left)

lemma counts_ctor: "counts locks_ctor {#}"
  by (simp add: counts_def locks_ctor_def Mutex_ctor_def RWMutex_ctor_def)

lemma counts_free: "counts s {#} \<longleftrightarrow> s = locks_ctor"
  by (auto simp: counts_def locks_ctor_def Mutex_ctor_def RWMutex_ctor_def fun_eq_iff intro!: locks.equality rwlock.equality)

end
