(* ===== verification/Lock_Programs.thy ===== *)
theory Lock_Programs
  imports Lock_Order Log_Config Config
begin

text \<open>
  The locks that the operations of logging and configuration take, as programs of \<open>Lock_Order\<close>: each
  operation of \<open>src/log.cpp\<close>, \<open>src/config.h\<close> and \<open>src/config.cpp\<close> with its guards, their scopes and the branches
  between them. The data are read when the code reads them, and can have changed since the last time.
\<close>

section \<open>Locks and shared data\<close>

text \<open>
  Every \<open>Logger\<close> and \<open>LogAppender\<close> has a mutex, and so has the \<open>LoggerManager\<close>; every \<open>ConfigVar\<close> has a
  read-write lock, and the registry of \<open>Config\<close> another one.
\<close>

datatype lock_id = Registry_Lock | Var_Lock nat | Manager_Lock | Logger_Lock nat | Appender_Lock nat

text \<open>
  What a thread may find when it looks: the store of loggers and appenders, the map of the registry and
  the types of the variables, the callbacks of each variable, the two values that a callback of \<open>logs\<close> compares, and
  the outcome of a condition on anything else. A callback of the program's own makes logging calls.
\<close>

datatype log_use = Store_Call log_call | Export_Logger nat | Export_All

datatype change_cb = On_Conf_Changed | User_Cb "log_use list"

record view =
  view_log :: log_world
  view_datas :: "(string, nat) smap"
  view_type :: "nat \<Rightarrow> string"
  view_cbs :: "nat \<Rightarrow> change_cb list"
  view_defines :: "log_define list \<times> log_define list"
  view_branch :: bool

type_synonym locking = "(lock_id, view) prog list"

section \<open>Appenders\<close>

definition LogAppender_getFormatter_locks :: "nat \<Rightarrow> locking" where
  "LogAppender_getFormatter_locks p = [Guard In_Lock (Appender_Lock p) []]"

definition LogAppender_setFormatter_locks :: "nat \<Rightarrow> locking" where
  "LogAppender_setFormatter_locks p = [Guard In_Lock (Appender_Lock p) []]"

definition StdoutLogAppender_log_locks :: "nat \<Rightarrow> appender \<Rightarrow> level \<Rightarrow> locking" where
  "StdoutLogAppender_log_locks p ap lv = (if lv \<ge> ap_level ap then [Guard In_Lock (Appender_Lock p) []] else [])"

definition FileLogAppender_reopen_locks :: "nat \<Rightarrow> locking" where
  "FileLogAppender_reopen_locks p = [Guard In_Lock (Appender_Lock p) []]"

text \<open>\<open>m_last_time\<close> is read before the guard, and \<open>reopen\<close> has a guard of its own.\<close>

definition FileLogAppender_log_locks :: "nat \<Rightarrow> appender \<Rightarrow> 64 word \<Rightarrow> 64 word \<Rightarrow> level \<Rightarrow> locking" where
  "FileLogAppender_log_locks p ap last_time now lv =
     (if lv \<ge> ap_level ap
      then (if now \<noteq> last_time then FileLogAppender_reopen_locks p else []) @ [Guard In_Lock (Appender_Lock p) []]
      else [])"

definition LogAppender_log_locks :: "level \<Rightarrow> nat \<Rightarrow> locking" where
  "LogAppender_log_locks lv p =
     [Look (\<lambda>v. case lw_appenders (view_log v) p of
                  None \<Rightarrow> []
                | Some ap \<Rightarrow>
                    (case ap_sink ap of
                       Stdout_Sink \<Rightarrow> StdoutLogAppender_log_locks p ap lv
                     | File_Sink name f t \<Rightarrow> FileLogAppender_log_locks p ap t (lw_now (view_log v)) lv))]"

definition LogAppender_toYamlString_locks :: "nat \<Rightarrow> locking" where
  "LogAppender_toYamlString_locks p = [Guard In_Lock (Appender_Lock p) []]"

section \<open>Loggers\<close>

text \<open>The body of a block over the logger at \<open>a\<close>.\<close>

definition with_logger :: "nat \<Rightarrow> (logger \<Rightarrow> locking) \<Rightarrow> locking" where
  "with_logger a f = [Look (\<lambda>v. case lw_loggers (view_log v) a of None \<Rightarrow> [] | Some l \<Rightarrow> f l)]"

text \<open>
  The level is read before the guard, the appenders are read under it. The fuel bounds the chain of \<open>m_root\<close>
  pointers as in \<open>Logger_log\<close>; the program that runs out of it locks its own mutex twice, so that no result below
  holds for too little fuel.
\<close>

fun Logger_log_locks :: "nat \<Rightarrow> level \<Rightarrow> nat \<Rightarrow> locking" where
  "Logger_log_locks 0 lv a = [Guard In_Lock (Logger_Lock a) [Guard In_Lock (Logger_Lock a) []]]"
| "Logger_log_locks (Suc k) lv a =
     with_logger a (\<lambda>l.
       if lv \<ge> lg_level l
       then [Guard In_Lock (Logger_Lock a)
              (with_logger a (\<lambda>l.
                 if lg_appenders l \<noteq> [] then concat (map (LogAppender_log_locks lv) (lg_appenders l))
                 else (case lg_root l of
                         Some r \<Rightarrow> Logger_log_locks k lv r
                       | None \<Rightarrow> [])))]
       else [])"

definition Logger_addAppender_locks :: "nat \<Rightarrow> nat \<Rightarrow> locking" where
  "Logger_addAppender_locks a p =
     [Guard In_Lock (Logger_Lock a)
        (LogAppender_getFormatter_locks p @
         [Look (\<lambda>v. case lw_appenders (view_log v) p of
                      None \<Rightarrow> []
                    | Some ap \<Rightarrow> if ap_formatter ap = None then [Guard In_Lock (Appender_Lock p) []] else [])])]"

definition Logger_delAppender_locks :: "nat \<Rightarrow> locking" where
  "Logger_delAppender_locks a = [Guard In_Lock (Logger_Lock a) []]"

definition Logger_clearAppenders_locks :: "nat \<Rightarrow> locking" where
  "Logger_clearAppenders_locks a = [Guard In_Lock (Logger_Lock a) []]"

definition Logger_setFormatter_locks :: "nat \<Rightarrow> locking" where
  "Logger_setFormatter_locks a =
     [Guard In_Lock (Logger_Lock a)
        (with_logger a (\<lambda>l. map (\<lambda>p. Guard In_Lock (Appender_Lock p) []) (lg_appenders l)))]"

definition Logger_setFormatter_pattern_locks :: "nat \<Rightarrow> string \<Rightarrow> locking" where
  "Logger_setFormatter_pattern_locks a pattern =
     (if fm_error (LogFormatter_ctor pattern) then [] else Logger_setFormatter_locks a)"

definition Logger_toYamlString_locks :: "nat \<Rightarrow> locking" where
  "Logger_toYamlString_locks a =
     [Guard In_Lock (Logger_Lock a)
        (with_logger a (\<lambda>l. concat (map LogAppender_toYamlString_locks (lg_appenders l))))]"

section \<open>The manager and the logging macros\<close>

definition LoggerManager_getLogger_locks :: locking where
  "LoggerManager_getLogger_locks = [Guard In_Lock Manager_Lock []]"

definition LoggerManager_toYamlString_locks :: locking where
  "LoggerManager_toYamlString_locks =
     [Guard In_Lock Manager_Lock
        [Look (\<lambda>v. concat (map (\<lambda>(name, logger). Logger_toYamlString_locks logger) (lw_loggers_map (view_log v))))]]"

text \<open>\<open>content\<close> is what evaluating the streamed expressions locks.\<close>

definition SYLAR_LOG_LEVEL_locks :: "nat \<Rightarrow> level \<Rightarrow> locking \<Rightarrow> locking" where
  "SYLAR_LOG_LEVEL_locks a lv content =
     with_logger a (\<lambda>l. if lg_level l \<le> lv then content @ Logger_log_locks 2 lv a else [])"

definition log_to_root_locks :: "level \<Rightarrow> locking \<Rightarrow> locking" where
  "log_to_root_locks lv content = [Look (\<lambda>v. SYLAR_LOG_LEVEL_locks (SYLAR_LOG_ROOT (view_log v)) lv content)]"

text \<open>The calls of the logging interface; a \<open>FileLogAppender\<close> opens its file when it is made.\<close>

fun log_call_locks :: "log_call \<Rightarrow> locking" where
  "log_call_locks (Call_setLevel a lv) = []"
| "log_call_locks (Call_addAppender a p) = Logger_addAppender_locks a p"
| "log_call_locks (Call_delAppender a p) = Logger_delAppender_locks a"
| "log_call_locks (Call_clearAppenders a) = Logger_clearAppenders_locks a"
| "log_call_locks (Call_setFormatter a fm) = Logger_setFormatter_locks a"
| "log_call_locks (Call_setFormatter_pattern a s) = Logger_setFormatter_pattern_locks a s"
| "log_call_locks (Call_ap_setFormatter p fm) = LogAppender_setFormatter_locks p"
| "log_call_locks (Call_ap_setLevel p lv) = []"
| "log_call_locks (Call_getLogger name) = LoggerManager_getLogger_locks"
| "log_call_locks (Call_new_Logger name) = []"
| "log_call_locks Call_new_Stdout = []"
| "log_call_locks (Call_new_File junk name) =
     [Look (\<lambda>v. FileLogAppender_reopen_locks (lw_next_appender (view_log v)))]"
| "log_call_locks (Call_reopen p) = FileLogAppender_reopen_locks p"
| "log_call_locks (Call_log st a lv s) = SYLAR_LOG_LEVEL_locks a lv []"
| "log_call_locks (Call_log_event a lv e) = Logger_log_locks 2 lv a"

fun log_use_locks :: "log_use \<Rightarrow> locking" where
  "log_use_locks (Store_Call c) = log_call_locks c"
| "log_use_locks (Export_Logger a) = Logger_toYamlString_locks a"
| "log_use_locks Export_All = LoggerManager_toYamlString_locks"

section \<open>The listener of the logs variable\<close>

definition make_appender_locks :: "nat \<Rightarrow> log_appender_define \<Rightarrow> locking" where
  "make_appender_locks p ad = (if ad_type ad = 1 then FileLogAppender_reopen_locks p else [])"

definition configure_appender_locks :: "nat \<Rightarrow> log_appender_define \<Rightarrow> locking" where
  "configure_appender_locks p ad =
     (if ad_formatter ad \<noteq> [] \<and> \<not> fm_error (LogFormatter_ctor (ad_formatter ad))
      then LogAppender_setFormatter_locks p else [])"

definition add_appender_define_locks :: "nat \<Rightarrow> log_appender_define \<Rightarrow> locking" where
  "add_appender_define_locks logger ad =
     [Look (\<lambda>v. let p = lw_next_appender (view_log v) in
        make_appender_locks p ad @ configure_appender_locks p ad @ Logger_addAppender_locks logger p)]"

text \<open>\<open>SYLAR_LOG_NAME(name)\<close>, and what is done with the logger it gives.\<close>

definition with_named_logger :: "string \<Rightarrow> (nat \<Rightarrow> locking) \<Rightarrow> locking" where
  "with_named_logger name f =
     LoggerManager_getLogger_locks @ [Look (\<lambda>v. f (fst (SYLAR_LOG_NAME name (view_log v))))]"

definition apply_define_locks :: "log_define \<Rightarrow> locking" where
  "apply_define_locks d =
     with_named_logger (ld_name d) (\<lambda>logger.
       (if ld_formatter d \<noteq> [] then Logger_setFormatter_pattern_locks logger (ld_formatter d) else []) @
       Logger_clearAppenders_locks logger @
       concat (map (add_appender_define_locks logger) (ld_appenders d)))"

definition on_define_locks :: "log_define list \<Rightarrow> log_define \<Rightarrow> locking" where
  "on_define_locks old d =
     (case set_find d old of
        None \<Rightarrow> apply_define_locks d
      | Some e \<Rightarrow> if \<not> LogDefine_eq d e then apply_define_locks d else [])"

definition on_deleted_locks :: "log_define list \<Rightarrow> log_define \<Rightarrow> locking" where
  "on_deleted_locks new d =
     (case set_find d new of
        None \<Rightarrow> with_named_logger (ld_name d) Logger_clearAppenders_locks
      | Some e \<Rightarrow> [])"

definition LogIniter_listener_locks :: "log_define list \<Rightarrow> log_define list \<Rightarrow> locking" where
  "LogIniter_listener_locks old new =
     log_to_root_locks INFO [] @
     concat (map (on_define_locks old) new) @ concat (map (on_deleted_locks new) old)"

fun change_cb_locks :: "view \<Rightarrow> change_cb \<Rightarrow> locking" where
  "change_cb_locks v On_Conf_Changed = LogIniter_listener_locks (fst (view_defines v)) (snd (view_defines v))"
| "change_cb_locks v (User_Cb us) = concat (map log_use_locks us)"

section \<open>Configuration variables\<close>

definition ConfigVar_getValue_locks :: "nat \<Rightarrow> locking" where
  "ConfigVar_getValue_locks x = [Guard In_ReadLock (Var_Lock x) []]"

text \<open>\<open>view_branch\<close> is whether an exception has been caught.\<close>

definition ConfigVar_toString_locks :: "nat \<Rightarrow> locking" where
  "ConfigVar_toString_locks x =
     [Guard In_ReadLock (Var_Lock x) [],
      Look (\<lambda>v. if view_branch v then log_to_root_locks ERROR [] else [])]"

text \<open>
  The callbacks run under the read lock, unless the value is the old one. The second \<open>view_branch\<close> is whether
  the function has returned from the first block; it need not agree with the first, which allows more runs
  than the code has.
\<close>

definition setValue_with :: "(view \<Rightarrow> locking) \<Rightarrow> nat \<Rightarrow> locking" where
  "setValue_with callbacks x =
     [Guard In_ReadLock (Var_Lock x) [Look (\<lambda>v. if view_branch v then [] else callbacks v)],
      Look (\<lambda>v. if view_branch v then [] else [Guard In_WriteLock (Var_Lock x) []])]"

definition ConfigVar_setValue_locks :: "nat \<Rightarrow> locking" where
  "ConfigVar_setValue_locks x = setValue_with (\<lambda>v. concat (map (change_cb_locks v) (view_cbs v x))) x"

definition ConfigVar_fromString_locks :: "nat \<Rightarrow> locking" where
  "ConfigVar_fromString_locks x =
     ConfigVar_setValue_locks x @ [Look (\<lambda>v. if view_branch v then log_to_root_locks ERROR [] else [])]"

definition ConfigVar_addListener_locks :: "nat \<Rightarrow> locking" where
  "ConfigVar_addListener_locks x = [Guard In_WriteLock (Var_Lock x) []]"

definition ConfigVar_delListener_locks :: "nat \<Rightarrow> locking" where
  "ConfigVar_delListener_locks x = [Guard In_WriteLock (Var_Lock x) []]"

definition ConfigVar_getListener_locks :: "nat \<Rightarrow> locking" where
  "ConfigVar_getListener_locks x = [Guard In_ReadLock (Var_Lock x) []]"

definition ConfigVar_clearListener_locks :: "nat \<Rightarrow> locking" where
  "ConfigVar_clearListener_locks x = [Guard In_WriteLock (Var_Lock x) []]"

datatype var_use =
    Get_Value | To_String | From_String | Set_Value
  | Add_Callback | Del_Callback | Get_Callback | Clear_Callbacks

fun var_use_locks :: "nat \<Rightarrow> var_use \<Rightarrow> locking" where
  "var_use_locks x Get_Value = ConfigVar_getValue_locks x"
| "var_use_locks x To_String = ConfigVar_toString_locks x"
| "var_use_locks x From_String = ConfigVar_fromString_locks x"
| "var_use_locks x Set_Value = ConfigVar_setValue_locks x"
| "var_use_locks x Add_Callback = ConfigVar_addListener_locks x"
| "var_use_locks x Del_Callback = ConfigVar_delListener_locks x"
| "var_use_locks x Get_Callback = ConfigVar_getListener_locks x"
| "var_use_locks x Clear_Callbacks = ConfigVar_clearListener_locks x"

section \<open>The registry\<close>

text \<open>The variable of another type is printed into the message, under the lock of the registry.\<close>

definition Config_Lookup_locks :: "string \<Rightarrow> string \<Rightarrow> locking" where
  "Config_Lookup_locks type_name name =
     [Guard In_WriteLock Registry_Lock
        [Look (\<lambda>v. case smap_find name (view_datas v) of
                     Some x \<Rightarrow>
                       if view_type v x = type_name then log_to_root_locks INFO []
                       else log_to_root_locks ERROR (ConfigVar_toString_locks x)
                   | None \<Rightarrow> if has_char_not_of name_chars name then log_to_root_locks ERROR [] else [])]]"

definition Config_Lookup_existing_locks :: locking where
  "Config_Lookup_existing_locks = [Guard In_ReadLock Registry_Lock []]"

text \<open>
  \<open>LoadFromYaml\<close> takes no lock itself: \<open>ListAllMember\<close> logs each invalid name, \<open>LookupBase\<close> reads the map without
  the lock of the registry. \<open>invalid\<close> counts the invalid names, \<open>keys\<close> are the names that are looked up.
\<close>

definition Config_LoadFromYaml_locks :: "nat \<Rightarrow> string list \<Rightarrow> locking" where
  "Config_LoadFromYaml_locks invalid keys =
     concat (replicate invalid (log_to_root_locks ERROR [])) @
     concat (map (\<lambda>key. [Look (\<lambda>v. case smap_find key (view_datas v) of
                                     None \<Rightarrow> []
                                   | Some x \<Rightarrow> ConfigVar_fromString_locks x)]) keys)"

text \<open>The callback of \<open>Visit\<close> logs and uses variables.\<close>

datatype visit_use = Visit_Log log_use | Visit_Var nat var_use

fun visit_use_locks :: "visit_use \<Rightarrow> locking" where
  "visit_use_locks (Visit_Log u) = log_use_locks u"
| "visit_use_locks (Visit_Var x u) = var_use_locks x u"

definition Config_Visit_locks :: "(nat \<Rightarrow> visit_use list) \<Rightarrow> locking" where
  "Config_Visit_locks cb =
     [Guard In_ReadLock Registry_Lock
        [Look (\<lambda>v. concat (map (\<lambda>(name, x). concat (map visit_use_locks (cb x))) (view_datas v)))]]"

text \<open>What a thread of the program may call.\<close>

datatype client_call =
    Plain_Use visit_use
  | Lookup_Or_Create string string
  | Lookup_Existing
  | Load_From_Yaml nat "string list"
  | Visit_All "nat \<Rightarrow> visit_use list"

fun client_locks :: "client_call \<Rightarrow> locking" where
  "client_locks (Plain_Use u) = visit_use_locks u"
| "client_locks (Lookup_Or_Create type_name name) = Config_Lookup_locks type_name name"
| "client_locks Lookup_Existing = Config_Lookup_existing_locks"
| "client_locks (Load_From_Yaml invalid keys) = Config_LoadFromYaml_locks invalid keys"
| "client_locks (Visit_All cb) = Config_Visit_locks cb"

definition thread_program :: "client_call list \<Rightarrow> (lock_id, view) instr list" where
  "thread_program cs = map Do (concat (map client_locks cs))"

section \<open>The order of the locks\<close>

text \<open>
  The order is: the registry, a variable, the manager, a logger other than the root, the root logger, an
  appender. The store a thread sees is well-formed and its root logger is \<open>root\<close>.
\<close>

fun lock_rank :: "nat \<Rightarrow> lock_id \<Rightarrow> nat" where
  "lock_rank root Registry_Lock = 1"
| "lock_rank root (Var_Lock x) = 2"
| "lock_rank root Manager_Lock = 3"
| "lock_rank root (Logger_Lock a) = (if a = root then 5 else 4)"
| "lock_rank root (Appender_Lock p) = 6"

lemma lock_rank_bound: "lock_rank root l \<le> 6"
  by (cases l) simp_all

definition good_view :: "nat \<Rightarrow> view \<Rightarrow> bool" where
  "good_view root v \<longleftrightarrow> log_shape (view_log v) \<and> lw_root (view_log v) = root"

definition orderly :: "nat \<Rightarrow> nat \<Rightarrow> locking \<Rightarrow> bool" where
  "orderly root r ps \<longleftrightarrow> (\<forall>p\<in>set ps. ordered (lock_rank root) (good_view root) r p)"

lemma orderly_simps [simp]:
  "orderly root r []"
  "orderly root r (ps @ qs) \<longleftrightarrow> orderly root r ps \<and> orderly root r qs"
  "orderly root r (map g xs) \<longleftrightarrow> (\<forall>x\<in>set xs. orderly root r [g x])"
  "orderly root r (concat pss) \<longleftrightarrow> (\<forall>ps\<in>set pss. orderly root r ps)"
  "orderly root r (Guard m l b # ps) \<longleftrightarrow>
     r < lock_rank root l \<and> orderly root (lock_rank root l) b \<and> orderly root r ps"
  "orderly root r (Look f # ps) \<longleftrightarrow> (\<forall>v. good_view root v \<longrightarrow> orderly root r (f v)) \<and> orderly root r ps"
  by (auto simp: orderly_def)

lemma orderly_with_logger:
  "(\<And>v l. good_view root v \<Longrightarrow> lw_loggers (view_log v) a = Some l \<Longrightarrow> orderly root r (f l)) \<Longrightarrow>
   orderly root r (with_logger a f)"
  by (auto simp: with_logger_def split: option.split)

text \<open>Appenders are last in the order, so that their operations can be called under any other lock.\<close>

lemmas appender_locks_defs = LogAppender_getFormatter_locks_def LogAppender_setFormatter_locks_def
  StdoutLogAppender_log_locks_def FileLogAppender_reopen_locks_def FileLogAppender_log_locks_def
  LogAppender_toYamlString_locks_def

lemma appender_orderly:
  "r < 6 \<Longrightarrow> orderly root r (LogAppender_log_locks lv p)"
  by (auto simp: LogAppender_log_locks_def appender_locks_defs split: option.split sink.split)

text \<open>The root logger has no \<open>m_root\<close>, every other logger has none or the root logger.\<close>

lemma lg_root_Some:
  "good_view root v \<Longrightarrow> lw_loggers (view_log v) a = Some l \<Longrightarrow> lg_root l = Some r \<Longrightarrow> a \<noteq> root \<and> r = root"
  by (auto simp: good_view_def logger_inv_def dest: log_wfD_logger split: if_splits)

lemma log_body_orderly:
  assumes "good_view root v" and "lw_loggers (view_log v) a = Some l" and "r < 6"
    and "a \<noteq> root \<Longrightarrow> orderly root r (f root)"
  shows "orderly root r
     (if lg_appenders l \<noteq> [] then concat (map (LogAppender_log_locks lv) (lg_appenders l))
      else (case lg_root l of Some x \<Rightarrow> f x | None \<Rightarrow> []))"
proof (cases "lg_root l")
  case (Some x)
  then show ?thesis using lg_root_Some [OF assms(1,2)] assms(3,4) by (auto intro: appender_orderly)
qed (use assms(3) in \<open>auto intro: appender_orderly\<close>)

lemma log_orderly:
  assumes "r < lock_rank root (Logger_Lock a)"
    and "a \<noteq> root \<Longrightarrow> orderly root (lock_rank root (Logger_Lock a)) (Logger_log_locks k lv root)"
  shows "orderly root r (Logger_log_locks (Suc k) lv a)"
proof -
  have "orderly root (lock_rank root (Logger_Lock a))
     (with_logger a (\<lambda>l. if lg_appenders l \<noteq> [] then concat (map (LogAppender_log_locks lv) (lg_appenders l))
       else (case lg_root l of Some x \<Rightarrow> Logger_log_locks k lv x | None \<Rightarrow> [])))"
    by (intro orderly_with_logger log_body_orderly assms(2)) auto
  then show ?thesis using assms(1) by (auto intro!: orderly_with_logger)
qed

lemma Logger_log_orderly: "r < 4 \<Longrightarrow> orderly root r (Logger_log_locks 2 lv a)"
  unfolding numeral_2_eq_2 by (rule log_orderly) (simp, rule log_orderly, simp_all del: Logger_log_locks.simps)

text \<open>The operations of loggers, of the manager and the macros, under the lock of the registry or a variable.\<close>

lemmas logger_locks_defs = Logger_addAppender_locks_def Logger_delAppender_locks_def
  Logger_clearAppenders_locks_def Logger_setFormatter_locks_def Logger_setFormatter_pattern_locks_def
  Logger_toYamlString_locks_def

lemma logger_ops_orderly:
  assumes "r < 4"
  shows "orderly root r (Logger_addAppender_locks a p)" "orderly root r (Logger_delAppender_locks a)"
    "orderly root r (Logger_clearAppenders_locks a)" "orderly root r (Logger_setFormatter_locks a)"
    "orderly root r (Logger_setFormatter_pattern_locks a s)" "orderly root r (Logger_toYamlString_locks a)"
  using assms
  by (auto simp: logger_locks_defs appender_locks_defs intro!: orderly_with_logger
      split: option.split)

lemma manager_ops_orderly:
  assumes "r < 3"
  shows "orderly root r LoggerManager_getLogger_locks" "orderly root r LoggerManager_toYamlString_locks"
  using assms
  by (auto simp: LoggerManager_getLogger_locks_def LoggerManager_toYamlString_locks_def intro!: logger_ops_orderly)

lemma log_macro_orderly:
  assumes "r < 3" and "orderly root r content"
  shows "orderly root r (SYLAR_LOG_LEVEL_locks a lv content)" "orderly root r (log_to_root_locks lv content)"
  using assms
  by (auto simp: SYLAR_LOG_LEVEL_locks_def log_to_root_locks_def intro!: orderly_with_logger Logger_log_orderly)

lemma log_use_orderly:
  assumes "r < 3"
  shows "orderly root r (log_use_locks u)"
proof (cases u)
  case (Store_Call c)
  then show ?thesis
    using assms by (cases c) (auto simp: appender_locks_defs intro!: logger_ops_orderly manager_ops_orderly log_macro_orderly Logger_log_orderly)
qed (use assms in \<open>auto intro!: logger_ops_orderly manager_ops_orderly\<close>)

lemma add_appender_define_orderly: "r < 3 \<Longrightarrow> orderly root r (add_appender_define_locks a ad)"
  by (auto simp: add_appender_define_locks_def make_appender_locks_def configure_appender_locks_def
      appender_locks_defs Let_def intro!: logger_ops_orderly)

lemma with_named_logger_orderly:
  "r < 3 \<Longrightarrow> (\<And>a. orderly root r (f a)) \<Longrightarrow> orderly root r (with_named_logger name f)"
  by (simp add: with_named_logger_def manager_ops_orderly)

lemma LogIniter_listener_orderly: "r < 3 \<Longrightarrow> orderly root r (LogIniter_listener_locks old new)"
  by (auto simp: LogIniter_listener_locks_def on_define_locks_def on_deleted_locks_def apply_define_locks_def
      intro!: with_named_logger_orderly log_macro_orderly logger_ops_orderly add_appender_define_orderly
      split: option.split)

lemma change_cb_orderly: "r < 3 \<Longrightarrow> orderly root r (change_cb_locks v cb)"
  by (cases cb) (auto intro!: LogIniter_listener_orderly log_use_orderly)

text \<open>Variables, under the lock of the registry at most, and the registry.\<close>

lemmas var_locks_defs = setValue_with_def ConfigVar_getValue_locks_def ConfigVar_toString_locks_def ConfigVar_setValue_locks_def
  ConfigVar_fromString_locks_def ConfigVar_addListener_locks_def ConfigVar_delListener_locks_def
  ConfigVar_getListener_locks_def ConfigVar_clearListener_locks_def

lemma var_use_orderly: "r < 2 \<Longrightarrow> orderly root r (var_use_locks x u)"
  by (cases u) (auto simp: var_locks_defs intro!: change_cb_orderly log_macro_orderly)

lemma visit_use_orderly: "r < 2 \<Longrightarrow> orderly root r (visit_use_locks u)"
  by (cases u) (auto intro!: var_use_orderly log_use_orderly)

lemma client_orderly: "orderly root 0 (client_locks c)"
proof (cases c)
  case (Lookup_Or_Create T name)
  have "orderly root 1 (ConfigVar_toString_locks x)" for x using var_use_orderly [of 1 root x To_String] by simp
  then show ?thesis
    using Lookup_Or_Create by (auto simp: Config_Lookup_locks_def intro!: log_macro_orderly split: option.split)
next
  case (Load_From_Yaml invalid keys)
  have "orderly root 0 (ConfigVar_fromString_locks x)" for x using var_use_orderly [of 0 root x From_String] by simp
  then show ?thesis
    using Load_From_Yaml
    by (auto simp: Config_LoadFromYaml_locks_def intro!: log_macro_orderly split: option.split)
qed (auto simp: Config_Lookup_existing_locks_def Config_Visit_locks_def intro!: visit_use_orderly)

lemma thread_in_order: "in_order (lock_rank root) (good_view root) (thread_program cs)"
proof -
  have "orderly root 0 (concat (map client_locks cs))" by (simp add: client_orderly)
  then show ?thesis
    using in_order_map_Do [of "lock_rank root" "good_view root" _ "[]"] by (simp add: thread_program_def orderly_def)
qed

section \<open>No deadlock\<close>

text \<open>C15: Any number of threads that log, configure loggers, export them, load configurations and use
  variables and the registry, in any interleaving, with any data they may find and with exceptions that
  leave scopes at any point, never block each other for good: some thread can go on as long as one has not
  finished; when all have, every mutex and read-write lock is free; and no run goes on for ever.\<close>

theorem threads_never_deadlock:
  assumes reach: "sys_reach guard_ctor guard_dtor (good_view root) (locks_ctor, map thread_program calls) c"
    and v: "good_view root v"
  shows "((\<exists>c'. sys_move guard_ctor guard_dtor (good_view root) c c') \<longleftrightarrow> (\<exists>k\<in>set (snd c). k \<noteq> [])) \<and>
         (fst c = locks_ctor \<or> (\<exists>k\<in>set (snd c). k \<noteq> [])) \<and>
         \<not> (\<exists>run. run 0 = c \<and> (\<forall>i. sys_step guard_ctor guard_dtor (good_view root) (run i) (run (Suc i))))"
proof -
  obtain s ts where c: "c = (s, ts)" by fastforce
  have "held (map thread_program calls) = {#}"
    by (auto simp: held_def thread_program_def intro!: sum.neutral) (metis append_Nil2 holds_of.simps(1) holds_of_map_Do)
  then have "code_locks.lock_inv (lock_rank root) (good_view root) (locks_ctor, map thread_program calls)"
    by (auto simp: code_locks.lock_inv_def counts_ctor thread_in_order)
  note inv = code_locks.lock_inv_reach [OF reach this, unfolded c]
  have "\<exists>c'. sys_move guard_ctor guard_dtor (good_view root) (s, ts) c'" if "\<exists>k\<in>set ts. k \<noteq> []"
    by (rule code_locks.no_deadlock [where seen = "good_view root" and e = v, OF inv v lock_rank_bound that])
  moreover have "s = locks_ctor" if "\<forall>k\<in>set ts. k = []"
    using code_locks.finished_free [OF inv that] by (simp add: counts_free)
  moreover have "\<exists>k\<in>set ts. k \<noteq> []" if "sys_move guard_ctor guard_dtor (good_view root) (s, ts) c'" for c'
    by (rule sys_move_unfinished [OF that])
  moreover have "\<not> (\<exists>run. run 0 = c \<and> (\<forall>i. sys_step guard_ctor guard_dtor (good_view root) (run i) (run (Suc i))))"
    using sys_steps_end [of guard_ctor guard_dtor "good_view root"] by blast
  ultimately show ?thesis unfolding c fst_conv snd_conv by blast
qed

text \<open>Thread 0 clears the appenders of logger 1 and holds its mutex; thread 1 waits for it.\<close>

definition demo_view :: view where
  "demo_view = \<lparr>view_log = demo_world_0, view_datas = [], view_type = (\<lambda>x. []), view_cbs = (\<lambda>x. []),
     view_defines = ([], []), view_branch = False\<rparr>"

lemma demo_view_good: "good_view 0 demo_view"
  by (simp add: good_view_def demo_view_def log_wf_shape [OF demo_world_0_wf]) (simp add: demo_world_0_def blank_world_def)

definition busy_locks :: "lock_id locks" where
  "busy_locks = locks_ctor\<lparr>lk_mutex := (\<lambda>l. Mutex_ctor)(Logger_Lock 1 := Some 0)\<rparr>"

lemma busy_reach:
  "sys_reach guard_ctor guard_dtor (good_view 0)
     (locks_ctor, map thread_program (replicate 2 [Plain_Use (Visit_Log (Store_Call (Call_clearAppenders 1)))]))
     (busy_locks, [[Release In_Lock (Logger_Lock 1)], [Do (Guard In_Lock (Logger_Lock 1) [])]])"
proof (rule reach_move [where t = 0, OF reach_start])
  show "thread_move guard_ctor guard_dtor (good_view 0) 0
     (locks_ctor, map thread_program (replicate 2 [Plain_Use (Visit_Log (Store_Call (Call_clearAppenders 1)))]) ! 0)
     (busy_locks, [Release In_Lock (Logger_Lock 1)])"
    using mv_enter [of guard_ctor In_Lock 0 "Logger_Lock 1" locks_ctor busy_locks guard_dtor "good_view 0" "[]" "[]"]
    by (simp add: numeral_2_eq_2 thread_program_def Logger_clearAppenders_locks_def guard_defs Mutex_lock_def
        locks_ctor_def busy_locks_def Mutex_ctor_def)
qed (simp_all add: numeral_2_eq_2 thread_program_def Logger_clearAppenders_locks_def)

theorem threads_never_deadlock_witness:
  "guard_ctor In_Lock 1 (Logger_Lock 1) busy_locks = None \<and>
   (\<exists>c'. sys_move guard_ctor guard_dtor (good_view 0)
      (busy_locks, [[Release In_Lock (Logger_Lock 1)], [Do (Guard In_Lock (Logger_Lock 1) [])]]) c')"
proof
  show "guard_ctor In_Lock 1 (Logger_Lock 1) busy_locks = None"
    by (simp add: busy_locks_def guard_defs Mutex_lock_def)
  show "\<exists>c'. sys_move guard_ctor guard_dtor (good_view 0)
      (busy_locks, [[Release In_Lock (Logger_Lock 1)], [Do (Guard In_Lock (Logger_Lock 1) [])]]) c'"
    using threads_never_deadlock [OF busy_reach demo_view_good] by simp
qed

text \<open>A callback that changes the callbacks or the value of the variable it is called for blocks for ever: it asks
  for the write lock while \<open>setValue\<close> holds the read lock for it.\<close>

theorem callback_on_own_variable_blocks:
  "\<exists>c. sys_reach guard_ctor guard_dtor (good_view 0)
         (locks_ctor, [map Do (setValue_with (\<lambda>v. ConfigVar_addListener_locks x) x)]) c \<and>
       snd c \<noteq> [[]] \<and> \<not> (\<exists>c'. sys_move guard_ctor guard_dtor (good_view 0) c c')"
proof -
  let ?tail = "[Do (Look (\<lambda>v. if view_branch v then [] else [Guard In_WriteLock (Var_Lock x) []]))]"
    and ?look = "Look (\<lambda>v. if view_branch v then [] else ConfigVar_addListener_locks x)"
  let ?s = "locks_ctor\<lparr>lk_rwlock := (\<lambda>l. RWMutex_ctor)(Var_Lock x := \<lparr>rw_readers = 1, rw_writer = None\<rparr>)\<rparr>"
  let ?stuck = "Do (Guard In_WriteLock (Var_Lock x) []) # Release In_ReadLock (Var_Lock x) # ?tail"
  let ?reach = "sys_reach guard_ctor guard_dtor (good_view 0)
         (locks_ctor, [map Do (setValue_with (\<lambda>v. ConfigVar_addListener_locks x) x)])"
  have "guard_ctor In_ReadLock 0 (Var_Lock x) locks_ctor = Some ?s"
    by (simp add: guard_defs RWMutex_rdlock_def locks_ctor_def RWMutex_ctor_def)
  then have "?reach (?s, [Do ?look # Release In_ReadLock (Var_Lock x) # ?tail])"
    by (intro reach_move [where t = 0, OF reach_start])
       (simp_all add: setValue_with_def mv_enter [of guard_ctor _ _ _ _ _ _ _ "[_]", simplified])
  moreover have "thread_move guard_ctor guard_dtor (good_view 0) 0
      (?s, Do ?look # Release In_ReadLock (Var_Lock x) # ?tail) (?s, ?stuck)"
    using mv_look [where seen = "good_view 0" and e = demo_view, OF demo_view_good, of guard_ctor guard_dtor 0 ?s
        "\<lambda>v. if view_branch v then [] else ConfigVar_addListener_locks x" "Release In_ReadLock (Var_Lock x) # ?tail"]
    by (simp add: demo_view_def ConfigVar_addListener_locks_def)
  ultimately have stuck: "?reach (?s, [?stuck])" using reach_move [where t = 0] by fastforce
  have "guard_ctor In_WriteLock 0 (Var_Lock x) ?s = None"
    by (simp add: guard_defs RWMutex_wrlock_def)
  then have "\<not> (\<exists>c'. sys_move guard_ctor guard_dtor (good_view 0) (?s, [?stuck]) c')"
    by (auto elim!: sys_move_thread simp: thread_move_blocked)
  with stuck show ?thesis by (intro exI [of _ "(?s, [?stuck])"]) simp
qed

end
