(* ===== verification/Log_Threads.thy ===== *)
theory Log_Threads
  imports Lock_Programs
begin

text \<open>
  Logging in many threads. \<open>Logger::log\<close> and the \<open>log\<close> functions of the appenders are split into statements with the
  guards around them; threads are interleaved statement by statement, and in the insertion of a line character by
  character, on the store of \<open>Log_Core\<close> and the locks of \<open>Lock_Order\<close>.
\<close>

section \<open>Statements\<close>

text \<open>
  \<open>Log_Call k a lv e\<close> is \<open>log(lv, e)\<close> on logger \<open>a\<close>, with the fuel of \<open>Logger_log\<close>; \<open>Dispatch\<close> is what it does
  under its guard. \<open>To_Appender\<close> is \<open>appender->log(lv, e)\<close>, \<open>Reopen\<close> and \<open>Write\<close> are the bodies of the guards it creates, and
  \<open>Set_Last_Time p now\<close> is \<open>m_last_time = now\<close>, which has no guard. \<open>Write\<close> formats the line; \<open>Put_Text p s\<close> is what is then
  still to be inserted into the stream of the appender \<open>p\<close>, one character at a time: nothing in the language
  protects an insertion from another one into the same destination.
\<close>

datatype log_stmt =
    Log_Call nat nat level log_event
  | Dispatch nat nat level log_event
  | To_Appender level log_event nat
  | Reopen nat
  | Set_Last_Time nat "64 word"
  | Write level log_event nat
  | Put_Text nat string

datatype log_instr =
    Run log_stmt
  | In_Guard lock_id "log_stmt list"
  | End_Guard lock_id

definition reopen_if_new_second :: "nat \<Rightarrow> 64 word \<Rightarrow> 64 word \<Rightarrow> log_instr list" where
  "reopen_if_new_second p last_time now =
     (if now \<noteq> last_time then [In_Guard (Appender_Lock p) [Reopen p], Run (Set_Last_Time p now)] else [])"

text \<open>\<open>FileLogAppender::log\<close>; \<open>StdoutLogAppender::log\<close> is the same without the reopening.\<close>

definition appender_log_stmts :: "64 word \<Rightarrow> level \<Rightarrow> log_event \<Rightarrow> nat \<Rightarrow> appender \<Rightarrow> log_instr list" where
  "appender_log_stmts now lv e p ap =
     (if lv \<ge> ap_level ap
      then (case ap_sink ap of
              Stdout_Sink \<Rightarrow> []
            | File_Sink name f t \<Rightarrow> reopen_if_new_second p t now) @
           [In_Guard (Appender_Lock p) [Write lv e p]]
      else [])"

definition set_last_time :: "64 word \<Rightarrow> appender \<Rightarrow> appender" where
  "set_last_time now ap =
     (case ap_sink ap of Stdout_Sink \<Rightarrow> ap | File_Sink name f t \<Rightarrow> ap\<lparr>ap_sink := File_Sink name f now\<rparr>)"

text \<open>A character goes to \<open>std::cout\<close> or into \<open>m_filestream\<close>.\<close>

definition put_char :: "nat \<Rightarrow> char \<Rightarrow> log_world \<Rightarrow> log_world result" where
  "put_char p x w =
     bind_r (deref_appender w p) (\<lambda>ap.
       case ap_sink ap of
         Stdout_Sink \<Rightarrow> Inr (write_cout [x] w)
       | File_Sink name f t \<Rightarrow>
           (case file_write name [x] f w of
              (f', w') \<Rightarrow> Inr (put_appender p (ap\<lparr>ap_sink := File_Sink name f' t\<rparr>) w')))"

text \<open>
  A statement goes on with other statements and guards; \<open>now\<close> is what \<open>time(0)\<close> returns when it is called.
\<close>

fun log_stmt_step :: "64 word \<Rightarrow> log_stmt \<Rightarrow> log_world \<Rightarrow> (log_instr list \<times> log_world) result" where
  "log_stmt_step now (Log_Call 0 a lv e) w = Inl No_Return"
| "log_stmt_step now (Log_Call (Suc k) a lv e) w =
     bind_r (deref_logger w a) (\<lambda>l.
       Inr (if lv \<ge> lg_level l then [In_Guard (Logger_Lock a) [Dispatch k a lv e]] else [], w))"
| "log_stmt_step now (Dispatch k a lv e) w =
     bind_r (deref_logger w a) (\<lambda>l.
       Inr (if lg_appenders l \<noteq> [] then map (\<lambda>p. Run (To_Appender lv e p)) (lg_appenders l)
            else (case lg_root l of
                    Some r \<Rightarrow> [Run (Log_Call k r lv e)]
                  | None \<Rightarrow> []), w))"
| "log_stmt_step now (To_Appender lv e p) w =
     bind_r (deref_appender w p) (\<lambda>ap. Inr (appender_log_stmts now lv e p ap, w))"
| "log_stmt_step now (Reopen p) w = bind_r (FileLogAppender_reopen p w) (\<lambda>(ok, w'). Inr ([], w'))"
| "log_stmt_step now (Set_Last_Time p t) w =
     bind_r (deref_appender w p) (\<lambda>ap. Inr ([], put_appender p (set_last_time t ap) w))"
| "log_stmt_step now (Write lv e p) w =
     bind_r (deref_appender w p) (\<lambda>ap.
       bind_r (deref_formatter (ap_formatter ap)) (\<lambda>fm.
         Inr ([Run (Put_Text p (LogFormatter_format (world_env w) fm lv e))], w)))"
| "log_stmt_step now (Put_Text p []) w = Inr ([], w)"
| "log_stmt_step now (Put_Text p (x # s)) w = bind_r (put_char p x w) (\<lambda>w'. Inr ([Run (Put_Text p s)], w'))"

section \<open>Threads\<close>

text \<open>One step of thread \<open>t\<close>; \<open>clock\<close> says what \<open>time(0)\<close> can return.\<close>

inductive log_thread_step ::
  "(64 word \<Rightarrow> bool) \<Rightarrow> nat \<Rightarrow> lock_id locks \<times> log_world \<times> log_instr list \<Rightarrow>
   lock_id locks \<times> log_world \<times> log_instr list \<Rightarrow> bool" for clock t where
  lt_enter: "guard_ctor In_Lock t l s = Some s' \<Longrightarrow>
     log_thread_step clock t (s, w, In_Guard l body # k) (s', w, map Run body @ End_Guard l # k)"
| lt_leave: "log_thread_step clock t (s, w, End_Guard l # k) (guard_dtor In_Lock t l s, w, k)"
| lt_stmt: "clock now \<Longrightarrow> log_stmt_step now c w = Inr (js, w') \<Longrightarrow>
     log_thread_step clock t (s, w, Run c # k) (s, w', js @ k)"

inductive_cases log_thread_stepE: "log_thread_step clock t (s, w, k) (s', w', k')"

type_synonym log_threads = "lock_id locks \<times> log_world \<times> log_instr list list"

inductive log_step :: "(64 word \<Rightarrow> bool) \<Rightarrow> log_threads \<Rightarrow> log_threads \<Rightarrow> bool" for clock where
  log_step_thread: "t < length ts \<Longrightarrow> log_thread_step clock t (s, w, ts ! t) (s', w', k') \<Longrightarrow>
     log_step clock (s, w, ts) (s', w', ts[t := k'])"

inductive_cases log_stepE: "log_step clock (s, w, ts) (s', w', ts')"

inductive log_run :: "(64 word \<Rightarrow> bool) \<Rightarrow> log_threads \<Rightarrow> log_threads \<Rightarrow> bool" for clock where
  log_run_refl: "log_run clock c c"
| log_run_step: "log_step clock c c' \<Longrightarrow> log_run clock c' c'' \<Longrightarrow> log_run clock c c''"

text \<open>What a thread is to log: on which logger, at which level, which event.\<close>

type_synonym log_request = "nat \<times> level \<times> log_event"

definition log_program :: "log_request list \<Rightarrow> log_instr list" where
  "log_program = map (\<lambda>(a, lv, e). Run (Log_Call 2 a lv e))"

section \<open>The frame of a step\<close>

lemma put_appender_get [simp]:
  "lw_appenders (put_appender p ap w) p = Some ap" "world_env (put_appender p ap w) = world_env w"
  by (simp_all add: put_appender_def world_env_def)

lemma file_write_frame:
  "file_write name s f w = (f', w') \<Longrightarrow> log_frame w w' \<and> lw_appenders w' = lw_appenders w"
  by (auto simp: file_write_def log_frame_def split: if_splits)

lemma put_appender_frame:
  "log_frame w w' \<Longrightarrow> lw_appenders w p = Some ap \<Longrightarrow> ap_static ap' = ap_static ap \<Longrightarrow>
   log_frame w (put_appender p ap' w')"
  by (auto simp: log_frame_def put_appender_def)

lemma put_char_frame:
  assumes "put_char p x w = Inr w'"
  shows "log_frame w w'"
proof -
  obtain ap where ap: "lw_appenders w p = Some ap"
    using assms by (auto simp: put_char_def deref_appender_def split: option.splits)
  show ?thesis
  proof (cases "ap_sink ap")
    case Stdout_Sink
    then show ?thesis using assms ap by (auto simp: put_char_def deref_appender_def log_frame_def write_cout_def)
  next
    case (File_Sink name f t)
    obtain f' w1 where w1: "file_write name [x] f w = (f', w1)" by fastforce
    then have "w' = put_appender p (ap\<lparr>ap_sink := File_Sink name f' t\<rparr>) w1"
      using assms ap File_Sink by (simp add: put_char_def deref_appender_def)
    then show ?thesis
      using file_write_frame [OF w1] ap File_Sink by (auto simp: ap_static_def intro!: put_appender_frame)
  qed
qed

lemma log_stmt_step_frame:
  assumes "log_stmt_step now c w = Inr (js, w')"
  shows "log_frame w w'"
  using assms
proof (cases c)
  case (Log_Call k a lv e)
  then show ?thesis using assms by (cases k) auto
next
  case (Write lv e p)
  then show ?thesis using assms by auto
next
  case (Put_Text p s)
  then show ?thesis using assms put_char_frame by (cases s) auto
next
  case (Reopen p)
  then show ?thesis
    using assms
    by (auto simp: FileLogAppender_reopen_def deref_appender_def ap_static_def Let_def
        intro!: put_appender_frame split: option.splits sink.splits)
next
  case (Set_Last_Time p t)
  then show ?thesis
    using assms
    by (auto simp: set_last_time_def deref_appender_def ap_static_def
        intro!: put_appender_frame split: option.splits sink.splits)
qed (use assms in auto)

lemma log_thread_step_frame: "log_thread_step clock t (s, w, k) (s', w', k') \<Longrightarrow> log_frame w w'"
  by (erule log_thread_stepE) (auto dest: log_stmt_step_frame)

section \<open>The locks the threads take\<close>

text \<open>What the statements lock is what the programs of \<open>Lock_Programs\<close> lock.\<close>

fun stmt_locks :: "log_stmt \<Rightarrow> locking" where
  "stmt_locks (Log_Call k a lv e) = Logger_log_locks k lv a"
| "stmt_locks (Dispatch k a lv e) =
     with_logger a (\<lambda>l.
       if lg_appenders l \<noteq> [] then concat (map (LogAppender_log_locks lv) (lg_appenders l))
       else (case lg_root l of Some r \<Rightarrow> Logger_log_locks k lv r | None \<Rightarrow> []))"
| "stmt_locks (To_Appender lv e p) = LogAppender_log_locks lv p"
| "stmt_locks (Reopen p) = []"
| "stmt_locks (Set_Last_Time p t) = []"
| "stmt_locks (Write lv e p) = []"
| "stmt_locks (Put_Text p s) = []"

fun instr_locks :: "log_instr \<Rightarrow> (lock_id, view) instr list" where
  "instr_locks (Run c) = map Do (stmt_locks c)"
| "instr_locks (In_Guard l body) = [Do (Guard In_Lock l (concat (map stmt_locks body)))]"
| "instr_locks (End_Guard l) = [Release In_Lock l]"

definition thread_locks :: "log_instr list \<Rightarrow> (lock_id, view) instr list" where
  "thread_locks k = concat (map instr_locks k)"

lemma thread_locks_simps [simp]:
  "thread_locks [] = []" "thread_locks (i # k) = instr_locks i @ thread_locks k"
  "thread_locks (k @ k') = thread_locks k @ thread_locks k'"
  by (simp_all add: thread_locks_def)

lemma thread_locks_map_Run [simp]: "thread_locks (map Run body) = map Do (concat (map stmt_locks body))"
  by (induction body) simp_all

definition view_at :: "64 word \<Rightarrow> log_world \<Rightarrow> view" where
  "view_at now w = \<lparr>view_log = w\<lparr>lw_now := now\<rparr>, view_datas = [], view_type = (\<lambda>x. []), view_cbs = (\<lambda>x. []),
     view_defines = ([], []), view_branch = False\<rparr>"

lemma log_wf_now [simp]: "log_wf (w\<lparr>lw_now := now\<rparr>) = log_wf w"
  by (simp add: log_inv_def logger_inv_def appender_inv_def map_ok_def)

lemma view_at_good: "log_wf w \<Longrightarrow> good_view (lw_root w) (view_at now w)"
  using log_wf_shape [of "w\<lparr>lw_now := now\<rparr>"] by (simp add: good_view_def view_at_def)

text \<open>
  The statements without locks get fewer, or the text that is to be inserted gets shorter.
\<close>

fun text_left :: "log_instr \<Rightarrow> nat" where
  "text_left (Run (Put_Text p s)) = Suc (length s)"
| "text_left i = 0"

definition steps_left :: "log_instr list \<Rightarrow> nat \<times> nat" where
  "steps_left k = (length (filter (\<lambda>i. text_left i = 0) k), sum_list (map text_left k))"

abbreviation fewer :: "((nat \<times> nat) \<times> (nat \<times> nat)) set" where
  "fewer \<equiv> less_than <*lex*> less_than"

lemma log_stmt_step_locks:
  assumes "log_stmt_step now c w = Inr (js, w')"
  shows "stmt_locks c = [] \<and> thread_locks js = [] \<and> (\<forall>k. (steps_left (js @ k), steps_left (Run c # k)) \<in> fewer) \<or>
         (\<exists>f. stmt_locks c = [Look f] \<and> thread_locks js = map Do (f (view_at now w)))"
  using assms
proof (cases c)
  case (Log_Call k a lv e)
  then show ?thesis
    using assms by (cases k) (auto simp: with_logger_def deref_logger_def view_at_def split: option.splits)
next
  case (Dispatch k a lv e)
  obtain l where l: "lw_loggers w a = Some l"
    using assms Dispatch by (auto simp: deref_logger_def split: option.splits)
  have "thread_locks (map (\<lambda>p. Run (To_Appender lv e p)) ps) = map Do (concat (map (LogAppender_log_locks lv) ps))" for ps
    by (induction ps) simp_all
  then show ?thesis
    using assms l unfolding Dispatch by (cases "lg_root l") (auto simp: with_logger_def deref_logger_def view_at_def)
next
  case (To_Appender lv e p)
  obtain ap where ap: "lw_appenders w p = Some ap"
    using assms To_Appender by (auto simp: deref_appender_def split: option.splits)
  show ?thesis
    using assms ap unfolding To_Appender
    by (cases "ap_sink ap") (auto simp: deref_appender_def LogAppender_log_locks_def StdoutLogAppender_log_locks_def
        FileLogAppender_log_locks_def FileLogAppender_reopen_locks_def appender_log_stmts_def reopen_if_new_second_def view_at_def)
next
  case (Put_Text p s)
  then show ?thesis using assms by (cases s) (auto simp: steps_left_def)
qed (use assms in \<open>auto simp: steps_left_def\<close>)

lemma log_thread_step_locks:
  assumes "log_thread_step clock t (s, w, k) (s', w', k')" and "log_wf w" and "lw_root w = root"
  shows "s' = s \<and> thread_locks k' = thread_locks k \<and> (steps_left k', steps_left k) \<in> fewer \<or>
         thread_move guard_ctor guard_dtor (good_view root) t (s, thread_locks k) (s', thread_locks k')"
  using assms(1)
proof cases
  case (lt_enter l body k2)
  then show ?thesis
    using mv_enter [of guard_ctor In_Lock t l s s' guard_dtor "good_view root" "concat (map stmt_locks body)" "thread_locks k2"]
    by simp
next
  case (lt_leave l)
  then show ?thesis using mv_leave [of guard_ctor guard_dtor "good_view root" t s In_Lock l "thread_locks k'"] by simp
next
  case (lt_stmt now c js k2)
  from log_stmt_step_locks [OF lt_stmt(5)] show ?thesis
  proof (elim disjE exE conjE)
    fix f assume f: "stmt_locks c = [Look f]" "thread_locks js = map Do (f (view_at now w))"
    have "good_view root (view_at now w)" using view_at_good assms(2,3) by blast
    then show ?thesis
      using f lt_stmt mv_look [where seen = "good_view root" and e = "view_at now w", of guard_ctor guard_dtor t s f "thread_locks k2"]
      by simp
  qed (use lt_stmt in simp)
qed

end
