(* ===== verification/Log_Delivery.thy ===== *)
theory Log_Delivery
  imports Log_Threads
begin

text \<open>
  What many logging threads do together: they never block each other for good and every run ends; then every
  character has arrived, in the order of its thread, and where one appender alone writes, every line is whole,
  because the mutex of the appender lets one thread at a time insert into its stream.
\<close>

section \<open>Statements that can be executed\<close>

text \<open>
  The pointers of a statement are live, and the fuel of a call is enough for the root logger below it. The
  appenders are those of a logger.
\<close>

definition attached :: "log_world \<Rightarrow> nat \<Rightarrow> bool" where
  "attached w p \<longleftrightarrow> (\<exists>a l. lw_loggers w a = Some l \<and> p \<in> set (lg_appenders l))"

lemma attached_frame: "log_frame w w' \<Longrightarrow> attached w' p = attached w p"
  by (simp add: attached_def log_frame_def)

fun stmt_ok :: "log_world \<Rightarrow> log_stmt \<Rightarrow> bool" where
  "stmt_ok w (Log_Call k a lv e) \<longleftrightarrow> lw_loggers w a \<noteq> None \<and> (if a = lw_root w then 1 \<le> k else 2 \<le> k)"
| "stmt_ok w (Dispatch k a lv e) \<longleftrightarrow> lw_loggers w a \<noteq> None \<and> (a = lw_root w \<or> 1 \<le> k)"
| "stmt_ok w (To_Appender lv e p) \<longleftrightarrow> attached w p \<and> appender_ok w p"
| "stmt_ok w (Reopen p) \<longleftrightarrow> (\<exists>ap. lw_appenders w p = Some ap \<and> ap_sink ap \<noteq> Stdout_Sink)"
| "stmt_ok w (Set_Last_Time p t) \<longleftrightarrow> lw_appenders w p \<noteq> None"
| "stmt_ok w (Put_Text p s) \<longleftrightarrow> attached w p \<and> lw_appenders w p \<noteq> None"
| "stmt_ok w (Write lv e p) \<longleftrightarrow> attached w p \<and>
     (\<exists>ap. lw_appenders w p = Some ap \<and> ap_formatter ap \<noteq> None \<and> ap_level ap \<le> lv)"

fun instr_ok :: "log_world \<Rightarrow> log_instr \<Rightarrow> bool" where
  "instr_ok w (Run c) \<longleftrightarrow> stmt_ok w c"
| "instr_ok w (In_Guard l body) \<longleftrightarrow> (\<forall>c\<in>set body. stmt_ok w c)"
| "instr_ok w (End_Guard l) \<longleftrightarrow> True"

definition threads_ok :: "log_world \<Rightarrow> log_instr list list \<Rightarrow> bool" where
  "threads_ok w ts \<longleftrightarrow> (\<forall>k\<in>set ts. \<forall>i\<in>set k. instr_ok w i)"

lemma threads_okD: "threads_ok w ts \<Longrightarrow> t < length ts \<Longrightarrow> \<forall>i\<in>set (ts ! t). instr_ok w i"
  by (metis threads_ok_def nth_mem)

lemma appender_ok_frame: "log_frame w w' \<Longrightarrow> appender_ok w p \<Longrightarrow> appender_ok w' p"
  by (auto simp: appender_inv_def elim: log_frame_appender)

lemma stmt_ok_frame:
  assumes fr: "log_frame w w'" and "stmt_ok w c"
  shows "stmt_ok w' c"
proof -
  have "lw_loggers w' = lw_loggers w" "lw_root w' = lw_root w" using fr by (simp_all add: log_frame_def)
  moreover have "\<exists>ap'. lw_appenders w' p = Some ap' \<and> ap_sink ap' \<noteq> Stdout_Sink"
    if "lw_appenders w p = Some ap" "ap_sink ap \<noteq> Stdout_Sink" for p ap
    using log_frame_appender [OF fr that(1)] that(2) by (metis sink_file_None)
  ultimately show ?thesis
    using assms(2)
    by (cases c) (auto simp: appender_ok_frame [OF fr] attached_frame [OF fr] elim: log_frame_appender [OF fr] split: if_splits)
qed

lemma instr_ok_frame: "log_frame w w' \<Longrightarrow> instr_ok w i \<Longrightarrow> instr_ok w' i"
  by (cases i) (auto intro: stmt_ok_frame)

lemma log_stmt_step_ok:
  assumes wf: "log_wf w" and ok: "stmt_ok w c" and step: "log_stmt_step now c w = Inr (js, w')"
  shows "\<forall>i\<in>set js. instr_ok w i"
proof (cases c)
  case (Log_Call k a lv e)
  then show ?thesis
    using ok step by (cases k) (auto simp: deref_logger_def split: option.splits if_splits)
next
  case (Dispatch k a lv e)
  obtain l where l: "lw_loggers w a = Some l" using ok Dispatch by auto
  have "\<forall>p\<in>set (lg_appenders l). attached w p \<and> appender_ok w p"
    using log_wfD_live [OF wf l] l by (auto simp: attached_def)
  moreover have "a \<noteq> lw_root w \<and> r = lw_root w" if "lg_root l = Some r" for r
    using log_wfD_logger [OF wf l] that by (auto simp: logger_inv_def split: if_splits)
  ultimately show ?thesis
    using ok step l log_wfD_root [OF wf] unfolding Dispatch
    by (cases "lg_root l") (auto simp: deref_logger_def split: if_splits)
next
  case (To_Appender lv e p)
  then show ?thesis
    using ok step
    by (auto simp: appender_inv_def deref_appender_def appender_log_stmts_def reopen_if_new_second_def split: if_splits sink.splits)
next
  case (Write lv e p)
  then show ?thesis using ok step by (auto simp: deref_appender_def deref_formatter_def)
next
  case (Put_Text p s)
  have "stmt_ok w' (Put_Text p r)" for r
    using stmt_ok_frame [OF log_stmt_step_frame [OF step], of "Put_Text p r"] ok unfolding Put_Text by simp
  have "attached w p" "lw_appenders w p \<noteq> None" using ok Put_Text by auto
  then show ?thesis using step unfolding Put_Text by (cases s) auto
qed (use step in auto)

lemma log_stmt_step_enabled:
  assumes "stmt_ok w c"
  shows "\<exists>js w'. log_stmt_step now c w = Inr (js, w')"
proof (cases c)
  case (Log_Call k a lv e)
  then show ?thesis using assms by (cases k) (auto simp: deref_logger_def split: if_splits)
next
  case (Write lv e p)
  then show ?thesis using assms by (auto simp: deref_appender_def deref_formatter_def)
next
  case (Put_Text p s)
  then obtain ap where ap: "lw_appenders w p = Some ap" using assms by auto
  then show ?thesis
    unfolding Put_Text
    by (cases s; cases "ap_sink ap") (auto simp: put_char_def deref_appender_def split: prod.split)
next
  case (Reopen p)
  then obtain ap where ap: "lw_appenders w p = Some ap" "ap_sink ap \<noteq> Stdout_Sink" using assms by auto
  then show ?thesis
    unfolding Reopen
    by (cases "ap_sink ap") (auto simp: FileLogAppender_reopen_def deref_appender_def Let_def)
qed (use assms in \<open>auto simp: deref_logger_def deref_appender_def appender_inv_def\<close>)

section \<open>Insertions are guarded\<close>

text \<open>
  A thread inserts into the stream of an appender only while it holds the mutex of the appender: nowhere else in
  its continuation is there an insertion that is not inside such a guard.
\<close>

fun writer_of :: "log_stmt \<Rightarrow> nat option" where
  "writer_of (Write lv e p) = Some p"
| "writer_of (Put_Text p s) = Some p"
| "writer_of c = None"

fun outside :: "log_instr \<Rightarrow> bool" where
  "outside (Run c) \<longleftrightarrow> writer_of c = None"
| "outside (In_Guard l body) \<longleftrightarrow>
     (\<forall>c\<in>set body. writer_of c = None) \<or> (\<exists>lv e p. l = Appender_Lock p \<and> body = [Write lv e p])"
| "outside (End_Guard l) \<longleftrightarrow> True"

definition inserting :: "nat \<Rightarrow> log_instr list \<Rightarrow> bool" where
  "inserting p k \<longleftrightarrow>
     (\<exists>c k2. k = Run c # End_Guard (Appender_Lock p) # k2 \<and> writer_of c = Some p \<and> (\<forall>i\<in>set k2. outside i))"

definition guarded :: "log_instr list \<Rightarrow> bool" where
  "guarded k \<longleftrightarrow> (\<forall>i\<in>set k. outside i) \<or> (\<exists>p. inserting p k)"

lemma log_stmt_step_outside:
  assumes "writer_of c = None" and "log_stmt_step now c w = Inr (js, w')"
  shows "\<forall>i\<in>set js. outside i"
proof (cases c)
  case (Log_Call k a lv e)
  then show ?thesis
    using assms by (cases k) (auto simp: deref_logger_def split: option.splits if_splits)
next
  case (Dispatch k a lv e)
  then show ?thesis using assms by (auto simp: deref_logger_def split: option.splits if_splits)
next
  case (To_Appender lv e p)
  then show ?thesis
    using assms
    by (auto simp: deref_appender_def appender_log_stmts_def reopen_if_new_second_def split: option.splits if_splits sink.splits)
qed (use assms in auto)

lemma writer_stmt_step:
  assumes "writer_of c = Some p" and "log_stmt_step now c w = Inr (js, w')"
  shows "js = [] \<or> (\<exists>s. js = [Run (Put_Text p s)])"
proof (cases c)
  case (Put_Text q s)
  then show ?thesis using assms by (cases s) auto
qed (use assms in auto)

lemma guarded_step:
  assumes "log_thread_step clock t (s, w, k) (s', w', k')" and "guarded k"
  shows "guarded k'"
  using assms(1)
proof cases
  case (lt_enter l body k2)
  then have "outside (In_Guard l body)" "\<forall>i\<in>set k2. outside i"
    using assms(2) by (auto simp: guarded_def inserting_def)
  then show ?thesis using lt_enter by (auto simp: guarded_def inserting_def)
next
  case (lt_leave l)
  then show ?thesis using assms(2) by (auto simp: guarded_def inserting_def)
next
  case (lt_stmt now c js k2)
  show ?thesis
  proof (cases "writer_of c")
    case None
    then have "\<forall>i\<in>set k2. outside i" using assms(2) lt_stmt(1) by (auto simp: guarded_def inserting_def)
    then show ?thesis using log_stmt_step_outside [OF None lt_stmt(5)] lt_stmt by (auto simp: guarded_def)
  next
    case (Some p)
    then obtain k3 where k3: "k2 = End_Guard (Appender_Lock p) # k3" "\<forall>i\<in>set k3. outside i"
      using assms(2) lt_stmt(1) by (auto simp: guarded_def inserting_def)
    from writer_stmt_step [OF Some lt_stmt(5)] show ?thesis
      using k3 lt_stmt(2,3) by (auto simp: guarded_def inserting_def)
  qed
qed

lemma inserting_holds: "inserting p k \<Longrightarrow> (Appender_Lock p, In_Lock, t) \<in># holds_of t (thread_locks k)"
  by (auto simp: inserting_def thread_locks_def dest: arg_cong [where f = "holds_of t"] elim!: writer_of.elims)

section \<open>The invariant of a run\<close>

text \<open>
  The configuration is the one of \<open>w0\<close>, the locks are held as the continuations say and in order, insertions
  are guarded, and everything that is still to be executed can be.
\<close>

definition logging_inv :: "log_world \<Rightarrow> log_threads \<Rightarrow> bool" where
  "logging_inv w0 c \<longleftrightarrow>
     (case c of (s, w, ts) \<Rightarrow>
        log_frame w0 w \<and> threads_ok w ts \<and> (\<forall>k\<in>set ts. guarded k) \<and>
        code_locks.lock_inv (lock_rank (lw_root w0)) (good_view (lw_root w0)) (s, map thread_locks ts))"

lemma threads_ok_update:
  "threads_ok w ts \<Longrightarrow> log_frame w w' \<Longrightarrow> \<forall>i\<in>set k. instr_ok w' i \<Longrightarrow> threads_ok w' (ts[t := k])"
  by (auto simp: threads_ok_def dest!: subsetD [OF set_update_subset_insert] intro: instr_ok_frame)

lemma log_thread_step_ok:
  assumes "log_thread_step clock t (s, w, k) (s', w', k')" and wf: "log_wf w" and ok: "\<forall>i\<in>set k. instr_ok w i"
  shows "\<forall>i\<in>set k'. instr_ok w' i"
  using assms(1)
proof cases
  case (lt_stmt now c js k2)
  have "log_frame w w'" by (rule log_stmt_step_frame [OF lt_stmt(5)])
  moreover have "\<forall>i\<in>set js. instr_ok w i" using log_stmt_step_ok [OF wf _ lt_stmt(5)] ok lt_stmt(1) by simp
  ultimately show ?thesis using ok lt_stmt by (auto intro: instr_ok_frame)
qed (use ok in auto)

lemma logging_inv_step:
  assumes inv: "logging_inv w0 (s, w, ts)" and wf: "log_wf w0" and step: "log_step clock (s, w, ts) (s', w', ts')"
  shows "logging_inv w0 (s', w', ts')"
proof -
  obtain t k' where t: "t < length ts" "ts' = ts[t := k']" "log_thread_step clock t (s, w, ts ! t) (s', w', k')"
    using step by (auto elim!: log_stepE)
  have fr: "log_frame w0 w" and ok: "threads_ok w ts" and guarded: "\<forall>k\<in>set ts. guarded k"
    and locks: "code_locks.lock_inv (lock_rank (lw_root w0)) (good_view (lw_root w0)) (s, map thread_locks ts)"
    using inv by (auto simp: logging_inv_def)
  have "\<forall>k\<in>set ts'. guarded k"
    using guarded_step [OF t(3)] guarded t(1,2) by (auto dest!: subsetD [OF set_update_subset_insert])
  note fr' = log_thread_step_frame [OF t(3)] and wf' = log_frame_wf [OF fr wf]
  have "\<forall>i\<in>set k'. instr_ok w' i"
    by (rule log_thread_step_ok [OF t(3) wf' threads_okD [OF ok t(1)]])
  then have "threads_ok w' ts'" unfolding t(2) by (rule threads_ok_update [OF ok fr'])
  moreover have "code_locks.lock_inv (lock_rank (lw_root w0)) (good_view (lw_root w0)) (s', map thread_locks ts')"
  proof -
    have root: "lw_root w = lw_root w0" using fr by (simp add: log_frame_def)
    from log_thread_step_locks [OF t(3) wf' root] show ?thesis
    proof
      assume "s' = s \<and> thread_locks k' = thread_locks (ts ! t) \<and> (steps_left k', steps_left (ts ! t)) \<in> fewer"
      then show ?thesis using locks t(1,2) by (simp add: map_update) (metis list_update_id map_update)
    next
      assume "thread_move guard_ctor guard_dtor (good_view (lw_root w0)) t (s, thread_locks (ts ! t)) (s', thread_locks k')"
      then have "sys_move guard_ctor guard_dtor (good_view (lw_root w0)) (s, map thread_locks ts)
          (s', (map thread_locks ts)[t := thread_locks k'])"
        using t(1) by (intro sys_thread) simp_all
      then show ?thesis
        using code_locks.lock_inv_move [OF locks] t(2) by (simp add: map_update)
    qed
  qed
  ultimately show ?thesis
    using log_frame_trans [OF fr fr'] \<open>\<forall>k\<in>set ts'. guarded k\<close> by (simp add: logging_inv_def)
qed

lemma logging_inv_run: "log_run clock c c' \<Longrightarrow> log_wf w0 \<Longrightarrow> logging_inv w0 c \<Longrightarrow> logging_inv w0 c'"
proof (induction rule: log_run.induct)
  case (log_run_step c c' c'')
  then show ?case using logging_inv_step by (metis prod.collapse)
qed simp

lemma logging_inv_start:
  assumes "log_wf w" and "\<forall>calls\<in>set css. \<forall>(a, lv, e)\<in>set calls. lw_loggers w a \<noteq> None"
  shows "logging_inv w (locks_ctor, w, map log_program css)"
proof -
  let ?root = "lw_root w"
  have prog: "thread_locks (log_program calls) = map Do (concat (map (\<lambda>(a, lv, e). Logger_log_locks 2 lv a) calls))" for calls
    by (induction calls) (auto simp: log_program_def)
  have ord: "in_order (lock_rank ?root) (good_view ?root) (thread_locks (log_program calls))" for calls
  proof -
    have "orderly ?root 0 (concat (map (\<lambda>(a, lv, e). Logger_log_locks 2 lv a) calls))"
      by (auto intro!: Logger_log_orderly)
    then show ?thesis
      using in_order_map_Do [of "lock_rank ?root" "good_view ?root" _ "[]"] by (simp add: prog orderly_def)
  qed
  have "holds_of t (thread_locks (log_program calls)) = {#}" for t calls
    unfolding prog by (metis append_Nil2 holds_of.simps(1) holds_of_map_Do)
  then have "held (map thread_locks (map log_program css)) = {#}"
    by (auto simp: held_def intro!: sum.neutral)
  then have "code_locks.lock_inv (lock_rank ?root) (good_view ?root) (locks_ctor, map thread_locks (map log_program css))"
    using ord by (auto simp: code_locks.lock_inv_def counts_ctor)
  moreover have "threads_ok w (map log_program css)"
    using assms(2) by (fastforce simp: threads_ok_def log_program_def)
  moreover have "\<forall>k\<in>set (map log_program css). guarded k" by (auto simp: guarded_def log_program_def)
  ultimately show ?thesis by (simp add: logging_inv_def)
qed

section \<open>The threads go on and come to an end\<close>

lemma log_thread_enabled:
  assumes "\<forall>i\<in>set k. instr_ok w i" and "k \<noteq> []" and "clock now"
  shows "(\<exists>c'. log_thread_step clock t (s, w, k) c') \<or>
         (\<exists>l body k2. k = In_Guard l body # k2 \<and> guard_ctor In_Lock t l s = None)"
proof (cases k)
  case (Cons i k2)
  show ?thesis
  proof (cases i)
    case (Run c)
    then obtain js w' where "log_stmt_step now c w = Inr (js, w')"
      using log_stmt_step_enabled [of w c now] assms(1) Cons by auto
    then show ?thesis using lt_stmt [of clock now c w js w' t s k2] assms(3) Cons Run by blast
  next
    case (In_Guard l body)
    show ?thesis
    proof (cases "guard_ctor In_Lock t l s")
      case None
      then show ?thesis using Cons In_Guard by simp
    next
      case (Some s')
      then show ?thesis using lt_enter [of t l s s' clock w body k2] Cons In_Guard by blast
    qed
  next
    case (End_Guard l)
    then show ?thesis using lt_leave [of clock t s w l k2] Cons by blast
  qed
qed (use assms(2) in simp)

lemma log_step_exists:
  assumes inv: "logging_inv w0 (s, w, ts)" and wf: "log_wf w0" and now: "clock now" and "\<exists>k\<in>set ts. k \<noteq> []"
  shows "\<exists>c'. log_step clock (s, w, ts) c'"
proof (rule ccontr)
  assume stuck: "\<not> ?thesis"
  have ok: "threads_ok w ts"
    and locks: "code_locks.lock_inv (lock_rank (lw_root w0)) (good_view (lw_root w0)) (s, map thread_locks ts)"
    using inv by (auto simp: logging_inv_def)
  have blocked: "\<exists>l body k2. ts ! t = In_Guard l body # k2 \<and> guard_ctor In_Lock t l s = None"
    if t: "t < length ts" "ts ! t \<noteq> []" for t
  proof -
    have "\<not> (\<exists>c'. log_thread_step clock t (s, w, ts ! t) c')"
      using stuck log_step_thread [OF t(1), of clock s w] by (metis prod.collapse)
    then show ?thesis
      using log_thread_enabled [where clock = clock and now = now, OF threads_okD [OF ok t(1)] t(2) now] by blast
  qed
  obtain t where t: "t < length ts" "ts ! t \<noteq> []" using assms(4) by (auto simp: in_set_conv_nth)
  have "thread_locks (ts ! t) \<noteq> []" using blocked [OF t] by auto
  then have "\<exists>k\<in>set (map thread_locks ts). k \<noteq> []" using t(1) by auto
  moreover have "good_view (lw_root w0) (view_at now w0)" using view_at_good wf by blast
  ultimately obtain c' where "sys_move guard_ctor guard_dtor (good_view (lw_root w0)) (s, map thread_locks ts) c'"
    using code_locks.no_deadlock [where seen = "good_view (lw_root w0)" and e = "view_at now w0", OF locks _ lock_rank_bound]
    by blast
  then obtain u s' k' where u: "u < length ts"
    "thread_move guard_ctor guard_dtor (good_view (lw_root w0)) u (s, thread_locks (ts ! u)) (s', k')"
    by (auto elim!: sys_move_thread)
  have "ts ! u \<noteq> []" using thread_move_unfinished [OF u(2)] by auto
  from blocked [OF u(1) this] u(2) show False by (auto simp: thread_move_blocked)
qed

text \<open>
  Every step takes a step of the programs of locks, or is a statement without locks and is gone, or
  inserts a character.
\<close>

type_synonym log_measure = "(lock_id, view) instr multiset \<times> nat \<times> nat"

definition log_work :: "log_threads \<Rightarrow> log_measure" where
  "log_work c =
     (case c of (s, w, ts) \<Rightarrow>
        (work (map thread_locks ts), sum_list (map (fst \<circ> steps_left) ts), sum_list (map (snd \<circ> steps_left) ts)))"

definition log_work_rel :: "(log_measure \<times> log_measure) set" where
  "log_work_rel = mult below_rel <*lex*> less_than <*lex*> less_than"

lemma wf_log_work_rel: "wf log_work_rel"
  unfolding log_work_rel_def by (intro wf_lex_prod wf_mult wf_below wf_less_than)

lemma sum_list_map_update:
  assumes "t < length ts"
  obtains r where "sum_list (map f ts) = r + f (ts ! t)" "\<And>k. sum_list (map f (ts[t := k])) = r + (f k :: nat)"
proof
  have le: "f (ts ! t) \<le> sum_list (map f ts)" using elem_le_sum_list [of t "map f ts"] assms by simp
  show "sum_list (map f ts) = (sum_list (map f ts) - f (ts ! t)) + f (ts ! t)" using le by simp
  show "sum_list (map f (ts[t := k])) = (sum_list (map f ts) - f (ts ! t)) + f k" for k
    using le assms by (simp add: map_update sum_list_update)
qed

lemma log_step_less:
  assumes inv: "logging_inv w0 c" and wf: "log_wf w0" and step: "log_step clock c c'"
  shows "(log_work c', log_work c) \<in> log_work_rel"
proof -
  obtain s w ts s' w' ts' where c: "c = (s, w, ts)" "c' = (s', w', ts')" by (metis prod.collapse)
  obtain t k' where t: "t < length ts" "ts' = ts[t := k']" "log_thread_step clock t (s, w, ts ! t) (s', w', k')"
    using step unfolding c by (auto elim!: log_stepE)
  have fr: "log_frame w0 w" using inv by (simp add: c logging_inv_def)
  then have root: "lw_root w = lw_root w0" by (simp add: log_frame_def)
  from log_thread_step_locks [OF t(3) log_frame_wf [OF fr wf] root] show ?thesis
  proof
    assume less: "s' = s \<and> thread_locks k' = thread_locks (ts ! t) \<and> (steps_left k', steps_left (ts ! t)) \<in> fewer"
    then have "map thread_locks ts' = map thread_locks ts"
      using t(1,2) by (simp add: map_update) (metis list_update_id map_update)
    moreover obtain r1 where "sum_list (map (fst \<circ> steps_left) ts) = r1 + fst (steps_left (ts ! t))"
      "sum_list (map (fst \<circ> steps_left) ts') = r1 + fst (steps_left k')"
      using sum_list_map_update [OF t(1), of "fst \<circ> steps_left"] unfolding t(2) comp_def by metis
    moreover obtain r2 where "sum_list (map (snd \<circ> steps_left) ts) = r2 + snd (steps_left (ts ! t))"
      "sum_list (map (snd \<circ> steps_left) ts') = r2 + snd (steps_left k')"
      using sum_list_map_update [OF t(1), of "snd \<circ> steps_left"] unfolding t(2) comp_def by metis
    ultimately show ?thesis
      using less by (cases "steps_left k'"; cases "steps_left (ts ! t)") (auto simp: c log_work_def log_work_rel_def)
  next
    assume "thread_move guard_ctor guard_dtor (good_view (lw_root w0)) t (s, thread_locks (ts ! t)) (s', thread_locks k')"
    then have "sys_move guard_ctor guard_dtor (good_view (lw_root w0)) (s, map thread_locks ts)
        (s', (map thread_locks ts)[t := thread_locks k'])"
      using t(1) by (intro sys_thread) simp_all
    from sys_step_less [OF step_move [OF this]] show ?thesis
      using t(2) by (simp add: c log_work_def log_work_rel_def map_update)
  qed
qed

lemma log_runs_end:
  assumes "log_wf w0" and "logging_inv w0 (run 0)" and step: "\<And>i. log_step clock (run i) (run (Suc i))"
  shows False
proof -
  have "logging_inv w0 (run i)" for i
  proof (induction i)
    case (Suc i)
    then show ?case
      using logging_inv_run [OF log_run_step [OF step log_run_refl] assms(1)] by blast
  qed (rule assms(2))
  then have "(log_work (run (Suc i)), log_work (run i)) \<in> log_work_rel" for i
    using log_step_less assms(1) step by blast
  then have "\<exists>f. \<forall>i. (f (Suc i), f i) \<in> log_work_rel" by (intro exI [of _ "\<lambda>i. log_work (run i)"]) simp
  with wf_log_work_rel show False by (simp add: wf_iff_no_infinite_down_chain)
qed

text \<open>So every run can be continued until all threads have finished.\<close>

lemma log_run_length: "log_run clock c c' \<Longrightarrow> length (snd (snd c')) = length (snd (snd c))"
  by (induction rule: log_run.induct) (auto elim!: log_step.cases)

lemma log_step_finished:
  assumes "\<forall>k\<in>set ts. k = []"
  shows "\<not> log_step clock (s, w, ts) c'"
proof
  assume "log_step clock (s, w, ts) c'"
  then show False
  proof cases
    case (log_step_thread t s' w' k')
    then have "ts ! t = []" using assms by simp
    with log_step_thread(3) show False by (auto elim: log_thread_stepE)
  qed
qed

lemma log_run_completes:
  assumes wf: "log_wf w0" and "logging_inv w0 c" and now: "clock now"
  shows "\<exists>c'. log_run clock c c' \<and> (\<forall>k\<in>set (snd (snd c')). k = [])"
  using assms(2)
proof (induction c rule: wf_induct_rule [OF wf_inv_image [OF wf_log_work_rel, of log_work]])
  case (1 c)
  obtain s w ts where c: "c = (s, w, ts)" by (metis prod.collapse)
  show ?case
  proof (cases "\<exists>k\<in>set ts. k \<noteq> []")
    case True
    obtain c' where c': "log_step clock c c'"
      using log_step_exists [where clock = clock and now = now, OF 1(2) [unfolded c] wf now True] c by blast
    have "logging_inv w0 c'" by (rule logging_inv_run [OF log_run_step [OF c' log_run_refl] wf 1(2)])
    then obtain c'' where "log_run clock c' c''" "\<forall>k\<in>set (snd (snd c'')). k = []"
      using 1(1) [of c'] log_step_less [OF 1(2) wf c'] by (auto simp: inv_image_def)
    then show ?thesis using log_run_step [OF c'] by blast
  next
    case False
    then show ?thesis using c log_run_refl [of clock c] by auto
  qed
qed

lemma all_Nil_map: "\<forall>k\<in>set ts. k = [] \<Longrightarrow> f [] = [] \<Longrightarrow> \<forall>x\<in>set (map f ts). x = []"
  by (induction ts) simp_all

section \<open>Lines\<close>

text \<open>
  \<open>interleaving xss ys\<close>: \<open>ys\<close> is made of the elements of the lists \<open>xss\<close>, each list in its order.
\<close>

inductive interleaving :: "'a list list \<Rightarrow> 'a list \<Rightarrow> bool" where
  il_done: "\<forall>xs\<in>set xss. xs = [] \<Longrightarrow> interleaving xss []"
| il_take: "t < length xss \<Longrightarrow> xss ! t = x # xs \<Longrightarrow> interleaving (xss[t := xs]) ys \<Longrightarrow> interleaving xss (x # ys)"

lemma interleaving_append:
  "t < length xss \<Longrightarrow> xss ! t = xs @ rest \<Longrightarrow> interleaving (xss[t := rest]) ys \<Longrightarrow> interleaving xss (xs @ ys)"
proof (induction xs arbitrary: xss)
  case Nil
  then show ?case by (metis append_Nil list_update_id)
next
  case (Cons x xs)
  have "interleaving (xss[t := xs @ rest]) (xs @ ys)"
    using Cons.prems by (intro Cons.IH) simp_all
  then show ?case using Cons.prems by (auto intro: il_take)
qed

lemma interleaving_mset: "interleaving xss ys \<Longrightarrow> mset ys = (\<Sum>xs\<leftarrow>xss. mset xs)"
proof (induction rule: interleaving.induct)
  case (il_done xss)
  then show ?case by (induction xss) simp_all
next
  case (il_take t xss x xs ys)
  obtain r where "(\<Sum>xs\<leftarrow>xss. mset xs) = r + mset (xss ! t)" "\<And>ys. (\<Sum>xs\<leftarrow>xss[t := ys]. mset xs) = r + mset ys"
    by (rule mset_lists_update [OF il_take.hyps(1)]) (rule that)
  then show ?case using il_take by simp
qed

text \<open>
  A destination is \<open>std::cout\<close> or a file. \<open>lines_to\<close> is what one appender has to write for an event,
  \<open>call_lines\<close> what a call of \<open>log\<close> has to deliver: one line for each target whose level admits the event.
\<close>

definition content :: "log_world \<Rightarrow> string option \<Rightarrow> string" where
  "content w d = (case d of None \<Rightarrow> lw_cout w | Some name \<Rightarrow> lw_files w name)"

definition lines_to :: "log_world \<Rightarrow> string option \<Rightarrow> level \<Rightarrow> log_event \<Rightarrow> nat \<Rightarrow> string list" where
  "lines_to w d lv e p =
     (case lw_appenders w p of
        None \<Rightarrow> []
      | Some ap \<Rightarrow>
          if sink_file (ap_sink ap) = d \<and> ap_level ap \<le> lv
          then (case ap_formatter ap of Some fm \<Rightarrow> [LogFormatter_format (world_env w) fm lv e] | None \<Rightarrow> [])
          else [])"

definition call_lines :: "log_world \<Rightarrow> string option \<Rightarrow> log_request \<Rightarrow> string list" where
  "call_lines w d r = (case r of (a, lv, e) \<Rightarrow> concat (map (lines_to w d lv e) (targets w a lv)))"

definition streams_good :: "log_world \<Rightarrow> bool" where
  "streams_good w \<longleftrightarrow>
     (\<forall>p ap name f t. lw_appenders w p = Some ap \<longrightarrow> ap_sink ap = File_Sink name f t \<longrightarrow>
        fs_open f \<and> \<not> fs_fail f \<and> lw_can_open w name \<and> lw_can_write w name)"

text \<open>\<open>d\<close> is the destination of the appender \<open>p\<close>; one appender of a logger alone writes to it.\<close>

definition writes_to :: "log_world \<Rightarrow> nat \<Rightarrow> string option \<Rightarrow> bool" where
  "writes_to w p d \<longleftrightarrow> (\<exists>ap. lw_appenders w p = Some ap \<and> sink_file (ap_sink ap) = d)"

definition sole_appender :: "log_world \<Rightarrow> string option \<Rightarrow> bool" where
  "sole_appender w d \<longleftrightarrow>
     (\<forall>p q. attached w p \<and> attached w q \<and> writes_to w p d \<and> writes_to w q d \<longrightarrow> p = q)"

lemma writes_to_frame: "log_frame w w' \<Longrightarrow> writes_to w' p d = writes_to w p d"
  using log_frame_ap_static [of w w' p]
  by (cases "lw_appenders w p"; cases "lw_appenders w' p") (auto simp: writes_to_def ap_static_def)

text \<open>
  The lines that the continuation of a thread has still to begin, and the rest of the line it has begun.
\<close>

fun stmt_lines :: "log_world \<Rightarrow> string option \<Rightarrow> log_stmt \<Rightarrow> string list" where
  "stmt_lines w d (Log_Call k a lv e) = call_lines w d (a, lv, e)"
| "stmt_lines w d (Dispatch k a lv e) =
     (case lw_loggers w a of
        None \<Rightarrow> []
      | Some l \<Rightarrow>
          if lg_appenders l \<noteq> [] then concat (map (lines_to w d lv e) (lg_appenders l))
          else (case lg_root l of Some r \<Rightarrow> call_lines w d (r, lv, e) | None \<Rightarrow> []))"
| "stmt_lines w d (To_Appender lv e p) = lines_to w d lv e p"
| "stmt_lines w d (Reopen p) = []"
| "stmt_lines w d (Set_Last_Time p t) = []"
| "stmt_lines w d (Write lv e p) = lines_to w d lv e p"
| "stmt_lines w d (Put_Text p s) = []"

fun instr_lines :: "log_world \<Rightarrow> string option \<Rightarrow> log_instr \<Rightarrow> string list" where
  "instr_lines w d (Run c) = stmt_lines w d c"
| "instr_lines w d (In_Guard l body) = concat (map (stmt_lines w d) body)"
| "instr_lines w d (End_Guard l) = []"

definition pending :: "log_world \<Rightarrow> string option \<Rightarrow> log_instr list \<Rightarrow> string list" where
  "pending w d k = concat (map (instr_lines w d) k)"

lemma pending_simps [simp]:
  "pending w d [] = []" "pending w d (i # k) = instr_lines w d i @ pending w d k"
  "pending w d (k @ k') = pending w d k @ pending w d k'"
  "pending w d (map Run body) = concat (map (stmt_lines w d) body)"
  by (simp_all add: pending_def comp_def)

fun text_begun :: "log_world \<Rightarrow> string option \<Rightarrow> log_instr list \<Rightarrow> string" where
  "text_begun w d (Run (Put_Text p s) # k) = (if writes_to w p d then s else [])"
| "text_begun w d k = []"

lemma text_begun_outside: "\<forall>i\<in>set k. outside i \<Longrightarrow> text_begun w d k = []"
  by (cases "(w, d, k)" rule: text_begun.cases) auto

lemma text_begun_Run [simp]: "\<forall>p s. c \<noteq> Put_Text p s \<Longrightarrow> text_begun w d (Run c # k) = []"
  by (cases c) auto

lemma text_begun_none [simp]: "writer_of c = None \<Longrightarrow> text_begun w d (Run c # k) = []"
  by (cases c) auto

lemma text_begun_frame: "log_frame w w' \<Longrightarrow> text_begun w' d k = text_begun w d k"
  by (cases "(w, d, k)" rule: text_begun.cases) (auto simp: writes_to_frame)

text \<open>Only a thread that is inserting has begun a line.\<close>

lemma text_begun_inserting:
  assumes "text_begun w d k \<noteq> []" and "guarded k"
  shows "\<exists>p. inserting p k \<and> writes_to w p d"
  using assms
  by (cases "(w, d, k)" rule: text_begun.cases) (auto simp: guarded_def inserting_def split: if_splits)

lemma lines_to_frame:
  assumes "log_frame w w'"
  shows "lines_to w' = lines_to w"
proof -
  have "lines_to w' d lv e p = lines_to w d lv e p" for d lv e p
    using log_frame_ap_static [OF assms, of p] log_frame_env [OF assms]
    by (cases "lw_appenders w p"; cases "lw_appenders w' p") (auto simp: lines_to_def ap_static_def split: option.split)
  then show ?thesis by (simp add: fun_eq_iff)
qed

lemma call_lines_frame:
  assumes "log_frame w w'"
  shows "call_lines w' = call_lines w"
proof -
  have "lw_loggers w' = lw_loggers w" using assms by (simp add: log_frame_def)
  then have "targets w' = targets w" by (intro ext) (simp add: targets_def cong: option.case_cong if_cong)
  then show ?thesis by (simp add: call_lines_def lines_to_frame [OF assms] fun_eq_iff)
qed

lemma stmt_lines_frame:
  assumes "log_frame w w'"
  shows "stmt_lines w' d = stmt_lines w d"
proof
  have "lw_loggers w' = lw_loggers w" using assms by (simp add: log_frame_def)
  then show "stmt_lines w' d c = stmt_lines w d c" for c
    by (cases c) (simp_all add: lines_to_frame [OF assms] call_lines_frame [OF assms] cong: option.case_cong if_cong)
qed

lemma pending_frame:
  assumes "log_frame w w'"
  shows "pending w' d k = pending w d k"
proof -
  have "instr_lines w' d i = instr_lines w d i" for i
    by (cases i) (simp_all add: stmt_lines_frame [OF assms])
  then have "instr_lines w' d = instr_lines w d" by (intro ext)
  then show ?thesis by (simp add: pending_def)
qed

section \<open>What a step delivers\<close>

lemma streams_good_put:
  "streams_good w \<Longrightarrow>
   \<forall>name f t. ap_sink ap = File_Sink name f t \<longrightarrow>
      fs_open f \<and> \<not> fs_fail f \<and> lw_can_open w name \<and> lw_can_write w name \<Longrightarrow>
   streams_good (put_appender p ap w)"
  by (simp add: streams_good_def put_appender_def)

lemma streams_good_text [simp]:
  "streams_good (w\<lparr>lw_cout := x\<rparr>) = streams_good w" "streams_good (w\<lparr>lw_files := g\<rparr>) = streams_good w"
  by (simp_all add: streams_good_def)

lemma streams_goodD:
  "streams_good w \<Longrightarrow> lw_appenders w p = Some ap \<Longrightarrow> ap_sink ap = File_Sink name f t \<Longrightarrow>
   fs_open f \<and> \<not> fs_fail f \<and> lw_can_open w name \<and> lw_can_write w name"
  unfolding streams_good_def by blast

lemma content_put [simp]: "content (put_appender p ap w) d = content w d"
  by (simp add: content_def put_appender_def split: option.split)

lemma put_char_delivers:
  assumes good: "streams_good w" and step: "put_char p x w = Inr w'"
  shows "streams_good w' \<and> content w' d = content w d @ (if writes_to w p d then [x] else [])"
proof -
  obtain ap where ap: "lw_appenders w p = Some ap"
    using step by (auto simp: put_char_def deref_appender_def split: option.splits)
  show ?thesis
  proof (cases "ap_sink ap")
    case Stdout_Sink
    then have "w' = write_cout [x] w" using step ap by (simp add: put_char_def deref_appender_def)
    then show ?thesis
      using good ap Stdout_Sink by (cases d) (auto simp: write_cout_def content_def writes_to_def)
  next
    case (File_Sink name f t)
    note f = streams_goodD [OF good ap File_Sink]
    let ?w = "w\<lparr>lw_files := (lw_files w)(name := lw_files w name @ [x])\<rparr>"
    have "w' = put_appender p ap ?w"
      using step ap File_Sink f
      by (auto simp: put_char_def deref_appender_def file_write_def
          intro!: arg_cong [of _ _ "\<lambda>ap. put_appender p ap _"] appender.equality)
    then show ?thesis
      using f ap File_Sink good
      by (cases d) (auto simp: writes_to_def intro!: streams_good_put, auto simp: content_def)
  qed
qed

text \<open>A statement that inserts nothing leaves the lines it had to deliver to the statements it goes on with.\<close>

lemma log_stmt_step_delivers:
  assumes wf: "log_wf w" and good: "streams_good w" and ok: "stmt_ok w c"
    and step: "log_stmt_step now c w = Inr (js, w')" and none: "writer_of c = None"
  shows "streams_good w' \<and> stmt_lines w d c = pending w d js \<and> content w' d = content w d"
proof (cases c)
  case (Log_Call k a lv e)
  obtain l where l: "lw_loggers w a = Some l" using ok Log_Call by auto
  have "call_lines w d (r, lv, e) = (case lw_loggers w r of None \<Rightarrow> [] | Some rl \<Rightarrow>
      if lg_level rl \<le> lv then concat (map (lines_to w d lv e) (lg_appenders rl)) else [])" if "lg_root l = Some r" for r
  proof -
    have "r = lw_root w" using log_wfD_logger [OF wf l] that by (auto simp: logger_inv_def split: if_splits)
    then show ?thesis using log_wfD_root [OF wf] by (auto simp: call_lines_def targets_def)
  qed
  then have "call_lines w d (a, lv, e) = (if lg_level l \<le> lv then stmt_lines w d (Dispatch n a lv e) else [])" for n
    using l by (auto simp: call_lines_def [of w d "(a, lv, e)"] targets_def split: option.split)
  then show ?thesis
    using good ok step l unfolding Log_Call by (cases k) (auto simp: deref_logger_def simp del: stmt_lines.simps(2) split: if_splits)
next
  case (Dispatch k a lv e)
  obtain l where l: "lw_loggers w a = Some l" using ok Dispatch by auto
  have "pending w d (map (\<lambda>p. Run (To_Appender lv e p)) ps) = concat (map (lines_to w d lv e) ps)" for ps
    by (induction ps) simp_all
  then show ?thesis
    using good step l unfolding Dispatch by (cases "lg_root l") (auto simp: deref_logger_def)
next
  case (To_Appender lv e p)
  then obtain ap where ap: "lw_appenders w p = Some ap" using ok by (auto simp: appender_inv_def)
  show ?thesis
    using good step ap unfolding To_Appender
    by (cases "ap_sink ap") (auto simp: deref_appender_def appender_log_stmts_def reopen_if_new_second_def lines_to_def)
next
  case (Reopen p)
  then obtain ap name f t where ap: "lw_appenders w p = Some ap" "ap_sink ap = File_Sink name f t"
    using ok by (auto, metis sink.exhaust)
  note f = streams_goodD [OF good ap]
  then show ?thesis
    using good step ap unfolding Reopen
    by (auto simp: FileLogAppender_reopen_def deref_appender_def Let_def reopen_good intro!: streams_good_put)
next
  case (Set_Last_Time p t)
  then obtain ap where ap: "lw_appenders w p = Some ap" using ok by auto
  then show ?thesis
    using good step streams_goodD [OF good ap] unfolding Set_Last_Time
    by (auto simp: deref_appender_def set_last_time_def intro!: streams_good_put split: sink.splits)
qed (use none in auto)

text \<open>A thread that inserts begins a line, or goes on with the one it has begun.\<close>

lemma writer_stmt_delivers:
  assumes good: "streams_good w" and ok: "stmt_ok w c"
    and step: "log_stmt_step now c w = Inr (js, w')" and some: "writer_of c = Some p"
  shows "streams_good w' \<and>
         (\<exists>xs ys. stmt_lines w d c = xs \<and> pending w d js = [] \<and> content w' d = content w d @ ys \<and>
            text_begun w d (Run c # k) @ concat xs = ys @ text_begun w d js \<and> ((xs \<noteq> [] \<or> ys \<noteq> []) \<longrightarrow> writes_to w p d))"
proof (cases c)
  case (Write lv e q)
  then obtain ap fm where ap: "lw_appenders w q = Some ap" "ap_formatter ap = Some fm" "ap_level ap \<le> lv"
    using ok by auto
  then show ?thesis
    using good step some Write
    by (auto simp: deref_appender_def deref_formatter_def lines_to_def writes_to_def)
next
  case (Put_Text q s)
  show ?thesis
  proof (cases s)
    case Nil
    then show ?thesis using good step Put_Text by auto
  next
    case (Cons x r)
    then have "put_char q x w = Inr w'" "js = [Run (Put_Text q r)]"
      using step Put_Text by (auto split: sum.splits)
    with put_char_delivers [OF good this(1), of d] Put_Text some Cons show ?thesis by auto
  qed
qed (use some in auto)

lemma text_begun_append: "js \<noteq> [] \<or> (\<forall>i\<in>set k. outside i) \<Longrightarrow> text_begun w d (js @ k) = text_begun w d js"
  by (cases "(w, d, js)" rule: text_begun.cases) (auto simp: text_begun_outside)

text \<open>
  A step of a thread begins the lines \<open>xs\<close>, at most one, and inserts \<open>ys\<close>, at most a character; both only
  while it is inserting into a stream with that destination.
\<close>

lemma log_thread_step_delivers:
  assumes wf: "log_wf w" and good: "streams_good w" and ok: "\<forall>i\<in>set k. instr_ok w i" and g: "guarded k"
    and step: "log_thread_step clock t (s, w, k) (s', w', k')"
  shows "streams_good w' \<and>
         (\<exists>xs ys. pending w d k = xs @ pending w d k' \<and> content w' d = content w d @ ys \<and>
            text_begun w d k @ concat xs = ys @ text_begun w d k' \<and>
            ((xs \<noteq> [] \<or> ys \<noteq> []) \<longrightarrow> (\<exists>p. inserting p k \<and> writes_to w p d)))"
  using step
proof cases
  case (lt_enter l body k2)
  have "\<forall>i\<in>set k. outside i" using g lt_enter(1) by (auto simp: guarded_def inserting_def)
  then have "text_begun w d (map Run body @ End_Guard l # k2) = []"
    using lt_enter(1) by (cases body) auto
  then show ?thesis using good lt_enter by (intro conjI exI [of _ "[]"]) auto
next
  case (lt_leave l)
  have "\<forall>i\<in>set k. outside i" using g lt_leave(1) by (auto simp: guarded_def inserting_def)
  then show ?thesis using good lt_leave by (intro conjI exI [of _ "[]"]) (auto simp: text_begun_outside)
next
  case (lt_stmt now c js k2)
  have okc: "stmt_ok w c" using ok lt_stmt(1) by simp
  show ?thesis
  proof (cases "writer_of c")
    case None
    then have out: "\<forall>i\<in>set k. outside i" using g lt_stmt(1) by (auto simp: guarded_def inserting_def)
    have "\<forall>i\<in>set k'. outside i" using log_stmt_step_outside [OF None lt_stmt(5)] out lt_stmt by auto
    with out log_stmt_step_delivers [OF wf good okc lt_stmt(5) None, of d] lt_stmt show ?thesis
      by (intro conjI exI [of _ "[]"]) (auto simp: text_begun_outside)
  next
    case (Some p)
    then have ins: "inserting p k" and out: "\<forall>i\<in>set k2. outside i"
      using g lt_stmt(1) by (auto simp: guarded_def inserting_def)
    from writer_stmt_delivers [OF good okc lt_stmt(5) Some, of d k2] obtain xs ys where
      "streams_good w'" "stmt_lines w d c = xs" "pending w d js = []" "content w' d = content w d @ ys"
      "text_begun w d (Run c # k2) @ concat xs = ys @ text_begun w d js" "xs \<noteq> [] \<or> ys \<noteq> [] \<longrightarrow> writes_to w p d" by blast
    then show ?thesis
      using ins lt_stmt(1,3) text_begun_append [of js k2 w d] out
      by (intro conjI exI [of _ xs] exI [of _ ys]) auto
  qed
qed

text \<open>The threads together: every character arrives, those of a thread in their order.\<close>

lemma log_run_delivers:
  assumes "log_run clock c c'" and "log_wf w0" and "logging_inv w0 c" and "streams_good (fst (snd c))"
    and "\<forall>k\<in>set (snd (snd c')). k = []"
  shows "\<exists>cs. interleaving (map (\<lambda>k. text_begun w0 d k @ concat (pending w0 d k)) (snd (snd c))) cs \<and>
              content (fst (snd c')) d = content (fst (snd c)) d @ cs"
  using assms
proof (induction rule: log_run.induct)
  case (log_run_refl c)
  have "interleaving (map (\<lambda>k. text_begun w0 d k @ concat (pending w0 d k)) (snd (snd c))) []"
    by (rule il_done, rule all_Nil_map) (use log_run_refl in simp_all)
  then show ?case by (intro exI [of _ "[]"]) simp
next
  case (log_run_step c c' c'')
  let ?rest = "\<lambda>k. text_begun w0 d k @ concat (pending w0 d k)"
  obtain s w ts s' w' ts' where c: "c = (s, w, ts)" "c' = (s', w', ts')" by (metis prod.collapse)
  obtain t k' where t: "t < length ts" "ts' = ts[t := k']" "log_thread_step clock t (s, w, ts ! t) (s', w', k')"
    using log_run_step.hyps(1) unfolding c by (auto elim!: log_stepE)
  have fr: "log_frame w0 w" and ok: "threads_ok w ts" and g: "guarded (ts ! t)"
    using log_run_step.prems(2) t(1) by (auto simp: c logging_inv_def)
  have good: "streams_good w" using log_run_step.prems(3) by (simp add: c)
  note step = log_thread_step_delivers [OF log_frame_wf [OF fr log_run_step.prems(1)] good threads_okD [OF ok t(1)] g t(3)]
  from step [of d] obtain xs ys where xs: "pending w0 d (ts ! t) = xs @ pending w0 d k'" "content w' d = content w d @ ys"
    "text_begun w0 d (ts ! t) @ concat xs = ys @ text_begun w0 d k'"
    by (auto simp: pending_frame [OF fr] text_begun_frame [OF fr])
  have "logging_inv w0 c'" using logging_inv_step [OF _ _ log_run_step.hyps(1) [unfolded c]] log_run_step.prems(1,2) by (simp add: c)
  then obtain cs where cs: "interleaving (map ?rest ts') cs" "content (fst (snd c'')) d = content w' d @ cs"
    using log_run_step.IH log_run_step.prems step by (auto simp: c)
  have "?rest (ts ! t) = ys @ ?rest k'" using xs(1) arg_cong [OF xs(3), of "\<lambda>x. x @ concat (pending w0 d k')"] by simp
  then have "interleaving (map ?rest ts) (ys @ cs)"
    using cs(1) t(1,2) by (intro interleaving_append [of t]) (simp_all add: map_update)
  then show ?case using xs(2) cs(2) by (intro exI [of _ "ys @ cs"]) (simp add: c)
qed

text \<open>When two threads insert into the same stream, one of them does not hold its mutex.\<close>

lemma inserting_alone:
  assumes inv: "logging_inv w0 (s, w, ts)" and sole: "sole_appender w0 d"
    and t: "t < length ts" "inserting p (ts ! t)" "writes_to w0 p d" and u: "u < length ts" "u \<noteq> t"
  shows "text_begun w0 d (ts ! u) = []"
proof (rule ccontr)
  have fr: "log_frame w0 w" and ok: "threads_ok w ts" and g: "\<forall>k\<in>set ts. guarded k"
    and locks: "code_locks.lock_inv (lock_rank (lw_root w0)) (good_view (lw_root w0)) (s, map thread_locks ts)"
    using inv by (auto simp: logging_inv_def)
  assume "text_begun w0 d (ts ! u) \<noteq> []"
  then obtain q where q: "inserting q (ts ! u)" "writes_to w0 q d" using text_begun_inserting g u(1) by (meson nth_mem)
  have att: "attached w0 r" if "v < length ts" "inserting r (ts ! v)" for v r
    using threads_okD [OF ok that(1)] that(2)
    by (auto simp: inserting_def attached_frame [OF fr, symmetric] elim!: writer_of.elims)
  have "q = p" using sole q(2) t(3) att t u q(1) by (auto simp: sole_appender_def)
  then have "(Appender_Lock p, In_Lock, t) \<in># held (map thread_locks ts)"
    "(Appender_Lock p, In_Lock, u) \<in># held (map thread_locks ts)"
    using inserting_holds t u q(1) by (auto simp: in_held)
  moreover have "counts s (held (map thread_locks ts))" using locks by (simp add: code_locks.lock_inv_def)
  ultimately show False using counts_one_owner u(2) by metis
qed

lemma concat_map_alone:
  "t < length ts \<Longrightarrow> \<forall>u<length ts. u \<noteq> t \<longrightarrow> f (ts ! u) = [] \<Longrightarrow> concat (map f ts) = f (ts ! t)"
proof (induction ts arbitrary: t)
  case (Cons x ts)
  show ?case
  proof (cases t)
    case 0
    have "f y = []" if y: "y \<in> set ts" for y
    proof -
      obtain u where "u < length ts" "ts ! u = y" using y by (auto simp: in_set_conv_nth)
      then show ?thesis using Cons.prems(2) [rule_format, of "Suc u"] 0 by simp
    qed
    then have "concat (map f ts) = []" by (induction ts) simp_all
    then show ?thesis using 0 by simp
  next
    case (Suc r)
    have "f x = []" using Cons.prems(2) [rule_format, of 0] Suc by simp
    moreover have "concat (map f ts) = f (ts ! r)"
    proof (rule Cons.IH)
      show "\<forall>u<length ts. u \<noteq> r \<longrightarrow> f (ts ! u) = []"
        using Cons.prems(2) Suc by (metis Suc_inject Suc_less_eq length_Cons nth_Cons_Suc)
    qed (use Cons.prems(1) Suc in simp)
    ultimately show ?thesis using Suc by simp
  qed
qed simp

text \<open>Where one appender writes alone, the lines arrive whole: the line that has been begun is always finished first.\<close>

lemma log_run_whole_lines:
  assumes "log_run clock c c'" and "log_wf w0" and "logging_inv w0 c" and "streams_good (fst (snd c))"
    and "\<forall>k\<in>set (snd (snd c')). k = []" and "sole_appender w0 d"
  shows "\<exists>ls. interleaving (map (pending w0 d) (snd (snd c))) ls \<and>
              content (fst (snd c')) d = content (fst (snd c)) d @ concat (map (text_begun w0 d) (snd (snd c))) @ concat ls"
  using assms
proof (induction rule: log_run.induct)
  case (log_run_refl c)
  have "interleaving (map (pending w0 d) (snd (snd c))) []"
    by (rule il_done, rule all_Nil_map) (use log_run_refl in simp_all)
  moreover have "concat (map (text_begun w0 d) (snd (snd c))) = []" using log_run_refl by (auto simp: concat_eq_Nil_conv)
  ultimately show ?case by (intro exI [of _ "[]"]) simp
next
  case (log_run_step c c' c'')
  obtain s w ts s' w' ts' where c: "c = (s, w, ts)" "c' = (s', w', ts')" by (metis prod.collapse)
  obtain t k' where t: "t < length ts" "ts' = ts[t := k']" "log_thread_step clock t (s, w, ts ! t) (s', w', k')"
    using log_run_step.hyps(1) unfolding c by (auto elim!: log_stepE)
  have fr: "log_frame w0 w" and ok: "threads_ok w ts" and g: "guarded (ts ! t)"
    using log_run_step.prems(2) t(1) by (auto simp: c logging_inv_def)
  have good: "streams_good w" using log_run_step.prems(3) by (simp add: c)
  note step = log_thread_step_delivers [OF log_frame_wf [OF fr log_run_step.prems(1)] good threads_okD [OF ok t(1)] g t(3)]
  from step [of d] obtain xs ys where xs: "pending w0 d (ts ! t) = xs @ pending w0 d k'" "content w' d = content w d @ ys"
    "text_begun w0 d (ts ! t) @ concat xs = ys @ text_begun w0 d k'"
    and ins: "(xs \<noteq> [] \<or> ys \<noteq> []) \<longrightarrow> (\<exists>p. inserting p (ts ! t) \<and> writes_to w0 p d)"
    by (auto simp: pending_frame [OF fr] text_begun_frame [OF fr] writes_to_frame [OF fr])
  have "logging_inv w0 c'" using logging_inv_step [OF _ _ log_run_step.hyps(1) [unfolded c]] log_run_step.prems(1,2) by (simp add: c)
  then obtain ls where ls: "interleaving (map (pending w0 d) ts') ls"
    "content (fst (snd c'')) d = content w' d @ concat (map (text_begun w0 d) ts') @ concat ls"
    using log_run_step.IH log_run_step.prems step by (auto simp: c)
  have "concat (map (text_begun w0 d) ts) @ concat xs = ys @ concat (map (text_begun w0 d) ts')"
  proof (cases "xs \<noteq> [] \<or> ys \<noteq> []")
    case True
    then obtain p where p: "inserting p (ts ! t)" "writes_to w0 p d" using ins by blast
    have alone: "\<forall>u<length ts. u \<noteq> t \<longrightarrow> text_begun w0 d (ts ! u) = []"
      using inserting_alone [OF log_run_step.prems(2) [unfolded c] log_run_step.prems(5) t(1) p] by blast
    then have "concat (map (text_begun w0 d) ts') = text_begun w0 d k'"
      using concat_map_alone [of t ts' "text_begun w0 d"] t(1,2) by simp
    then show ?thesis using concat_map_alone [OF t(1) alone] xs(3) by simp
  next
    case False
    then show ?thesis using xs(3) t(1,2) by (simp add: map_update) (metis list_update_id map_update)
  qed
  moreover have "interleaving (map (pending w0 d) ts) (xs @ ls)"
    using ls(1) xs(1) t(1,2) by (intro interleaving_append [of t]) (simp_all add: map_update)
  ultimately show ?case using xs(2) ls(2) by (intro exI [of _ "xs @ ls"]) (simp add: c)
qed

lemma concat_map_Nil: "concat (map (\<lambda>x. []) xs) = []"
  by (induction xs) simp_all

lemma log_program_lines:
  "pending w d (log_program calls) = concat (map (call_lines w d) calls)" "text_begun w d (log_program calls) = []"
  by (induction calls) (auto simp: log_program_def)

section \<open>Properties\<close>

text \<open>C5: Many threads log. Each makes any number of calls of \<open>Logger::log\<close> on live loggers of a well-formed store whose files
  can be written; they are interleaved statement by statement and guard by guard, the insertion of a line character
  by character, and the clock shows any time whenever it is read. Some thread can go on as long as one has not
  finished, and no run goes on for ever. When all have finished, the locks are free, the configuration is as
  before, and the characters of the lines of each thread, for each call one line for each of its targets that admits the
  event, have been added to \<open>std::cout\<close> and to each file in the order of the thread. Where a single appender of the
  loggers writes to a destination, whole lines have been added: none is lost, doubled or torn, because the
  guard of the appender surrounds the insertion.\<close>

theorem concurrent_logging_delivers:
  assumes wf: "log_wf w" and good: "streams_good w"
    and live: "\<forall>calls\<in>set css. \<forall>(a, lv, e)\<in>set calls. lw_loggers w a \<noteq> None"
    and run: "log_run clock (locks_ctor, w, map log_program css) (s, w', ts)" and now: "clock now"
  shows "((\<exists>c'. log_step clock (s, w', ts) c') \<or>
            (\<forall>k\<in>set ts. k = []) \<and> s = locks_ctor \<and> log_frame w w' \<and>
            (\<forall>d. \<exists>cs. interleaving (map (\<lambda>calls. concat (concat (map (call_lines w d) calls))) css) cs \<and>
                      content w' d = content w d @ cs) \<and>
            (\<forall>d. sole_appender w d \<longrightarrow>
               (\<exists>ls. interleaving (map (\<lambda>calls. concat (map (call_lines w d) calls)) css) ls \<and>
                     content w' d = content w d @ concat ls))) \<and>
         \<not> (\<exists>r. r 0 = (locks_ctor, w, map log_program css) \<and> (\<forall>i. log_step clock (r i) (r (Suc i))))"
proof -
  note start = logging_inv_start [OF wf live]
  have inv: "logging_inv w (s, w', ts)" by (rule logging_inv_run [OF run wf start])
  have "\<not> (\<exists>r. r 0 = (locks_ctor, w, map log_program css) \<and> (\<forall>i. log_step clock (r i) (r (Suc i))))"
    using log_runs_end [OF wf] start by metis
  moreover have "s = locks_ctor \<and> log_frame w w'" if all: "\<forall>k\<in>set ts. k = []"
  proof
    have locks: "code_locks.lock_inv (lock_rank (lw_root w)) (good_view (lw_root w)) (s, map thread_locks ts)"
      using inv by (simp add: logging_inv_def)
    have "counts s {#}" by (rule code_locks.finished_free [OF locks all_Nil_map [OF all]]) simp
    then show "s = locks_ctor" by (simp add: counts_free)
    show "log_frame w w'" using inv by (simp add: logging_inv_def)
  qed
  moreover have "\<exists>cs. interleaving (map (\<lambda>calls. concat (concat (map (call_lines w d) calls))) css) cs \<and>
      content w' d = content w d @ cs" if "\<forall>k\<in>set ts. k = []" for d
    using log_run_delivers [OF run wf start, of d] good that by (simp add: comp_def log_program_lines)
  moreover have "\<exists>ls. interleaving (map (\<lambda>calls. concat (map (call_lines w d) calls)) css) ls \<and>
      content w' d = content w d @ concat ls" if "\<forall>k\<in>set ts. k = []" "sole_appender w d" for d
    using log_run_whole_lines [OF run wf start _ _ that(2)] good that(1)
    by (simp add: comp_def log_program_lines concat_map_Nil)
  moreover have "\<exists>c'. log_step clock (s, w', ts) c'" if "\<exists>k\<in>set ts. k \<noteq> []"
    by (rule log_step_exists [where clock = clock and now = now, OF inv wf now that])
  ultimately show ?thesis by blast
qed

definition demo_event :: "string \<Rightarrow> log_event" where
  "demo_event s = (LogEvent_ctor ''main.cpp'' 7 0 1 ''main'' 0 1000 1 INFO)\<lparr>ev_ss := s\<rparr>"

definition demo_line :: "string \<Rightarrow> string" where
  "demo_line s = LogFormatter_format (world_env demo_world_1) (LogFormatter_ctor default_pattern) INFO (demo_event s)"

lemma demo_lines:
  "call_lines demo_world_1 (Some ''system.txt'') (1, INFO, demo_event s) = [demo_line s]"
  by (simp add: call_lines_def lines_to_def demo_world_1_facts demo_line_def less_eq_level_def del: One_nat_def)

lemma demo_good: "streams_good demo_world_1"
  by (simp add: streams_good_def demo_world_1_def demo_world_0_def blank_world_def)

lemma demo_text: "lw_files demo_world_1 ''system.txt'' = []"
  by (simp add: demo_world_1_def demo_world_0_def blank_world_def)

lemma demo_sole: "sole_appender demo_world_1 (Some ''system.txt'')"
  by (auto simp: sole_appender_def writes_to_def demo_world_1_def demo_world_0_def split: if_splits)

text \<open>Two threads log one event each: the file holds the two lines in one order or the other.\<close>

theorem concurrent_logging_delivers_witness:
  "\<exists>c ls. log_run (\<lambda>now. True) (locks_ctor, demo_world_1,
             map log_program [[(1, INFO, demo_event ''a'')], [(1, INFO, demo_event ''b'')]]) c \<and>
     sole_appender demo_world_1 (Some ''system.txt'') \<and>
     interleaving [[demo_line ''a''], [demo_line ''b'']] ls \<and> lw_files (fst (snd c)) ''system.txt'' = concat ls"
proof -
  let ?css = "[[(1, INFO, demo_event ''a'')], [(1, INFO, demo_event ''b'')]]"
  have live: "\<forall>calls\<in>set ?css. \<forall>(a, lv, e)\<in>set calls. lw_loggers demo_world_1 a \<noteq> None"
    using demo_world_1_facts(3) by simp
  obtain c where c: "log_run (\<lambda>now. True) (locks_ctor, demo_world_1, map log_program ?css) c"
    "\<forall>k\<in>set (snd (snd c)). k = []"
    using log_run_completes [OF demo_world_1_wf logging_inv_start [OF demo_world_1_wf live], of "\<lambda>now. True"] by blast
  obtain s w' ts where eq: "c = (s, w', ts)" by (metis prod.collapse)
  have "\<not> (\<exists>c'. log_step (\<lambda>now. True) (s, w', ts) c')"
    using c(2) by (auto simp: eq log_step_finished)
  with concurrent_logging_delivers [where now = 0, OF demo_world_1_wf demo_good live c(1) [unfolded eq] TrueI] demo_sole
  obtain ls where "interleaving (map (\<lambda>calls. concat (map (call_lines demo_world_1 (Some ''system.txt'')) calls)) ?css) ls"
    "content w' (Some ''system.txt'') = content demo_world_1 (Some ''system.txt'') @ concat ls" by blast
  then show ?thesis
    using c(1) demo_sole by (intro exI [of _ c] exI [of _ ls]) (simp add: eq demo_lines demo_text content_def del: One_nat_def)
qed

section \<open>Two appenders for one destination\<close>

text \<open>Runs as functions: the threads make the steps of a schedule.\<close>

fun log_thread_exec ::
  "64 word \<Rightarrow> nat \<Rightarrow> lock_id locks \<times> log_world \<times> log_instr list \<Rightarrow>
   (lock_id locks \<times> log_world \<times> log_instr list) option" where
  "log_thread_exec now t (s, w, []) = None"
| "log_thread_exec now t (s, w, In_Guard l body # k) =
     map_option (\<lambda>s'. (s', w, map Run body @ End_Guard l # k)) (guard_ctor In_Lock t l s)"
| "log_thread_exec now t (s, w, End_Guard l # k) = Some (guard_dtor In_Lock t l s, w, k)"
| "log_thread_exec now t (s, w, Run c # k) =
     (case log_stmt_step now c w of Inl err \<Rightarrow> None | Inr (js, w') \<Rightarrow> Some (s, w', js @ k))"

fun log_exec :: "64 word \<Rightarrow> nat list \<Rightarrow> log_threads \<Rightarrow> log_threads option" where
  "log_exec now [] c = Some c"
| "log_exec now (t # sch) (s, w, ts) =
     (if t < length ts
      then (case log_thread_exec now t (s, w, ts ! t) of
              None \<Rightarrow> None
            | Some (s', w', k') \<Rightarrow> log_exec now sch (s', w', ts[t := k']))
      else None)"

lemma log_thread_exec_step: "log_thread_exec now t c = Some c' \<Longrightarrow> clock now \<Longrightarrow> log_thread_step clock t c c'"
  by (cases "(now, t, c)" rule: log_thread_exec.cases)
     (auto intro: log_thread_step.intros simp del: guard_ctor.simps guard_dtor.simps split: sum.splits)

lemma log_exec_run: "log_exec now sch c = Some c' \<Longrightarrow> clock now \<Longrightarrow> log_run clock c c'"
proof (induction now sch c rule: log_exec.induct)
  case (2 now t sch s w ts)
  then obtain s1 w1 k1 where t: "t < length ts" "log_thread_exec now t (s, w, ts ! t) = Some (s1, w1, k1)"
    "log_exec now sch (s1, w1, ts[t := k1]) = Some c'"
    by (auto split: if_splits option.splits)
  have "log_run clock (s1, w1, ts[t := k1]) c'" using "2.IH" [OF t(1,2) _ _ t(3) "2.prems"(2)] by simp
  moreover have "log_step clock (s, w, ts) (s1, w1, ts[t := k1])"
    by (rule log_step_thread [OF t(1)]) (rule log_thread_exec_step [where clock = clock, OF t(2) "2.prems"(2)])
  ultimately show ?case by (rule log_run_step [rotated])
qed (auto intro: log_run_refl)

text \<open>The root logger has an appender to the console, and so has a logger \<open>system\<close>; both write the message only.\<close>

definition two_consoles :: "log_call list" where
  "two_consoles =
     [Call_getLogger ''system'', Call_new_Stdout, Call_addAppender 1 1,
      Call_ap_setFormatter 0 (Some (LogFormatter_ctor ''%m'')), Call_ap_setFormatter 1 (Some (LogFormatter_ctor ''%m''))]"

definition console_world :: log_world where
  "console_world = demo_world_0
     \<lparr>lw_appenders := [0 \<mapsto> \<lparr>ap_level = DEBUG, ap_has_formatter = True,
          ap_formatter = Some (LogFormatter_ctor ''%m''), ap_sink = Stdout_Sink\<rparr>,
        1 \<mapsto> \<lparr>ap_level = DEBUG, ap_has_formatter = True,
          ap_formatter = Some (LogFormatter_ctor ''%m''), ap_sink = Stdout_Sink\<rparr>],
      lw_next_appender := 2,
      lw_loggers := (lw_loggers demo_world_0)(1 \<mapsto> \<lparr>lg_name = ''system'', lg_level = DEBUG, lg_appenders = [1],
        lg_formatter = Some (LogFormatter_ctor default_pattern), lg_root = Some 0\<rparr>),
      lw_next_logger := 2, lw_loggers_map := [(''root'', 0), (''system'', 1)]\<rparr>"

lemma console_world: "fold_r exec_call two_consoles demo_world_0 = Inr console_world"
  by (simp add: two_consoles_def demo_world_0_def console_world_def blank_world_def log_simps
      LoggerManager_getLogger_def smap_find_def Logger_ctor_def StdoutLogAppender_ctor_def new_appender_def
      Logger_addAppender_def LogAppender_getFormatter_def LogAppender_setFormatter_def
      fun_upd_twist numeral_2_eq_2)

definition two_messages :: "log_request list list" where
  "two_messages = [[(0, INFO, demo_event ''ab'')], [(1, INFO, demo_event ''cd'')]]"

lemma console_format [simp]: "LogFormatter_format env (LogFormatter_ctor ''%m'') lv (demo_event s) = s"
proof -
  have "fm_items (LogFormatter_ctor ''%m'') = [MessageFormatItem]" by code_simp
  then show ?thesis by (simp add: LogFormatter_format_def demo_event_def)
qed

lemma console_world_facts:
  "lw_loggers console_world 0 = Some \<lparr>lg_name = ''root'', lg_level = DEBUG, lg_appenders = [0],
     lg_formatter = Some (LogFormatter_ctor default_pattern), lg_root = None\<rparr>"
  "lw_loggers console_world (Suc 0) = Some \<lparr>lg_name = ''system'', lg_level = DEBUG, lg_appenders = [1],
     lg_formatter = Some (LogFormatter_ctor default_pattern), lg_root = Some 0\<rparr>"
  "lw_appenders console_world 0 = Some \<lparr>ap_level = DEBUG, ap_has_formatter = True,
     ap_formatter = Some (LogFormatter_ctor ''%m''), ap_sink = Stdout_Sink\<rparr>"
  "lw_appenders console_world (Suc 0) = Some \<lparr>ap_level = DEBUG, ap_has_formatter = True,
     ap_formatter = Some (LogFormatter_ctor ''%m''), ap_sink = Stdout_Sink\<rparr>"
  by (simp_all add: console_world_def demo_world_0_def blank_world_def)

lemma console_lines:
  "map (\<lambda>calls. concat (map (call_lines console_world None) calls)) two_messages = [[''ab''], [''cd'']]"
  by (simp add: two_messages_def call_lines_def lines_to_def targets_def console_world_facts less_eq_level_def)

lemma not_torn:
  assumes "interleaving [[''ab''], [''cd'']] ls"
  shows "concat ls \<noteq> ''acdb''"
proof -
  have "mset ls = {#''ab'', ''cd''#}" using interleaving_mset [OF assms] by simp
  moreover from this have "length ls = 2" by (metis size_mset size_add_mset size_empty numeral_2_eq_2)
  then obtain x y where "ls = [x, y]" by (auto simp: numeral_2_eq_2 length_Suc_conv)
  ultimately show ?thesis by (auto simp: add_eq_conv_ex)
qed

text \<open>C6: Two console appenders do not share a mutex, so their lines can be torn. The root logger has an appender for
  the console; a second logger is given one of its own. A thread that logs \<open>ab\<close> on the one and a thread that logs
  \<open>cd\<close> on the other can both be inside the guard of their appender, and the console then shows \<open>acdb\<close>, which is not
  made of whole lines.\<close>

theorem two_consoles_tear_lines:
  "\<exists>w s w'. fold_r exec_call two_consoles demo_world_0 = Inr w \<and>
     log_run (\<lambda>now. now = 0) (locks_ctor, w, map log_program two_messages) (s, w', [[], []]) \<and>
     lw_cout w' = lw_cout w @ ''acdb'' \<and>
     \<not> (\<exists>ls. interleaving (map (\<lambda>calls. concat (map (call_lines w None) calls)) two_messages) ls \<and>
            content w' None = content w None @ concat ls)"
proof -
  let ?css = "map log_program two_messages"
  have "\<exists>s w'. log_exec 0 [0, 0, 0, 0, 0, 0, 0, 1, 1, 1, 1, 1, 1, 1, 1, 1, 1, 1, 0, 0, 0, 0]
      (locks_ctor, console_world, map log_program two_messages) = Some (s, w', [[], []]) \<and>
      lw_cout w' = lw_cout console_world @ ''acdb''"
    by (simp add: two_messages_def log_program_def numeral_2_eq_2 deref_logger_def deref_appender_def deref_formatter_def
        console_world_facts less_eq_level_def appender_log_stmts_def guard_defs Mutex_lock_def Mutex_unlock_def
        locks_ctor_def Mutex_ctor_def put_char_def write_cout_def)
  then obtain s w' where w': "log_exec 0 [0, 0, 0, 0, 0, 0, 0, 1, 1, 1, 1, 1, 1, 1, 1, 1, 1, 1, 0, 0, 0, 0]
      (locks_ctor, console_world, ?css) = Some (s, w', [[], []])" "lw_cout w' = lw_cout console_world @ ''acdb''"
    by blast
  from log_exec_run [OF w'(1), of "\<lambda>now. now = 0"]
  have run: "log_run (\<lambda>now. now = 0) (locks_ctor, console_world, ?css) (s, w', [[], []])" by simp
  have "\<not> (\<exists>ls. interleaving (map (\<lambda>calls. concat (map (call_lines console_world None) calls)) two_messages) ls \<and>
      content w' None = content console_world None @ concat ls)"
    unfolding console_lines using w'(2) not_torn by (fastforce simp: content_def)
  with run w'(2) console_world show ?thesis by blast
qed

end
