(* ===== verification/Spec2Isabelle.thy ===== *)
theory Spec2Isabelle
  imports Log_Pattern Log_Config Util Threads Config Fiber_Config Scheduler_Liveness Log_Delivery
begin

text \<open>
  A verification development for sylar, a C++ server library: logging, configuration, threads and locks,
  fibers, and a fiber scheduler. All source names below are relative to \<open>src/src/\<close> of the repository.

  \<^bold>\<open>The program.\<close> \<open>log.h\<close> and \<open>log.cpp\<close> implement a logging library: a \<open>LoggerManager\<close> owns named loggers, a
  logger filters events by level and hands them to its appenders, an appender formats an event with a
  \<open>LogFormatter\<close>, which was compiled from a pattern, and writes it to the console or a file; a logger
  without appenders passes the event to the root logger. \<open>config.h\<close> and \<open>config.cpp\<close> implement typed configuration
  variables with listeners, a registry of them, loading values from YAML documents, and casts between containers
  and YAML text. The two meet in \<open>LogIniter\<close> (\<open>log.cpp\<close>): the variable \<open>logs\<close> holds a set of logger definitions,
  and its listener makes the loggers follow it. \<open>thread.h\<close> and \<open>thread.cpp\<close> wrap POSIX threads, mutexes and
  semaphores. \<open>fiber.h\<close> and \<open>fiber.cpp\<close> are coroutines on \<open>ucontext\<close>, whose stack size is a configuration variable;
  \<open>scheduler.h\<close> and \<open>scheduler.cpp\<close> run fibers and callbacks from one queue in a pool of threads. \<open>util.cpp\<close> and
  \<open>macro.h\<close> provide backtraces and assertions that log, \<open>singleton.h\<close> the singletons.

  \<^bold>\<open>How it is modelled.\<close> Pure code is a function; code with state is a function on a record of the state,
  which is returned updated; code that can throw, abort or run into undefined behaviour returns a \<open>result\<close> whose left
  side is an \<open>error\<close> (theory \<open>Sylar_Prelude\<close>), so that a caught exception, a failed assertion, a null pointer that
  is dereferenced and a call that does not return are different values. Objects behind \<open>std::shared_ptr\<close> live at
  addresses of an explicit store wherever sharing can be observed (loggers, appenders, variables, fibers).
  Threads are step functions or inductive step relations, interleaved in any order. \<open>uint32_t\<close>, \<open>uint64_t\<close> and
  \<open>size_t\<close> are words of their width where the width matters (ids, counters, stack sizes, backtrace sizes).
  What the code calls outside the repository is a parameter: yaml-cpp (\<open>Yaml_Api\<close>, with the documented laws
  as \<open>yaml_laws\<close>), \<open>boost::lexical_cast\<close> (the casts of a \<open>vtype\<close>), the time functions of the C library, \<open>vasprintf\<close>,
  \<open>backtrace\<close>, the file system and the clock (part of the store), and the callbacks and listeners of the user.
\<close>

text \<open>
  \<^bold>\<open>Theories and sources.\<close>

  \<^item> \<open>Sylar_Prelude\<close>: errors, sequencing of fallible calls (\<open>bind_r\<close>, \<open>fold_r\<close>), strings, and \<open>std::map\<close> as a
    sorted association list (\<open>smap\<close>).

  \<^item> \<open>Log_Format\<close> (\<open>log.h\<close>, \<open>log.cpp\<close>): \<open>LogLevel\<close>, \<open>LogEvent\<close>, the \<open>FormatItem\<close> classes, and \<open>LogFormatter::init\<close> loop by loop
    (\<open>init_scan\<close> is the inner loop over one item, \<open>init_loop\<close> the outer one). \<open>Log_Pattern\<close>: the language of patterns;
    parsing inverts printing, and a formatter writes what the tokens of its pattern stand for.

  \<^item> \<open>Log_Core\<close>: appenders, loggers, the manager and the logging macros over the store \<open>log_world\<close>. \<open>Log_Dispatch\<close>:
    the frame of a logging call and the text it writes. \<open>Log_Invariant\<close>: the invariant \<open>log_inv\<close>, with every
    formatter set (\<open>log_wf\<close>) or not (\<open>log_shape\<close>), its preservation by every operation, and when logging returns.

  \<^item> \<open>Log_Define\<close>: \<open>LogAppenderDefine\<close>, \<open>LogDefine\<close>, the two casts between \<open>LogDefine\<close> and text, and \<open>toYamlString\<close> of
    appenders, loggers and the manager. \<open>Log_Config\<close>: the listener of \<open>LogIniter\<close>, split along its two loops
    (\<open>on_define\<close>, \<open>on_deleted\<close>), the relation \<open>conforms\<close> between a logger and its definition, static
    initialisation, and the composition with \<open>ConfigVar\<close>.

  \<^item> \<open>Locks\<close> (\<open>thread.h\<close>): \<open>Mutex\<close>, \<open>Spinlock\<close>, \<open>CASLock\<close>, \<open>RWMutex\<close>, the null locks, the scoped locks and the semaphore.
    \<open>Threads\<close> (\<open>thread.h\<close>, \<open>thread.cpp\<close>): one \<open>Thread\<close> object, its creator and \<open>Thread::run\<close>, statement by statement.

  \<^item> \<open>Lock_Order\<close>: threads that take locks in scopes, and why a fixed order of the locks rules out deadlocks.
    \<open>Lock_Programs\<close> (\<open>log.cpp\<close>, \<open>config.h\<close>, \<open>config.cpp\<close>): the guards of every operation of logging and configuration, in
    their scopes and branches (\<open>Logger_log_locks\<close> for \<open>Logger::log\<close>, and so on), and the order they keep.

  \<^item> \<open>Log_Threads\<close> (\<open>log.cpp\<close>): \<open>Logger::log\<close> and the \<open>log\<close> of the appenders split into statements and guards, and an
    insertion into its characters (\<open>put_char\<close>), run by any number of threads on one store. \<open>Log_Delivery\<close>: what arrives
    in the files and on the console then, and why the guard of the appender is needed for it.

  \<^item> \<open>Yaml_Api\<close>: the calls of yaml-cpp the sources make, and their laws. \<open>Lexical_Cast\<close> (\<open>config.h\<close>): the container
    specialisations of \<open>LexicalCast\<close>. \<open>Config_Var\<close> (\<open>config.h\<close>): \<open>ConfigVar\<close>, its listeners, \<open>setValue\<close> in its two critical
    sections. \<open>Config\<close> (\<open>config.h\<close>, \<open>config.cpp\<close>): the registry, \<open>Lookup\<close>, \<open>LoadFromYaml\<close>, \<open>ListAllMember\<close>.

  \<^item> \<open>Fiber\<close> (\<open>fiber.h\<close>, \<open>fiber.cpp\<close>): fibers, their contexts as points of the callback, the switches, \<open>MainFunc\<close>.
    \<open>Fiber_Config\<close>: the variable \<open>fiber.stack_size\<close> and the constructor that reads it.

  \<^item> \<open>Scheduler\<close> (\<open>scheduler.h\<close>, \<open>scheduler.cpp\<close>): the queue, \<open>schedule\<close>, \<open>run\<close> of any number of threads as a program counter
    (\<open>run_pc\<close>) with one critical section or observable statement per step, \<open>start\<close>, and \<open>stop\<close> up to the swap of
    \<open>m_threads\<close> and with the joins. \<open>sc_runs\<close> has every execution of \<open>run\<close>, ended ones too; \<open>m_threads\<close> are positions in it. \<open>Pool_Model\<close>: the
    abstract worker pool, the invariant and the abstraction. \<open>Scheduler_Pool\<close>: the refinement.
    \<open>Scheduler_Liveness\<close>: \<open>stop\<close> returns under every fair order of the threads, and when it cannot.

  \<^item> \<open>Util\<close> (\<open>util.cpp\<close>, \<open>macro.h\<close>, \<open>singleton.h\<close>): \<open>Backtrace\<close>, \<open>SYLAR_ASSERT\<close>, \<open>Singleton\<close>.

  \<^bold>\<open>Interfaces.\<close> A \<open>locale\<close> states what one part relies on of another, and is interpreted on the definitions
  that provide it. \<open>lockable\<close> and \<open>rw_lockable\<close> (\<open>Locks\<close>): what a scoped lock needs of its mutex; provided by each lock
  class. \<open>lock_table\<close> (\<open>Lock_Order\<close>): what threads need of the locks they share; provided by the mutexes and read-write
  locks under their scoped locks. \<open>container\<close> (\<open>Lexical_Cast\<close>): what the casts need of a container, that inserting its elements in iteration order
  rebuilds it; provided by the five kinds of insertion. \<open>listener_contract\<close> (\<open>Config_Var\<close>): a listener that keeps a
  part of the program in step with its variable; provided by the listener of \<open>LogIniter\<close> and by a listener that copies.
\<close>

text \<open>
  \<^bold>\<open>What the lemmas show.\<close>

  \<^item> Patterns: a printed pattern is parsed back to its items, an unknown key or an unclosed brace makes the formatter
    one in error, and the rendered text is the concatenation over the tokens.

  \<^item> Logging: every sequence of interface calls keeps the store well-formed, and each further call
    returns, with at most one step to the root logger, unless it logs through a formatter that was set to null; a macro delivers one line to
    exactly the admitted appenders and changes nothing else. A failed write silences a file appender for good.

  \<^item> Logging configuration: whatever is loaded, looked up and logged, the loggers match the configuration; loading
    a text leaves the loggers alone and logs an ERROR line, or moves to the value read and silences deleted loggers; definitions survive a trip
    through text; what the manager exports is read back, up to what the cast does not read.

  \<^item> Configuration: \<open>LoadFromYaml\<close> against a fold over the document, \<open>ListAllMember\<close> against the paths of the document,
    \<open>Lookup\<close> on every branch, the invariant of the registry, the order and the ids of listeners, and the one
    race of \<open>setValue\<close>; containers survive a trip through text, nested to any depth.

  \<^item> Locks and threads: mutual exclusion of scoped locks, the exact condition under which a guard blocks, the one way
    to break a read-write lock; the handshake of \<open>Thread\<close>'s constructor, the life of the object, and its dangling cases.

  \<^item> Logging and configuration in many threads: the locks are taken in the order registry, variable, manager, logger, root
    logger, appender, so that no interleaving deadlocks, with exceptions or without; every run ends with all locks
    free. A callback that changes its own variable is outside of the order, and blocks for ever. Threads that log on a fixed
    configuration deliver every character, each thread's in the order of its calls, and whole lines where one appender alone
    writes; two console appenders can tear each other's lines. For a single thread these are the lines that \<open>Logger_log\<close>
    of \<open>Log_Core\<close> writes: both are specified by \<open>targets\<close> and the text of one appender.

  \<^item> Fibers and scheduler: a fiber does what its callback does; \<open>TotalFibers\<close> counts the fibers that exist, whatever threads
    do with them; the counters of the scheduler in every interleaving;
    the scan of the queue; a pool that is given callbacks implements the abstract pool, no assertion
    fails, and \<open>stop\<close> returns; scheduling a range is scheduling its elements; and the three ways in which the protocol with fibers that
    yield or are bound to threads goes wrong.

  \<^bold>\<open>Bounds and fuel.\<close> \<open>Logger_log\<close> follows \<open>m_root\<close> with fuel 2: the constructor of the manager makes root the only logger
    without a root, so one step is enough, which the invariant proves; \<open>Logger_log_locks\<close> has the same fuel, and out of it
    is a program that would deadlock. \<open>ListAllMember\<close> has fuel and gives \<open>None\<close> without it;
    any fuel above the depth of the document is enough, and a cyclic document exhausts any. \<open>fiber_run\<close> has
    fuel for the steps of a callback up to its next switch; a callback that stops after \<open>k\<close> steps needs
    \<open>k + 2\<close>. The counters of listeners and fibers are 64-bit words and the theorems on them assume fewer than \<open>2^64\<close> calls.
    All other functions are total by structural recursion or by a measure.

  \<^bold>\<open>Findings.\<close> Among what the theorems show about the code as it is: \<open>%%\<close> is not an escape; \<open>reopen\<close> does not recover from a
    failed write; \<open>fromString\<close> never returns true; \<open>LoadFromYaml\<close> does not see keys with upper-case letters; \<open>wrlock\<close> in a
    thread that has the lock breaks exclusion; \<open>SetName\<close> after the destructor of \<open>Thread\<close> writes to a dangling object; a fiber
    that schedules itself and yields can be executed by two threads; a thread can leave \<open>run\<close> although a task for
    it is still to come; a task for an unknown thread id blocks \<open>stop\<close> for ever; a null formatter is accepted and then dereferenced; two console
    appenders share the console but not a mutex; a stack size of \<open>2^32\<close> is 0.
\<close>

text \<open>
  \<^bold>\<open>Not modelled.\<close> The umbrella header \<open>sylar.h\<close> and the example programs under \<open>tests/\<close>, which assert nothing. Of the modelled
  files: declarations without code and accessors that only return a field; the log lines that \<open>fiber.cpp\<close>, \<open>scheduler.cpp\<close>,
  \<open>thread.cpp\<close>, \<open>config.cpp\<close> and \<open>config.h\<close> write about themselves, except the ERROR line of \<open>fromString\<close>, which is an
  effect given to it, as is what its cast prints; \<open>sem_destroy\<close> and \<open>pthread_*_destroy\<close>, which have no
  effect in the model; failures of \<open>getcontext\<close>, \<open>swapcontext\<close> and \<open>malloc\<close>. Threads inside one operation are
  interleaved in \<open>Log_Threads\<close>, for logging on a configuration that does not change meanwhile, and in \<open>Lock_Programs\<close>, for
  everything else: this follows the locks and lets the data be any well-formed store at each look. What logging does
  while another thread changes the loggers, the buffers of the streams (a character that is inserted is in its
  destination), and weak memory effects of the atomics in \<open>Spinlock\<close> and \<open>CASLock\<close> are not modelled. \<open>SYLAR_ASSERT(x)\<close> evaluates \<open>x\<close>
  again in \<open>assert(x)\<close>: the model takes it to have no effect and the same value. Listeners of a
  variable act on the rest of the program and not on the registry: in \<open>Lock_Programs\<close> they make logging calls, and the
  callback of \<open>Visit\<close> makes logging calls and uses variables. The lifetime of shared fibers (reference counts) is not tracked: a fiber stays
  in the store until its destructor is called.

  The scheduler refinement is for schedulers without the caller's thread (\<open>use_caller\<close> is false) and for callbacks that
  work, schedule callbacks, return or throw; the theorems of \<open>Scheduler\<close> are for every scheduler and every callback,
  and show what can go wrong with fibers that yield.
\<close>

end
